(* ===== verification/Prelude.thy ===== *)
theory Prelude
  imports Main "HOL-Library.Word" "HOL-Library.Multiset"
begin

text \<open>
  What the component theories share: the machine types of the LP64 targets of cloudlibc, the
  \<open>errno\<close> values the modelled functions report, C's truncating division, the contract of the
  caller-supplied comparison callbacks of \<^verbatim>\<open><search.h>\<close> and \<^verbatim>\<open><stdlib.h>\<close>
  (locale \<open>comparator\<close>), and list lemmas.
\<close>

unbundle bit_operations_syntax

section \<open>Machine types\<close>

type_synonym u8 = "8 word"
type_synonym u16 = "16 word"
type_synonym u32 = "32 word"
type_synonym u64 = "64 word"

text \<open>
  The \<open>errno\<close> values of the modelled functions. A POSIX function that fails by returning \<open>-1\<close>
  and setting \<open>errno\<close> returns \<open>Inl\<close> of one of these.
\<close>

datatype errno =
    EINVAL | ERANGE | EILSEQ | ESRCH | ENOMEM | EBUSY | EAGAIN | EMSGSIZE | ETIMEDOUT
  | EOVERFLOW | ENOSPC | EAFNOSUPPORT | EBADF | ENOTCAPABLE

section \<open>Signed integers of C\<close>

text \<open>
  C's \<open>/\<close> and \<open>%\<close> truncate towards zero, unlike \<open>div\<close> and \<open>mod\<close> on \<open>int\<close>.
\<close>

definition cdiv :: "int \<Rightarrow> int \<Rightarrow> int" where
  "cdiv a b = sgn a * sgn b * (\<bar>a\<bar> div \<bar>b\<bar>)"

definition cmod :: "int \<Rightarrow> int \<Rightarrow> int" where
  "cmod a b = a - cdiv a b * b"

lemma cdiv_nonneg: "0 \<le> a \<Longrightarrow> 0 < b \<Longrightarrow> cdiv a b = a div b"
  by (cases "a = 0") (auto simp: cdiv_def)

lemma cmod_nonneg: "0 \<le> a \<Longrightarrow> 0 < b \<Longrightarrow> cmod a b = a mod b"
  by (simp add: cmod_def cdiv_nonneg minus_div_mult_eq_mod)

lemma cdiv_neg: "a < 0 \<Longrightarrow> 0 < b \<Longrightarrow> cdiv a b = - (- a div b)"
  by (simp add: cdiv_def)

lemma cmod_neg: "a < 0 \<Longrightarrow> 0 < b \<Longrightarrow> cmod a b = - (- a mod b)"
  by (simp add: cmod_def cdiv_neg minus_div_mult_eq_mod [symmetric] algebra_simps)

lemma floor_adjust:
  assumes "0 < (n :: int)"
  shows "(if cmod h n < 0 then (cmod h n + n, cdiv h n - 1) else (cmod h n, cdiv h n)) = (h mod n, h div n)"
proof (cases "0 \<le> h")
  case True
  then show ?thesis using assms pos_mod_sign [OF assms, of h] by (simp add: cdiv_nonneg cmod_nonneg not_less)
next
  case False
  then have q: "cdiv h n = - (- h div n)" using assms by (simp add: cdiv_neg)
  have r: "cmod h n = - (- h mod n)"
    unfolding cmod_def q by (simp add: minus_mult_div_eq_mod [symmetric] algebra_simps)
  have "0 < - h mod n" if "- h mod n \<noteq> 0" using that pos_mod_sign [OF assms, of "- h"] by linarith
  then show ?thesis
    unfolding q r using zdiv_zminus1_eq_if [of n "- h"] zmod_zminus1_eq_if [of "- h" n] assms by auto
qed

lemma cdiv_cmod: "cdiv a b * b + cmod a b = a"
  by (simp add: cmod_def)

section \<open>Comparison callbacks\<close>

text \<open>
  POSIX requires of the \<open>compar\<close> callback of \<open>tsearch()\<close>, \<open>bsearch()\<close> and \<open>qsort()\<close> that it
  "defines a total ordering": swapping the arguments swaps the sign of the result, and
  \<open>\<le> 0\<close> is transitive. Elements comparing as \<open>0\<close> need not be equal.
\<close>

locale comparator =
  fixes compar :: "'a \<Rightarrow> 'a \<Rightarrow> int"
  assumes compar_antisym: "sgn (compar a b) = - sgn (compar b a)"
    and compar_trans: "compar a b \<le> 0 \<Longrightarrow> compar b c \<le> 0 \<Longrightarrow> compar a c \<le> 0"
begin

lemma compar_refl [simp]: "compar a a = 0"
  using compar_antisym [of a a] by (simp add: sgn_if split: if_splits)

lemma compar_pos_iff: "0 < compar a b \<longleftrightarrow> compar b a < 0"
  using compar_antisym [of a b] by (auto simp: sgn_if split: if_splits)

lemma compar_nonneg_iff: "0 \<le> compar a b \<longleftrightarrow> compar b a \<le> 0"
  using compar_pos_iff [of b a] by (auto simp: not_less [symmetric])

lemma compar_zero_sym: "compar a b = 0 \<longleftrightarrow> compar b a = 0"
  using compar_antisym [of a b] by (auto simp: sgn_if split: if_splits)

lemma compar_less_le: "compar a b < 0 \<Longrightarrow> compar b c \<le> 0 \<Longrightarrow> compar a c < 0"
  by (meson compar_nonneg_iff compar_trans not_less)

lemma compar_le_less: "compar a b \<le> 0 \<Longrightarrow> compar b c < 0 \<Longrightarrow> compar a c < 0"
  by (meson compar_nonneg_iff compar_trans not_less)

lemma compar_less_trans: "compar a b < 0 \<Longrightarrow> compar b c < 0 \<Longrightarrow> compar a c < 0"
  by (rule compar_less_le) auto

text \<open>A list the callback calls strictly sorted, as the in-order keys of a search tree.\<close>

abbreviation ordered :: "'a list \<Rightarrow> bool" where
  "ordered xs \<equiv> sorted_wrt (\<lambda>a b. compar a b < 0) xs"

lemma ordered_insert_middle:
  assumes "ordered (xs @ ys)"
    and "\<forall>x \<in> set xs. 0 < compar k x" and "\<forall>y \<in> set ys. compar k y < 0"
  shows "ordered (xs @ k # ys)"
  using assms by (auto simp: sorted_wrt_append compar_pos_iff)

lemma ordered_remove_middle: "ordered (xs @ k # ys) \<Longrightarrow> ordered (xs @ ys)"
  by (auto simp: sorted_wrt_append)

lemma ordered_filter_middle:
  assumes "ordered (xs @ k # ys)" and "compar q k = 0"
  shows "filter (\<lambda>x. compar q x \<noteq> 0) (xs @ k # ys) = xs @ ys"
proof -
  have x: "compar q x \<noteq> 0" if "x \<in> set xs" for x
    using assms that compar_zero_sym [of q x] compar_zero_sym [of q k] compar_less_le [of x k q]
    by (auto simp: sorted_wrt_append)
  have y: "compar q y \<noteq> 0" if "y \<in> set ys" for y
    using assms that compar_le_less [of q k y] by (auto simp: sorted_wrt_append)
  have "filter (\<lambda>x. compar q x \<noteq> 0) xs = xs" "filter (\<lambda>x. compar q x \<noteq> 0) ys = ys"
    using x y by (auto intro: filter_True)
  with assms(2) show ?thesis by simp
qed

end

section \<open>Search tables\<close>

text \<open>
  The contract the keyed containers of \<^verbatim>\<open><search.h>\<close> share: entries are found by a
  comparison callback, at most one entry matches a key, and entering a key that is already there
  keeps the old entry. \<open>room\<close> says that one more entry fits.
\<close>

locale search_table = comparator compar for compar :: "'e \<Rightarrow> 'e \<Rightarrow> int" +
  fixes invar :: "'t \<Rightarrow> bool"
    and room :: "'t \<Rightarrow> bool"
    and elems :: "'t \<Rightarrow> 'e set"
    and lookup :: "'e \<Rightarrow> 't \<Rightarrow> 'e option"
    and enter :: "'e \<Rightarrow> 't \<Rightarrow> 't"
  assumes lookup_Some: "invar t \<Longrightarrow> lookup q t = Some x \<Longrightarrow> x \<in> elems t \<and> compar q x = 0"
    and lookup_None: "invar t \<Longrightarrow> lookup q t = None \<Longrightarrow> x \<in> elems t \<Longrightarrow> compar q x \<noteq> 0"
    and elems_distinct: "invar t \<Longrightarrow> x \<in> elems t \<Longrightarrow> y \<in> elems t \<Longrightarrow> compar x y = 0 \<Longrightarrow> x = y"
    and elems_enter: "invar t \<Longrightarrow> room t \<Longrightarrow>
      elems (enter k t) = (if lookup k t = None then insert k (elems t) else elems t)"
    and invar_enter: "invar t \<Longrightarrow> room t \<Longrightarrow> invar (enter k t)"
begin

lemma lookup_unique:
  assumes "invar t" and "x \<in> elems t" and "compar q x = 0"
  shows "lookup q t = Some x"
proof (cases "lookup q t")
  case None
  with lookup_None [OF assms(1) None assms(2)] assms(3) show ?thesis by simp
next
  case (Some y)
  from lookup_Some [OF assms(1) Some] have y: "y \<in> elems t" "compar q y = 0" by auto
  have "compar y x = 0"
    using y(2) assms(3) compar_trans [of y q x] compar_trans [of x q y] compar_nonneg_iff [of y x]
      compar_zero_sym [of q y] compar_zero_sym [of q x]
    by auto
  with elems_distinct [OF assms(1) y(1) assms(2)] Some show ?thesis by simp
qed

lemma lookup_eq: "invar t \<Longrightarrow> compar p q = 0 \<Longrightarrow> lookup p t = lookup q t"
proof (cases "lookup q t")
  case (Some x)
  assume *: "invar t" "compar p q = 0"
  from lookup_Some [OF *(1) Some] have x: "x \<in> elems t" "compar q x = 0" by auto
  then have "compar p x = 0"
    using *(2) compar_trans [of p q x] compar_trans [of x q p] compar_nonneg_iff [of p x]
      compar_zero_sym [of p q] compar_zero_sym [of q x]
    by auto
  with lookup_unique [OF *(1) x(1)] Some show ?thesis by simp
next
  case None
  assume *: "invar t" "compar p q = 0"
  show ?thesis
  proof (cases "lookup p t")
    case (Some x)
    from lookup_Some [OF *(1) Some] have x: "x \<in> elems t" "compar p x = 0" by auto
    then have "compar q x = 0"
      using *(2) compar_trans [of q p x] compar_trans [of x p q] compar_nonneg_iff [of q x]
        compar_zero_sym [of p q] compar_zero_sym [of p x]
      by auto
    with lookup_None [OF *(1) None x(1)] show ?thesis by simp
  qed (simp add: None)
qed

lemma lookup_enter:
  assumes "invar t" and "room t"
  shows "lookup q (enter k t) =
    (if compar q k = 0 then (case lookup k t of None \<Rightarrow> Some k | Some x \<Rightarrow> Some x) else lookup q t)"
proof -
  have inv: "invar (enter k t)" using assms by (rule invar_enter)
  show ?thesis
  proof (cases "lookup q (enter k t)")
    case (Some x)
    from lookup_Some [OF inv Some] have x: "x \<in> elems (enter k t)" "compar q x = 0" by auto
    then consider "x \<in> elems t" | "x = k" "lookup k t = None"
      using elems_enter [OF assms] by (auto split: if_splits)
    then show ?thesis
    proof cases
      case 1
      then have l: "lookup q t = Some x" using lookup_unique [OF assms(1)] x(2) by blast
      show ?thesis
      proof (cases "compar q k = 0")
        case True
        then have "lookup k t = Some x" using l lookup_eq [OF assms(1) True] by simp
        with True Some show ?thesis by simp
      next
        case False
        with Some l show ?thesis by simp
      qed
    next
      case 2
      with Some x(2) show ?thesis by simp
    qed
  next
    case None
    then have no: "compar q x \<noteq> 0" if "x \<in> elems (enter k t)" for x
      using lookup_None [OF inv] that by blast
    have sub: "elems t \<subseteq> elems (enter k t)" using elems_enter [OF assms, of k] by simp blast
    have qt: "lookup q t = None"
    proof (cases "lookup q t")
      case (Some x)
      with lookup_Some [OF assms(1) Some] no sub show ?thesis by blast
    qed
    moreover have "compar q k \<noteq> 0"
    proof
      assume *: "compar q k = 0"
      then have "lookup k t = None" using lookup_eq [OF assms(1) *] qt by simp
      then have "k \<in> elems (enter k t)" using elems_enter [OF assms, of k] by simp
      with no * show False by blast
    qed
    ultimately show ?thesis using None by simp
  qed
qed

end

text \<open>A table that entries can also be removed from.\<close>

locale deletable_table = search_table compar invar room elems lookup enter
  for compar :: "'e \<Rightarrow> 'e \<Rightarrow> int" and invar :: "'t \<Rightarrow> bool" and room elems lookup enter +
  fixes remove :: "'e \<Rightarrow> 't \<Rightarrow> 't"
  assumes elems_remove: "invar t \<Longrightarrow> elems (remove k t) = {x \<in> elems t. compar k x \<noteq> 0}"
    and invar_remove: "invar t \<Longrightarrow> invar (remove k t)"
begin

lemma lookup_remove:
  assumes "invar t"
  shows "lookup q (remove k t) = (if compar q k = 0 then None else lookup q t)"
proof (cases "lookup q (remove k t)")
  case (Some x)
  from lookup_Some [OF invar_remove [OF assms] Some]
  have x: "x \<in> elems t" "compar q x = 0" "compar k x \<noteq> 0"
    using elems_remove [OF assms] by auto
  then have "compar q k \<noteq> 0"
    using compar_trans [of k q x] compar_trans [of x q k] compar_nonneg_iff [of k x]
      compar_zero_sym [of q k] compar_zero_sym [of q x]
    by auto
  with Some lookup_unique [OF assms x(1,2)] show ?thesis by simp
next
  case None
  then have no: "compar q x \<noteq> 0" if "x \<in> elems t" "compar k x \<noteq> 0" for x
    using lookup_None [OF invar_remove [OF assms]] elems_remove [OF assms] that by blast
  show ?thesis
  proof (cases "lookup q t")
    case (Some x)
    from lookup_Some [OF assms Some] have x: "x \<in> elems t" "compar q x = 0" by auto
    with no have "compar k x = 0" by blast
    then have "compar q k = 0"
      using x(2) compar_trans [of q x k] compar_trans [of k x q] compar_nonneg_iff [of q k]
        compar_zero_sym [of k x] compar_zero_sym [of q x]
      by auto
    with None show ?thesis by simp
  qed (use None in simp)
qed

end

end
