(* ===== verification/TreeSearch.thy ===== *)
theory TreeSearch
  imports Prelude
begin

text \<open>
  The binary search trees of \<^verbatim>\<open><search.h>\<close>: \<open>tsearch()\<close>, \<open>tfind()\<close>, \<open>tdelete()\<close>,
  \<open>twalk()\<close> and \<open>tdestroy()\<close>, with the bit-packed \<open>struct path\<close> that the two iterative AVL
  algorithms record their descent in.

  A tree is a value of type \<open>posix_tnode\<close>. A \<open>posix_tnode **\<close> into the tree (\<open>rootp\<close>,
  \<open>leaf\<close>) is the list of steps from the root to the pointer it points to, \<open>True\<close> for a step to
  \<open>__left\<close>; \<open>tree_at\<close> reads through such a pointer and \<open>tree_set\<close> writes through it. The walks
  that replay the path run over the \<open>nsteps\<close> steps recorded between \<open>rootp\<close> and \<open>leaf\<close>.
\<close>

section \<open>The path structure\<close>

record path =
  steps0 :: u64
  steps1 :: u64
  nsteps :: nat

definition path_init :: "path \<Rightarrow> path" where
  "path_init p = p\<lparr>nsteps := 0\<rparr>"

definition path_taking_left :: "path \<Rightarrow> path" where
  "path_taking_left p =
     (let m = push_bit (nsteps p mod 64) 1;
          q = (if nsteps p div 64 = 0 then p\<lparr>steps0 := steps0 p OR m\<rparr>
               else if nsteps p div 64 = 1 then p\<lparr>steps1 := steps1 p OR m\<rparr>
               else p)
      in q\<lparr>nsteps := nsteps q + 1\<rparr>)"

definition path_taking_right :: "path \<Rightarrow> path" where
  "path_taking_right p =
     (let m = NOT (push_bit (nsteps p mod 64) 1);
          q = (if nsteps p div 64 = 0 then p\<lparr>steps0 := steps0 p AND m\<rparr>
               else if nsteps p div 64 = 1 then p\<lparr>steps1 := steps1 p AND m\<rparr>
               else p)
      in q\<lparr>nsteps := nsteps q + 1\<rparr>)"

definition path_took_left :: "path \<Rightarrow> bool \<times> path" where
  "path_took_left p =
     (steps0 p AND 1 \<noteq> 0,
      p\<lparr>steps0 := drop_bit 1 (steps0 p) OR push_bit 63 (steps1 p),
        steps1 := drop_bit 1 (steps1 p)\<rparr>)"

section \<open>Trees\<close>

datatype 'k posix_tnode =
    NULL
  | Node (tkey: 'k) (tleft: "'k posix_tnode") (tright: "'k posix_tnode") (balance: int)

text \<open>
  Reads and writes through a pointer to a tree pointer, given as the steps that lead to it. A
  pointer that leads below a null pointer is never formed by the code.
\<close>

fun tree_at :: "'k posix_tnode \<Rightarrow> bool list \<Rightarrow> 'k posix_tnode" where
  "tree_at t [] = t"
| "tree_at NULL (d # ds) = NULL"
| "tree_at (Node k l r b) (d # ds) = (if d then tree_at l ds else tree_at r ds)"

fun tree_set :: "'k posix_tnode \<Rightarrow> bool list \<Rightarrow> 'k posix_tnode \<Rightarrow> 'k posix_tnode" where
  "tree_set t [] s = s"
| "tree_set NULL (d # ds) s = NULL"
| "tree_set (Node k l r b) (d # ds) s =
     (if d then Node k (tree_set l ds s) r b else Node k l (tree_set r ds s) b)"

text \<open>The assignment \<open>*keyp = key\<close> to the key of the node at a position.\<close>

fun set_key :: "'k posix_tnode \<Rightarrow> bool list \<Rightarrow> 'k \<Rightarrow> 'k posix_tnode" where
  "set_key NULL ds k' = NULL"
| "set_key (Node k l r b) [] k' = Node k' l r b"
| "set_key (Node k l r b) (d # ds) k' =
     (if d then Node k (set_key l ds k') r b else Node k l (set_key r ds k') b)"

section \<open>Insertion\<close>

text \<open>
  The descent of \<open>tsearch()\<close>: \<open>Inl\<close> of the node found, or \<open>Inr\<close> of the null pointer where
  the key belongs, the pointer \<open>rootp\<close> below which the balances change, and the path between the
  two.
\<close>

fun tsearch_descend ::
    "('k \<Rightarrow> 'k \<Rightarrow> int) \<Rightarrow> 'k \<Rightarrow> 'k posix_tnode \<Rightarrow> bool list \<Rightarrow> bool list \<Rightarrow> path
      \<Rightarrow> bool list + bool list \<times> bool list \<times> path" where
  "tsearch_descend compar key NULL leaf rootp path = Inr (leaf, rootp, path)"
| "tsearch_descend compar key (Node k l r b) leaf rootp path =
     (let rootp = (if b \<noteq> 0 then leaf else rootp);
          path = (if b \<noteq> 0 then path_init path else path);
          cmp = compar key k
      in if cmp < 0 then
           tsearch_descend compar key l (leaf @ [True]) rootp (path_taking_left path)
         else if cmp > 0 then
           tsearch_descend compar key r (leaf @ [False]) rootp (path_taking_right path)
         else Inl leaf)"

text \<open>The walk from \<open>*rootp\<close> to the new leaf that adjusts the balances.\<close>

fun tsearch_adjust :: "nat \<Rightarrow> path \<Rightarrow> 'k posix_tnode \<Rightarrow> 'k posix_tnode" where
  "tsearch_adjust 0 path t = t"
| "tsearch_adjust (Suc n) path NULL = NULL"
| "tsearch_adjust (Suc n) path (Node k l r b) =
     (let (took_left, path') = path_took_left path
      in if took_left then Node k (tsearch_adjust n path' l) r (b + 1)
         else Node k l (tsearch_adjust n path' r) (b - 1))"

text \<open>The two double rotations, which \<open>tsearch()\<close> and \<open>tdelete()\<close> share.\<close>

fun rotate_left_right :: "'k posix_tnode \<Rightarrow> 'k posix_tnode" where
  "rotate_left_right (Node x (Node y A (Node z B C bz) bby) D bx) =
     Node z (Node y A B (if bz < 0 then 1 else 0)) (Node x C D (if bz > 0 then -1 else 0)) 0"
| "rotate_left_right t = t"

fun rotate_right_left :: "'k posix_tnode \<Rightarrow> 'k posix_tnode" where
  "rotate_right_left (Node x A (Node y (Node z B C bz) D bby) bx) =
     Node z (Node x A B (if bz < 0 then 1 else 0)) (Node y C D (if bz > 0 then -1 else 0)) 0"
| "rotate_right_left t = t"

text \<open>The final rotation at \<open>*rootp\<close> of \<open>tsearch()\<close>.\<close>

fun tsearch_rotate :: "'k posix_tnode \<Rightarrow> 'k posix_tnode" where
  "tsearch_rotate NULL = NULL"
| "tsearch_rotate (Node x l r bx) =
     (if bx > 1 then
        (case l of
           NULL \<Rightarrow> Node x l r bx
         | Node y A B bby \<Rightarrow>
             if bby < 0 then rotate_left_right (Node x l r bx)
             else Node y A (Node x B r 0) 0)
      else if bx < -1 then
        (case r of
           NULL \<Rightarrow> Node x l r bx
         | Node y B C bby \<Rightarrow>
             if bby > 0 then rotate_right_left (Node x l r bx)
             else Node y (Node x l B 0) C 0)
      else Node x l r bx)"

text \<open>
  \<open>tsearch()\<close>. \<open>rootp\<close> is \<open>None\<close> for a null pointer, \<open>malloc_ok\<close> says whether the allocation
  of the node succeeds, and \<open>path\<close> is the uninitialised automatic variable. The result is the key
  of the node returned (\<open>None\<close> for a null pointer) and the tree afterwards.
\<close>

definition tsearch ::
    "('k \<Rightarrow> 'k \<Rightarrow> int) \<Rightarrow> bool \<Rightarrow> path \<Rightarrow> 'k \<Rightarrow> 'k posix_tnode option
      \<Rightarrow> 'k option \<times> 'k posix_tnode option" where
  "tsearch compar malloc_ok path key rootp =
     (case rootp of
        None \<Rightarrow> (None, None)
      | Some t \<Rightarrow>
          (case tsearch_descend compar key t [] [] (path_init path) of
             Inl leaf \<Rightarrow> (Some (tkey (tree_at t leaf)), Some t)
           | Inr (leaf, rootp, path) \<Rightarrow>
               if \<not> malloc_ok then (None, Some t)
               else
                 let t = tree_set t leaf (Node key NULL NULL 0);
                     t = tree_set t rootp (tsearch_adjust (nsteps path) path (tree_at t rootp));
                     t = tree_set t rootp (tsearch_rotate (tree_at t rootp))
                 in (Some key, Some t)))"

section \<open>Deletion\<close>

text \<open>
  The tests of the macros \<open>GO_LEFT()\<close> and \<open>GO_RIGHT()\<close> that make the current node the new
  \<open>rootp\<close>: the node is balanced, or it leans away from the step and its other child is balanced.
\<close>

fun go_left_resets :: "'k posix_tnode \<Rightarrow> bool" where
  "go_left_resets NULL = False"
| "go_left_resets (Node k l r b) =
     (b = 0 \<or> b < 0 \<and> (case r of NULL \<Rightarrow> False | Node ry A B bby \<Rightarrow> bby = 0))"

fun go_right_resets :: "'k posix_tnode \<Rightarrow> bool" where
  "go_right_resets NULL = False"
| "go_right_resets (Node k l r b) =
     (b = 0 \<or> b > 0 \<and> (case l of NULL \<Rightarrow> False | Node ly A B bby \<Rightarrow> bby = 0))"

text \<open>The macros: the new \<open>leaf\<close>, \<open>rootp\<close> and \<open>path\<close> after a step from the node \<open>*leaf\<close>.\<close>

definition GO_LEFT ::
    "'k posix_tnode \<Rightarrow> bool list \<Rightarrow> bool list \<Rightarrow> path \<Rightarrow> bool list \<times> bool list \<times> path" where
  "GO_LEFT n leaf rootp path =
     (let reset = go_left_resets n;
          rootp = (if reset then leaf else rootp);
          path = (if reset then path_init path else path)
      in (leaf @ [True], rootp, path_taking_left path))"

definition GO_RIGHT ::
    "'k posix_tnode \<Rightarrow> bool list \<Rightarrow> bool list \<Rightarrow> path \<Rightarrow> bool list \<times> bool list \<times> path" where
  "GO_RIGHT n leaf rootp path =
     (let reset = go_right_resets n;
          rootp = (if reset then leaf else rootp);
          path = (if reset then path_init path else path)
      in (leaf @ [False], rootp, path_taking_right path))"

text \<open>
  What \<open>tdelete()\<close> returns: a null pointer, the invalid pointer \<open>(posix_tnode *)1\<close> for a deleted
  root, or the parent of the node found, given by its key.
\<close>

datatype 'k tdelete_result = Ret_NULL | Ret_1 | Ret_node 'k

fun tdelete_descend ::
    "('k \<Rightarrow> 'k \<Rightarrow> int) \<Rightarrow> 'k \<Rightarrow> 'k posix_tnode \<Rightarrow> bool list \<Rightarrow> bool list \<Rightarrow> path
      \<Rightarrow> 'k tdelete_result \<Rightarrow> (bool list \<times> bool list \<times> path \<times> 'k tdelete_result) option" where
  "tdelete_descend compar key NULL leaf rootp path result = None"
| "tdelete_descend compar key (Node k l r b) leaf rootp path result =
     (let cmp = compar key k
      in if cmp < 0 then
           (let (leaf, rootp, path) = GO_LEFT (Node k l r b) leaf rootp path
            in tdelete_descend compar key l leaf rootp path (Ret_node k))
         else if cmp > 0 then
           (let (leaf, rootp, path) = GO_RIGHT (Node k l r b) leaf rootp path
            in tdelete_descend compar key r leaf rootp path (Ret_node k))
         else Some (leaf, rootp, path, result))"

text \<open>The loop \<open>while ((*leaf)->__right != NULL) GO_RIGHT();\<close> to the predecessor.\<close>

fun tdelete_predecessor ::
    "'k posix_tnode \<Rightarrow> bool list \<Rightarrow> bool list \<Rightarrow> path \<Rightarrow> bool list \<times> bool list \<times> path" where
  "tdelete_predecessor NULL leaf rootp path = (leaf, rootp, path)"
| "tdelete_predecessor (Node k l r b) leaf rootp path =
     (if r = NULL then (leaf, rootp, path)
      else
        let (leaf, rootp, path) = GO_RIGHT (Node k l r b) leaf rootp path
        in tdelete_predecessor r leaf rootp path)"

text \<open>
  The walk from \<open>rootp\<close> to \<open>leaf\<close> that adjusts the balances and rotates. After a rotation the
  walk goes on below the node \<open>x\<close>, wherever it has moved to.
\<close>

fun tdelete_adjust :: "nat \<Rightarrow> path \<Rightarrow> 'k posix_tnode \<Rightarrow> 'k posix_tnode" where
  "tdelete_adjust 0 path t = t"
| "tdelete_adjust (Suc n) path NULL = NULL"
| "tdelete_adjust (Suc n) path (Node x l r bx) =
     (let (took_left, path') = path_took_left path
      in if took_left then
           (let l' = tdelete_adjust n path' l
            in if bx < 0 then
                 (case r of
                    NULL \<Rightarrow> Node x l' r bx
                  | Node y B C bby \<Rightarrow>
                      if bby > 0 then rotate_right_left (Node x l' r bx)
                      else if bby < 0 then Node y (Node x l' B 0) C 0
                      else Node y (Node x l' B (-1)) C 1)
               else Node x l' r (bx - 1))
         else
           (let r' = tdelete_adjust n path' r
            in if bx > 0 then
                 (case l of
                    NULL \<Rightarrow> Node x l r' bx
                  | Node y A B bby \<Rightarrow>
                      if bby < 0 then rotate_left_right (Node x l r' bx)
                      else if bby > 0 then Node y A (Node x B r' 0) 0
                      else Node y A (Node x B r' 1) (-1))
               else Node x l r' (bx + 1)))"

text \<open>
  \<open>tdelete()\<close>, with \<open>rootp\<close> and \<open>path\<close> as for \<open>tsearch\<close>: the pointer returned and the tree
  afterwards.
\<close>

definition tdelete ::
    "('k \<Rightarrow> 'k \<Rightarrow> int) \<Rightarrow> path \<Rightarrow> 'k \<Rightarrow> 'k posix_tnode option
      \<Rightarrow> 'k tdelete_result \<times> 'k posix_tnode option" where
  "tdelete compar path key rootp =
     (case rootp of
        None \<Rightarrow> (Ret_NULL, None)
      | Some t \<Rightarrow>
          (case tdelete_descend compar key t [] [] (path_init path) Ret_1 of
             None \<Rightarrow> (Ret_NULL, Some t)
           | Some (leaf, rootp, path, result) \<Rightarrow>
               let n = tree_at t leaf;
                   (t, rootp, path) =
                     (if tleft n = NULL then (tree_set t leaf (tright n), rootp, path)
                      else
                        let keyp = leaf;
                            (leaf, rootp, path) = GO_LEFT n leaf rootp path;
                            (leaf, rootp, path) = tdelete_predecessor (tleft n) leaf rootp path;
                            old = tree_at t leaf
                        in (tree_set (set_key t keyp (tkey old)) leaf (tleft old), rootp, path))
               in (result,
                   Some (tree_set t rootp (tdelete_adjust (nsteps path) path (tree_at t rootp))))))"

section \<open>Lookup and traversal\<close>

fun tfind_loop :: "('k \<Rightarrow> 'k \<Rightarrow> int) \<Rightarrow> 'k \<Rightarrow> 'k posix_tnode \<Rightarrow> 'k option" where
  "tfind_loop compar key NULL = None"
| "tfind_loop compar key (Node k l r b) =
     (let cmp = compar key k
      in if cmp < 0 then tfind_loop compar key l
         else if cmp > 0 then tfind_loop compar key r
         else Some k)"

definition tfind :: "('k \<Rightarrow> 'k \<Rightarrow> int) \<Rightarrow> 'k \<Rightarrow> 'k posix_tnode option \<Rightarrow> 'k option" where
  "tfind compar key rootp =
     (case rootp of None \<Rightarrow> None | Some root \<Rightarrow> tfind_loop compar key root)"

datatype visit = preorder | postorder | endorder | leaf

text \<open>The calls \<open>action(node, visit, level)\<close> of \<open>twalk()\<close>, in order.\<close>

fun twalk_recurse :: "'k posix_tnode \<Rightarrow> nat \<Rightarrow> ('k \<times> visit \<times> nat) list" where
  "twalk_recurse NULL level = []"
| "twalk_recurse (Node k l r b) level =
     (if l = NULL \<and> r = NULL then [(k, leaf, level)]
      else (k, preorder, level) # twalk_recurse l (level + 1)
           @ (k, postorder, level) # twalk_recurse r (level + 1)
           @ [(k, endorder, level)])"

definition twalk :: "'k posix_tnode \<Rightarrow> ('k \<times> visit \<times> nat) list" where
  "twalk root = twalk_recurse root 0"

text \<open>The destructor calls of \<open>tdestroy()\<close>, in order.\<close>

fun tdestroy :: "'k posix_tnode \<Rightarrow> 'k list" where
  "tdestroy NULL = []"
| "tdestroy (Node k l r b) = tdestroy l @ [k] @ tdestroy r"

section \<open>The path as a list of steps\<close>

definition path_bit :: "path \<Rightarrow> nat \<Rightarrow> bool" where
  "path_bit p i = bit (if i < 64 then steps0 p else steps1 p) (i mod 64)"

definition path_holds :: "path \<Rightarrow> bool list \<Rightarrow> bool" where
  "path_holds p ds \<longleftrightarrow> length ds \<le> 128 \<and> (\<forall>i < length ds. path_bit p i = ds ! i)"

definition path_rep :: "path \<Rightarrow> bool list \<Rightarrow> bool" where
  "path_rep p ds \<longleftrightarrow> nsteps p = length ds \<and> path_holds p ds"

definition path_taking :: "bool \<Rightarrow> path \<Rightarrow> path" where
  "path_taking d = (if d then path_taking_left else path_taking_right)"

lemma path_rep_init [simp]: "path_rep (path_init p) []"
  by (simp add: path_rep_def path_holds_def path_init_def)

lemma path_rep_nsteps: "path_rep p ds \<Longrightarrow> nsteps p = length ds"
  by (simp add: path_rep_def)

lemma nsteps_path_taking [simp]: "nsteps (path_taking d p) = Suc (nsteps p)"
  by (simp add: path_taking_def path_taking_left_def path_taking_right_def Let_def)

lemma bit_set_step: "i < 64 \<Longrightarrow> j < 64 \<Longrightarrow> bit (w OR 2 ^ j :: u64) i \<longleftrightarrow> i = j \<or> bit w i"
  by (auto simp: bit_simps)

lemma bit_clear_step: "i < 64 \<Longrightarrow> j < 64 \<Longrightarrow> bit (w AND NOT (2 ^ j) :: u64) i \<longleftrightarrow> i \<noteq> j \<and> bit w i"
  by (auto simp: bit_simps)

lemma path_bit_taking:
  assumes "i \<le> nsteps p" and "nsteps p < 128"
  shows "path_bit (path_taking d p) i = (if i = nsteps p then d else path_bit p i)"
proof (cases "i div 64 = nsteps p div 64")
  case True
  then have eq: "i mod 64 = nsteps p mod 64 \<longleftrightarrow> i = nsteps p"
    by (metis div_mult_mod_eq)
  have "nsteps p div 64 = 0 \<or> nsteps p div 64 = 1" "i < 64 \<longleftrightarrow> nsteps p div 64 = 0"
    using True assms by linarith+
  with eq show ?thesis
    by (auto simp: path_taking_def path_taking_left_def path_taking_right_def Let_def
        path_bit_def bit_set_step bit_clear_step)
next
  case False
  moreover have "i div 64 \<le> nsteps p div 64" "nsteps p div 64 < 2"
    using assms by (auto intro: div_le_mono)
  ultimately have "nsteps p div 64 = 1" "i < 64" "i \<noteq> nsteps p" by auto
  then show ?thesis
    by (simp add: path_taking_def path_taking_left_def path_taking_right_def Let_def path_bit_def)
qed

lemma path_rep_taking:
  assumes "path_rep p ds" and "length ds < 128"
  shows "path_rep (path_taking d p) (ds @ [d])"
  using assms path_bit_taking [of _ p d]
  by (auto simp: path_rep_def path_holds_def nth_append less_Suc_eq)

lemma bit_shift_low: "i < 63 \<Longrightarrow> bit (drop_bit (Suc 0) w0 OR push_bit 63 w1 :: u64) i = bit w0 (Suc i)"
  by (simp add: bit_or_iff bit_drop_bit_eq bit_push_bit_iff)

lemma bit_shift_63: "bit (drop_bit (Suc 0) w0 OR push_bit 63 w1 :: u64) 63 = bit w1 0"
  using bit_imp_le_length [of w0 64] by (auto simp: bit_or_iff bit_drop_bit_eq bit_push_bit_iff)

lemma path_bit_took:
  assumes "i < 127"
  shows "path_bit (snd (path_took_left p)) i = path_bit p (Suc i)"
proof -
  consider "i < 63" | "i = 63" | "64 \<le> i" by linarith
  then show ?thesis
  proof cases
    case 1
    then show ?thesis by (simp add: path_bit_def path_took_left_def bit_shift_low)
  next
    case 2
    then show ?thesis by (simp add: path_bit_def path_took_left_def bit_shift_63)
  next
    case 3
    then obtain j where j: "i = 64 + j" using le_Suc_ex by blast
    with assms have "j < 63" by simp
    then have "(64 + j) mod 64 = j" "Suc (64 + j) mod 64 = Suc j"
      using mod_add_self1 [of 64 j] mod_add_self1 [of 64 "Suc j"] by simp_all
    with j show ?thesis by (simp add: path_bit_def path_took_left_def bit_drop_bit_eq)
  qed
qed

lemma path_took_left_Cons:
  assumes "path_holds p (d # ds)"
  obtains p' where "path_took_left p = (d, p')" and "path_holds p' ds"
proof -
  have len: "length ds < 128" and bits: "\<And>i. i \<le> length ds \<Longrightarrow> path_bit p i = (d # ds) ! i"
    using assms by (simp_all add: path_holds_def less_Suc_eq_le)
  have "(steps0 p AND 1 \<noteq> 0) = d"
    using bits [of 0] by (simp add: path_bit_def and_one_eq odd_iff_mod_2_eq_one [symmetric] bit_0)
  then have "path_took_left p = (d, snd (path_took_left p))"
    by (simp add: path_took_left_def)
  moreover have "path_holds (snd (path_took_left p)) ds"
    unfolding path_holds_def
  proof (intro conjI allI impI)
    fix i assume i: "i < length ds"
    then have "path_bit (snd (path_took_left p)) i = path_bit p (Suc i)"
      using len by (intro path_bit_took) simp
    then show "path_bit (snd (path_took_left p)) i = ds ! i"
      using bits [of "Suc i"] i by simp
  qed (use len in simp)
  ultimately show thesis by (rule that)
qed

section \<open>The tree invariants\<close>

fun height :: "'k posix_tnode \<Rightarrow> nat" where
  "height NULL = 0"
| "height (Node k l r b) = max (height l) (height r) + 1"

fun avl :: "'k posix_tnode \<Rightarrow> bool" where
  "avl NULL = True"
| "avl (Node k l r b) =
     (b = int (height l) - int (height r) \<and> \<bar>b\<bar> \<le> 1 \<and> avl l \<and> avl r)"

abbreviation inorder :: "'k posix_tnode \<Rightarrow> 'k list" where
  "inorder \<equiv> tdestroy"

lemma height_0_iff [simp]: "height t = 0 \<longleftrightarrow> t = NULL"
  by (cases t) auto

fun valid_pos :: "'k posix_tnode \<Rightarrow> bool list \<Rightarrow> bool" where
  "valid_pos t [] = True"
| "valid_pos NULL (d # ds) = False"
| "valid_pos (Node k l r b) (d # ds) = valid_pos (if d then l else r) ds"

lemma valid_pos_length: "valid_pos t ds \<Longrightarrow> length ds \<le> height t"
  by (induction t ds rule: valid_pos.induct) (auto split: if_splits)

lemma tree_at_append: "tree_at t (ds @ es) = tree_at (tree_at t ds) es"
proof (induction t ds rule: tree_at.induct)
  case (2 d ds)
  then show ?case by (cases es) auto
qed auto

lemma tree_set_append: "valid_pos t ds \<Longrightarrow>
    tree_set t (ds @ es) s = tree_set t ds (tree_set (tree_at t ds) es s)"
  by (induction t ds rule: valid_pos.induct) auto

lemma tree_at_set [simp]: "valid_pos t ds \<Longrightarrow> tree_at (tree_set t ds s) ds = s"
  by (induction t ds rule: valid_pos.induct) auto

lemma tree_set_set [simp]: "tree_set (tree_set t ds s) ds s' = tree_set t ds s'"
  by (induction t ds s rule: tree_set.induct) auto

lemma inorder_context:
  assumes "valid_pos t ds"
  obtains xs ys where "\<And>s. inorder (tree_set t ds s) = xs @ inorder s @ ys"
  using assms
proof (induction t ds arbitrary: thesis rule: valid_pos.induct)
  case (1 t)
  show ?case by (rule "1.prems"(1) [of "[]" "[]"]) simp
next
  case (3 k l r b d ds)
  obtain xs ys where *: "\<And>s. inorder (tree_set (if d then l else r) ds s) = xs @ inorder s @ ys"
    using "3.IH" "3.prems"(2) by auto
  show ?case
  proof (cases d)
    case True
    show ?thesis by (rule "3.prems"(1) [of xs "ys @ k # inorder r"]) (use * True in auto)
  next
    case False
    show ?thesis by (rule "3.prems"(1) [of "inorder l @ k # xs" ys]) (use * False in auto)
  qed
qed simp

lemma tree_set_at [simp]: "tree_set t ds (tree_at t ds) = t"
  by (induction t ds rule: tree_at.induct) auto

text \<open>
  The last node on a descent that a test \<open>P\<close> (which may look at the direction taken) selects:
  the steps before it and the steps from it on.
\<close>

fun last_reset ::
    "('k posix_tnode \<Rightarrow> bool \<Rightarrow> bool) \<Rightarrow> 'k posix_tnode \<Rightarrow> bool list \<Rightarrow> (bool list \<times> bool list) option"
  where
  "last_reset P t [] = None"
| "last_reset P NULL (d # ds) = None"
| "last_reset P (Node k l r b) (d # ds) =
     (case last_reset P (if d then l else r) ds of
        Some (ps, ss) \<Rightarrow> Some (d # ps, ss)
      | None \<Rightarrow> if P (Node k l r b) d then Some ([], d # ds) else None)"

lemma last_reset_append: "last_reset P t ds = Some (ps, ss) \<Longrightarrow> ds = ps @ ss"
  by (induction P t ds arbitrary: ps rule: last_reset.induct) (auto split: option.splits if_splits)

section \<open>Correctness of insertion\<close>

definition ins_reset :: "'k posix_tnode \<Rightarrow> bool \<Rightarrow> bool" where
  "ins_reset t d \<longleftrightarrow> balance t \<noteq> 0"

lemma ins_reset_Node [simp]: "ins_reset (Node k l r b) d \<longleftrightarrow> b \<noteq> 0"
  by (simp add: ins_reset_def)

fun search_steps :: "('k \<Rightarrow> 'k \<Rightarrow> int) \<Rightarrow> 'k \<Rightarrow> 'k posix_tnode \<Rightarrow> bool list" where
  "search_steps compar key NULL = []"
| "search_steps compar key (Node k l r b) =
     (if compar key k < 0 then True # search_steps compar key l
      else if compar key k > 0 then False # search_steps compar key r
      else [])"

lemma valid_search_steps [simp]: "valid_pos t (search_steps compar key t)"
  by (induction t) auto

lemma tfind_loop_eq:
  "tfind_loop compar key t =
     (case tree_at t (search_steps compar key t) of NULL \<Rightarrow> None | Node k l r b \<Rightarrow> Some k)"
  by (induction t) (auto simp: Let_def)

definition reset_rootp :: "bool list \<Rightarrow> bool list \<Rightarrow> (bool list \<times> bool list) option \<Rightarrow> bool list"
  where
  "reset_rootp lp rootp rs = (case rs of None \<Rightarrow> rootp | Some (ps, ss) \<Rightarrow> lp @ ps)"

definition reset_steps :: "bool list \<Rightarrow> bool list \<Rightarrow> (bool list \<times> bool list) option \<Rightarrow> bool list"
  where
  "reset_steps ds es rs = (case rs of None \<Rightarrow> ds @ es | Some (ps, ss) \<Rightarrow> ss)"

lemma reset_Node:
  fixes l r :: "'k posix_tnode"
  assumes "n = Node k l r b" and "rs = last_reset P (if d then l else r) es"
  shows "reset_rootp lp rootp (last_reset P n (d # es)) =
           reset_rootp (lp @ [d]) (if P n d then lp else rootp) rs"
    and "reset_steps ds (d # es) (last_reset P n (d # es)) =
           reset_steps ((if P n d then [] else ds) @ [d]) es rs"
  using assms by (auto simp: reset_rootp_def reset_steps_def split: option.splits)

lemma path_rep_reset:
  assumes "path_rep p ds" and "length ds < 128"
  shows "path_rep (path_taking d (if c then path_init p else p)) ((if c then [] else ds) @ [d])"
  using assms path_rep_taking [of "path_init p" "[]" d] path_rep_taking [of p ds d]
  by (cases c) simp_all

lemma tsearch_descend_NULL:
  assumes "tree_at t (search_steps compar key t) = NULL"
    and "path_rep path ds" and "length ds + height t \<le> 128"
  shows "\<exists>path'.
    tsearch_descend compar key t lp rootp path =
      Inr (lp @ search_steps compar key t,
           reset_rootp lp rootp (last_reset ins_reset t (search_steps compar key t)), path') \<and>
    path_rep path'
      (reset_steps ds (search_steps compar key t)
         (last_reset ins_reset t (search_steps compar key t)))"
  using assms
proof (induction t arbitrary: lp rootp path ds)
  case NULL
  then show ?case by (simp add: reset_rootp_def reset_steps_def)
next
  case (Node k l r b)
  define d where "d \<longleftrightarrow> compar key k < 0"
  let ?c = "if d then l else r" and ?ds = "(if b \<noteq> 0 then [] else ds) @ [d]"
  have ne: "compar key k \<noteq> 0" using Node.prems(1) by (auto split: if_splits)
  have es: "search_steps compar key (Node k l r b) = d # search_steps compar key ?c"
    using ne by (auto simp: d_def)
  have at: "tree_at ?c (search_steps compar key ?c) = NULL"
    using Node.prems(1) unfolding es by auto
  have rep: "path_rep (path_taking d (if b \<noteq> 0 then path_init path else path)) ?ds"
    using Node.prems by (intro path_rep_reset) auto
  have len: "length ?ds + height ?c \<le> 128" using Node.prems(3) by auto
  have unfold: "tsearch_descend compar key (Node k l r b) lp rootp path =
      tsearch_descend compar key ?c (lp @ [d]) (if b \<noteq> 0 then lp else rootp)
        (path_taking d (if b \<noteq> 0 then path_init path else path))"
    using ne by (auto simp: d_def Let_def path_taking_def)
  obtain path' where IH: "tsearch_descend compar key ?c (lp @ [d]) (if b \<noteq> 0 then lp else rootp)
        (path_taking d (if b \<noteq> 0 then path_init path else path)) =
      Inr ((lp @ [d]) @ search_steps compar key ?c,
           reset_rootp (lp @ [d]) (if b \<noteq> 0 then lp else rootp)
             (last_reset ins_reset ?c (search_steps compar key ?c)), path')"
    "path_rep path' (reset_steps ?ds (search_steps compar key ?c)
         (last_reset ins_reset ?c (search_steps compar key ?c)))"
  proof (cases d)
    case True
    with Node.IH(1) [OF _ rep, where lp = "lp @ [d]" and rootp = "if b \<noteq> 0 then lp else rootp"]
      at len that show thesis by auto
  next
    case False
    with Node.IH(2) [OF _ rep, where lp = "lp @ [d]" and rootp = "if b \<noteq> 0 then lp else rootp"]
      at len that show thesis by auto
  qed
  from IH show ?case
    unfolding unfold es reset_Node [OF refl refl] by (intro exI [of _ path']) simp
qed

lemma tsearch_descend_Node:
  assumes "tree_at t (search_steps compar key t) \<noteq> NULL"
  shows "tsearch_descend compar key t lp rootp path = Inl (lp @ search_steps compar key t)"
  using assms by (induction t arbitrary: lp rootp path) (auto simp: Let_def)

fun ins_adjust :: "bool list \<Rightarrow> 'k posix_tnode \<Rightarrow> 'k posix_tnode" where
  "ins_adjust [] t = t"
| "ins_adjust (d # ds) NULL = NULL"
| "ins_adjust (d # ds) (Node k l r b) =
     (if d then Node k (ins_adjust ds l) r (b + 1) else Node k l (ins_adjust ds r) (b - 1))"

lemma tsearch_adjust_eq:
  fixes t :: "'k posix_tnode"
  shows "path_holds p ds \<Longrightarrow> tsearch_adjust (length ds) p t = ins_adjust ds t"
proof (induction ds arbitrary: p t)
  case Nil
  then show ?case by simp
next
  case (Cons d ds)
  obtain p' where p': "path_took_left p = (d, p')" "path_holds p' ds"
    using Cons.prems by (rule path_took_left_Cons)
  have "tsearch_adjust (length ds) p' s = ins_adjust ds s" for s :: "'k posix_tnode"
    using p'(2) by (rule Cons.IH)
  with p'(1) show ?case by (cases t) simp_all
qed

lemma ins_adjust_zero:
  assumes "avl t" and "valid_pos t ds" and "tree_at t ds = NULL" and "last_reset ins_reset t ds = None"
  shows "avl (ins_adjust ds (tree_set t ds (Node key NULL NULL 0))) \<and>
    height (ins_adjust ds (tree_set t ds (Node key NULL NULL 0))) = height t + 1 \<and>
    balance (ins_adjust ds (tree_set t ds (Node key NULL NULL 0))) =
      (case ds of [] \<Rightarrow> 0 | d # _ \<Rightarrow> if d then 1 else -1)"
  using assms
proof (induction t ds rule: valid_pos.induct)
  case (3 k l r b d ds)
  have a: "last_reset ins_reset (if d then l else r) ds = None" "b = 0"
    using "3.prems"(4) by (auto split: option.splits if_splits)
  have h: "height l = height r" using a "3.prems"(1) by simp
  have "avl (if d then l else r)" "valid_pos (if d then l else r) ds"
    "tree_at (if d then l else r) ds = NULL"
    using "3.prems"(1-3) by auto
  note IH = "3.IH" [OF this a(1)]
  show ?case
  proof (cases d)
    case True
    then show ?thesis using IH h a(2) "3.prems"(1) by simp
  next
    case False
    then show ?thesis using IH h a(2) "3.prems"(1) by simp
  qed
qed simp_all

definition ins_result :: "'k posix_tnode \<Rightarrow> bool list \<Rightarrow> 'k posix_tnode \<Rightarrow> 'k posix_tnode" where
  "ins_result t ds s =
     (case last_reset ins_reset t ds of
        None \<Rightarrow> tsearch_rotate (ins_adjust ds (tree_set t ds s))
      | Some (ps, ss) \<Rightarrow>
          tree_set (tree_set t ds s) ps (tsearch_rotate (ins_adjust ss (tree_at (tree_set t ds s) ps))))"

lemma ins_result_Node:
  assumes "last_reset ins_reset (if d then l else r) ds = Some (ps, ss)"
  shows "ins_result (Node k l r b) (d # ds) s =
           (if d then Node k (ins_result l ds s) r b else Node k l (ins_result r ds s) b)"
  using assms by (cases d) (simp_all add: ins_result_def)


lemma inorder_rotate_left_right [simp]: "inorder (rotate_left_right t) = inorder t"
  by (induction t rule: rotate_left_right.induct) auto

lemma inorder_rotate_right_left [simp]: "inorder (rotate_right_left t) = inorder t"
  by (induction t rule: rotate_right_left.induct) auto

lemma inorder_tsearch_rotate [simp]: "inorder (tsearch_rotate t) = inorder t"
  by (cases t) (auto split: posix_tnode.splits simp del: rotate_left_right.simps rotate_right_left.simps)

lemma inorder_ins_adjust [simp]: "inorder (ins_adjust ds t) = inorder t"
  by (induction ds t rule: ins_adjust.induct) auto

lemma valid_pos_prefix: "valid_pos t (ps @ ss) \<Longrightarrow> valid_pos t ps"
  by (induction t ps rule: valid_pos.induct) auto

lemma valid_pos_tree_set: "valid_pos t (ps @ ss) \<Longrightarrow> valid_pos (tree_set t (ps @ ss) s) ps"
  by (induction t ps rule: valid_pos.induct) auto

lemma inorder_tree_set_cong:
  assumes "valid_pos t ps" and "inorder s = inorder (tree_at t ps)"
  shows "inorder (tree_set t ps s) = inorder t"
proof -
  obtain xs ys where *: "\<And>s. inorder (tree_set t ps s) = xs @ inorder s @ ys"
    using inorder_context [OF assms(1)] by metis
  have "inorder t = xs @ inorder (tree_at t ps) @ ys"
    using * [of "tree_at t ps"] by simp
  with * [of s] assms(2) show ?thesis by simp
qed

lemma inorder_ins_result:
  assumes "valid_pos t ds"
  shows "inorder (ins_result t ds s) = inorder (tree_set t ds s)"
proof (cases "last_reset ins_reset t ds")
  case None
  then show ?thesis by (simp add: ins_result_def)
next
  case (Some p)
  obtain ps ss where p: "p = (ps, ss)" by (cases p)
  have "valid_pos (tree_set t ds s) ps"
    using assms Some p last_reset_append valid_pos_tree_set by fastforce
  then show ?thesis
    using Some p by (simp add: ins_result_def inorder_tree_set_cong)
qed

lemma avl_NodeD:
  assumes "avl (Node k l r b)"
  obtains "b = 1" "height l = height r + 1" | "b = 0" "height l = height r"
  | "b = -1" "height r = height l + 1"
proof -
  have "b = int (height l) - int (height r)" "-1 \<le> b" "b \<le> 1" using assms by auto
  then have "b = 1 \<and> height l = height r + 1 \<or> b = 0 \<and> height l = height r \<or>
    b = -1 \<and> height r = height l + 1" by linarith
  with that show thesis by blast
qed

lemma avl_left_right_case:
  assumes "avl (Node y A (Node z B C bz) (-1))" and "avl D" and "height A = height D"
  shows "avl (rotate_left_right (Node x (Node y A (Node z B C bz) (-1)) D bx))"
    and "height (rotate_left_right (Node x (Node y A (Node z B C bz) (-1)) D bx)) = height A + 2"
proof -
  have z: "avl (Node z B C bz)" and yA: "avl A" "height (Node z B C bz) = height A + 1"
    using assms(1) by auto
  show "avl (rotate_left_right (Node x (Node y A (Node z B C bz) (-1)) D bx))"
    using z by (rule avl_NodeD) (use z yA assms(2,3) in simp_all)
  show "height (rotate_left_right (Node x (Node y A (Node z B C bz) (-1)) D bx)) = height A + 2"
    using z by (rule avl_NodeD) (use z yA assms(2,3) in simp_all)
qed

lemma avl_right_left_case:
  assumes "avl (Node y (Node z B C bz) D 1)" and "avl A" and "height A = height D"
  shows "avl (rotate_right_left (Node x A (Node y (Node z B C bz) D 1) bx))"
    and "height (rotate_right_left (Node x A (Node y (Node z B C bz) D 1) bx)) = height A + 2"
proof -
  have z: "avl (Node z B C bz)" and yD: "avl D" "height (Node z B C bz) = height D + 1"
    using assms(1) by auto
  show "avl (rotate_right_left (Node x A (Node y (Node z B C bz) D 1) bx))"
    using z by (rule avl_NodeD) (use z yD assms(2,3) in simp_all)
  show "height (rotate_right_left (Node x A (Node y (Node z B C bz) D 1) bx)) = height A + 2"
    using z by (rule avl_NodeD) (use z yD assms(2,3) in simp_all)
qed

lemma avl_rotate_grown_left:
  assumes l: "avl l" "height l = h + 1" and r: "avl r" and b: "\<bar>b\<bar> = 1" "b = int h - int (height r)"
    and bal: "b = 1 \<Longrightarrow> balance l \<noteq> 0"
  shows "avl (tsearch_rotate (Node k l r (b + 1))) \<and>
    height (tsearch_rotate (Node k l r (b + 1))) = max h (height r) + 1"
proof (cases "b = 1")
  case False
  with b have "b = -1" "height r = h + 1" by auto
  with l r show ?thesis by simp
next
  case True
  then have h: "h = height r + 1" using b by simp
  obtain y A B bl where ly: "l = Node y A B bl" using l(2) by (cases l) auto
  have "avl (Node y A B bl)" using l(1) unfolding ly .
  then show ?thesis
  proof (cases rule: avl_NodeD)
    case 1
    with True l r h ly show ?thesis by simp
  next
    case 2
    with True bal ly show ?thesis by simp
  next
    case 3
    then obtain z B1 C1 bz where B: "B = Node z B1 C1 bz" by (cases B) auto
    have "height A = height r" using 3 l(2) h ly by simp
    moreover have "avl (Node y A (Node z B1 C1 bz) (-1))" using l(1) unfolding ly B 3(1) .
    moreover have "tsearch_rotate (Node k l r (b + 1)) =
        rotate_left_right (Node k (Node y A (Node z B1 C1 bz) (-1)) r 2)"
      using True ly B 3(1) by (simp del: rotate_left_right.simps)
    ultimately show ?thesis
      using avl_left_right_case [of y A z B1 C1 bz r k 2] r h by (simp del: rotate_left_right.simps avl.simps)
  qed
qed

lemma avl_rotate_grown_right:
  assumes r: "avl r" "height r = h + 1" and l: "avl l" and b: "\<bar>b\<bar> = 1" "b = int (height l) - int h"
    and bal: "b = -1 \<Longrightarrow> balance r \<noteq> 0"
  shows "avl (tsearch_rotate (Node k l r (b - 1))) \<and>
    height (tsearch_rotate (Node k l r (b - 1))) = max (height l) h + 1"
proof (cases "b = -1")
  case False
  with b have "b = 1" "height l = h + 1" by auto
  with l r show ?thesis by simp
next
  case True
  then have h: "h = height l + 1" using b by simp
  obtain y B C br where ry: "r = Node y B C br" using r(2) by (cases r) auto
  have "avl (Node y B C br)" using r(1) unfolding ry .
  then show ?thesis
  proof (cases rule: avl_NodeD)
    case 3
    with True l r h ry show ?thesis by simp
  next
    case 2
    with True bal ry show ?thesis by simp
  next
    case 1
    then obtain z B1 C1 bz where B: "B = Node z B1 C1 bz" by (cases B) auto
    have "height l = height C" using 1 r(2) h ry by simp
    moreover have "avl (Node y (Node z B1 C1 bz) C 1)" using r(1) unfolding ry B 1(1) .
    moreover have "tsearch_rotate (Node k l r (b - 1)) =
        rotate_right_left (Node k l (Node y (Node z B1 C1 bz) C 1) (-2))"
      using True ry B 1(1) by (simp del: rotate_right_left.simps)
    ultimately show ?thesis
      using avl_right_left_case [of y z B1 C1 bz C l k "-2"] l h by (simp del: rotate_right_left.simps avl.simps)
  qed
qed

lemma avl_ins_result:
  assumes "avl t" and "valid_pos t ds" and "tree_at t ds = NULL"
    and "last_reset ins_reset t ds = Some (ps, ss)"
  shows "avl (ins_result t ds (Node key NULL NULL 0)) \<and>
    height (ins_result t ds (Node key NULL NULL 0)) = height t"
  using assms
proof (induction t ds arbitrary: ps rule: valid_pos.induct)
  case (3 k l r b d ds)
  let ?c = "if d then l else r"
  have c: "avl ?c" "valid_pos ?c ds" "tree_at ?c ds = NULL"
    using "3.prems"(1-3) by auto
  show ?case
  proof (cases "last_reset ins_reset ?c ds")
    case (Some p)
    then obtain ps' where p: "last_reset ins_reset ?c ds = Some (ps', ss)"
      using "3.prems"(4) by (auto split: prod.splits)
    have "avl (ins_result ?c ds (Node key NULL NULL 0)) \<and>
        height (ins_result ?c ds (Node key NULL NULL 0)) = height ?c"
      using "3.IH" c p by blast
    with "3.prems"(1) show ?thesis
      unfolding ins_result_Node [OF p] by (cases d) auto
  next
    case None
    let ?g = "ins_adjust ds (tree_set ?c ds (Node key NULL NULL 0))"
    have b: "b \<noteq> 0" using "3.prems"(4) None by (auto split: if_splits)
    have res: "ins_result (Node k l r b) (d # ds) (Node key NULL NULL 0) =
        (if d then tsearch_rotate (Node k ?g r (b + 1)) else tsearch_rotate (Node k l ?g (b - 1)))"
      using None b by (simp add: ins_result_def)
    have g: "avl ?g" "height ?g = height ?c + 1"
        "balance ?g = (case ds of [] \<Rightarrow> 0 | d # _ \<Rightarrow> if d then 1 else -1)"
      using ins_adjust_zero [OF c None] by blast+
    have grown: "balance ?g \<noteq> 0" if "?c \<noteq> NULL"
      using that c(3) g(3) by (cases ds) auto
    have ht: "avl l" "avl r" "\<bar>b\<bar> = 1" "b = int (height l) - int (height r)"
      using "3.prems"(1) b by auto
    show ?thesis
    proof (cases d)
      case True
      have "b = 1 \<Longrightarrow> l \<noteq> NULL" using ht(4) by auto
      then show ?thesis
        using avl_rotate_grown_left [of ?g "height l" r b k] g grown ht res True
        by (simp del: tsearch_rotate.simps)
    next
      case False
      have "b = -1 \<Longrightarrow> r \<noteq> NULL" using ht(4) by auto
      then show ?thesis
        using avl_rotate_grown_right [of ?g "height r" l b k] g grown ht res False
        by (simp del: tsearch_rotate.simps)
    qed
  qed
qed simp_all

lemma avl_nodes: "avl t \<Longrightarrow> 2 ^ (height t div 2) \<le> length (inorder t) + 1"
proof (induction t)
  case NULL
  then show ?case by simp
next
  case (Node k l r b)
  let ?h = "height (Node k l r b)"
  have heights: "?h - 2 \<le> height l" "?h - 2 \<le> height r"
    using Node.prems by auto
  have "(2 :: nat) ^ ((?h - 2) div 2) \<le> 2 ^ (height l div 2)"
    "(2 :: nat) ^ ((?h - 2) div 2) \<le> 2 ^ (height r div 2)"
    using heights by (simp_all add: div_le_mono)
  moreover have "2 ^ (height l div 2) \<le> length (inorder l) + 1"
    "2 ^ (height r div 2) \<le> length (inorder r) + 1"
    using Node by simp_all
  ultimately have "2 * 2 ^ ((?h - 2) div 2) \<le> (length (inorder l) + 1) + (length (inorder r) + 1)"
    by linarith
  then have "2 * 2 ^ ((?h - 2) div 2) \<le> length (inorder (Node k l r b)) + 1" by simp
  moreover have "(2 :: nat) ^ (?h div 2) \<le> 2 * 2 ^ ((?h - 2) div 2)"
    by (cases "?h div 2") (auto simp: div_eq_0_iff simp flip: div_diff)
  ultimately show ?case by linarith
qed

section \<open>The search-tree contract of insertion and lookup\<close>

text \<open>
  What a tree built by these functions satisfies: correct balances, no subtree out of balance, and
  keys that the callback calls strictly increasing.
\<close>

definition search_tree :: "('k \<Rightarrow> 'k \<Rightarrow> int) \<Rightarrow> 'k posix_tnode \<Rightarrow> bool" where
  "search_tree compar t \<longleftrightarrow> avl t \<and> sorted_wrt (\<lambda>a b. compar a b < 0) (inorder t)"

text \<open>The node count that fits the address space, which bounds the recorded path.\<close>

definition fits :: "'k posix_tnode \<Rightarrow> bool" where
  "fits t \<longleftrightarrow> length (inorder t) + 1 < 2 ^ 64"

lemma avl_height_bound:
  assumes "avl t" and "fits t"
  shows "height t \<le> 128"
proof (rule ccontr)
  assume "\<not> height t \<le> 128"
  then have "(2 :: nat) ^ 64 \<le> 2 ^ (height t div 2)" by (intro power_increasing) auto
  with avl_nodes [OF assms(1)] assms(2) show False by (simp add: fits_def)
qed

context comparator
begin

lemma search_steps_found:
  "tree_at t (search_steps compar key t) = Node k l r b \<Longrightarrow> compar key k = 0 \<and> k \<in> set (inorder t)"
  by (induction t) (auto split: if_splits)

lemma search_steps_split:
  assumes "ordered (inorder t)" and "tree_at t (search_steps compar key t) = NULL"
  shows "\<exists>xs ys. inorder t = xs @ ys \<and>
    (\<forall>b. inorder (tree_set t (search_steps compar key t) (Node key NULL NULL b)) = xs @ key # ys) \<and>
    (\<forall>x \<in> set xs. 0 < compar key x) \<and> (\<forall>y \<in> set ys. compar key y < 0)"
  using assms
proof (induction t)
  case NULL
  then show ?case by simp
next
  case (Node k l r b)
  consider "compar key k < 0" | "0 < compar key k"
    using Node.prems(2) by (cases "compar key k = 0") (auto simp: neq_iff)
  then show ?case
  proof cases
    case 1
    then obtain xs ys where IH: "inorder l = xs @ ys"
      "\<forall>b. inorder (tree_set l (search_steps compar key l) (Node key NULL NULL b)) = xs @ key # ys"
      "\<forall>x \<in> set xs. 0 < compar key x" "\<forall>y \<in> set ys. compar key y < 0"
      using Node by (auto simp: sorted_wrt_append)
    have "\<forall>y \<in> set (inorder r). compar key y < 0"
      using Node.prems(1) 1 by (auto simp: sorted_wrt_append intro: compar_less_trans)
    with 1 IH show ?thesis
      by (intro exI [of _ xs] exI [of _ "ys @ k # inorder r"]) auto
  next
    case 2
    then obtain xs ys where IH: "inorder r = xs @ ys"
      "\<forall>b. inorder (tree_set r (search_steps compar key r) (Node key NULL NULL b)) = xs @ key # ys"
      "\<forall>x \<in> set xs. 0 < compar key x" "\<forall>y \<in> set ys. compar key y < 0"
      using Node by (auto simp: sorted_wrt_append)
    have "\<forall>x \<in> set (inorder l). 0 < compar key x"
      using Node.prems(1) 2 by (auto simp: sorted_wrt_append compar_pos_iff intro: compar_less_trans)
    with 2 IH show ?thesis
      by (intro exI [of _ "inorder l @ k # xs"] exI [of _ ys]) auto
  qed
qed

lemma tfind_loop_None:
  assumes "ordered (inorder t)"
  shows "tfind_loop compar key t = None \<longleftrightarrow> (\<forall>k \<in> set (inorder t). compar key k \<noteq> 0)"
proof (cases "tree_at t (search_steps compar key t)")
  case NULL
  from search_steps_split [OF assms this] show ?thesis
    using NULL by (fastforce simp: tfind_loop_eq)
next
  case (Node k l r b)
  with search_steps_found [of t key] show ?thesis by (auto simp: tfind_loop_eq)
qed

lemma tfind_loop_Some:
  "tfind_loop compar key t = Some k \<Longrightarrow> k \<in> set (inorder t) \<and> compar key k = 0"
  using search_steps_found [of t key] by (auto simp: tfind_loop_eq split: posix_tnode.splits)

lemma tsearch_new:
  assumes "avl t" and "fits t" and "tree_at t (search_steps compar key t) = NULL"
  shows "tsearch compar True path key (Some t) =
    (Some key, Some (ins_result t (search_steps compar key t) (Node key NULL NULL 0)))"
proof -
  let ?es = "search_steps compar key t"
  let ?rs = "last_reset ins_reset t ?es"
  obtain path' where d: "tsearch_descend compar key t [] [] (path_init path) =
        Inr (?es, reset_rootp [] [] ?rs, path')" and rep: "path_rep path' (reset_steps [] ?es ?rs)"
    using tsearch_descend_NULL [OF assms(3) path_rep_init, of "[]" "[]" path] avl_height_bound [OF assms(1,2)]
    by auto
  have adj: "tsearch_adjust (nsteps path') path' s = ins_adjust (reset_steps [] ?es ?rs) s"
    for s :: "'a posix_tnode"
    using rep tsearch_adjust_eq by (metis path_rep_def)
  show ?thesis
  proof (cases ?rs)
    case None
    with d adj show ?thesis
      by (simp add: tsearch_def ins_result_def reset_rootp_def reset_steps_def)
  next
    case (Some p)
    then obtain ps ss where p: "?rs = Some (ps, ss)" by (cases p) auto
    then have "valid_pos (tree_set t ?es (Node key NULL NULL 0)) ps"
      using last_reset_append [OF p] valid_pos_tree_set [of t ps ss] valid_search_steps [of t compar key]
      by simp
    with d adj p show ?thesis
      by (simp add: Let_def tsearch_def ins_result_def reset_rootp_def reset_steps_def)
  qed
qed

lemma tsearch_found:
  assumes "tree_at t (search_steps compar key t) = Node k l r b"
  shows "tsearch compar malloc_ok path key (Some t) = (Some k, Some t)"
  using assms tsearch_descend_Node [of t compar key] by (simp add: tsearch_def)

lemma search_tree_ins_result:
  assumes "search_tree compar t" and "tree_at t (search_steps compar key t) = NULL"
  defines "t' \<equiv> ins_result t (search_steps compar key t) (Node key NULL NULL 0)"
  shows "search_tree compar t'" and "set (inorder t') = insert key (set (inorder t))"
    and "length (inorder t') = length (inorder t) + 1"
proof -
  let ?es = "search_steps compar key t"
  obtain xs ys where s: "inorder t = xs @ ys" "inorder t' = xs @ key # ys"
    "\<forall>x \<in> set xs. 0 < compar key x" "\<forall>y \<in> set ys. compar key y < 0"
    using search_steps_split [of t key] assms
    by (auto simp: search_tree_def inorder_ins_result)
  have "ordered (inorder t')"
    using assms(1) s by (simp only: search_tree_def) (intro ordered_insert_middle, simp_all)
  moreover have "avl t'"
  proof (cases "last_reset ins_reset t ?es")
    case None
    have g: "avl (ins_adjust ?es (tree_set t ?es (Node key NULL NULL 0)))"
      using ins_adjust_zero [OF _ valid_search_steps assms(2) None] assms(1)
      by (simp add: search_tree_def)
    then have "tsearch_rotate (ins_adjust ?es (tree_set t ?es (Node key NULL NULL 0))) =
        ins_adjust ?es (tree_set t ?es (Node key NULL NULL 0))"
      by (cases "ins_adjust ?es (tree_set t ?es (Node key NULL NULL 0))") auto
    with g None show ?thesis by (simp add: t'_def ins_result_def)
  next
    case (Some p)
    then show ?thesis
      using avl_ins_result [OF _ valid_search_steps assms(2)] assms(1)
      by (cases p) (simp add: search_tree_def t'_def)
  qed
  ultimately show "search_tree compar t'" by (simp add: search_tree_def)
  show "set (inorder t') = insert key (set (inorder t))" "length (inorder t') = length (inorder t) + 1"
    using s by auto
qed

end

end
