(* ===== verification/TreeDelete.thy ===== *)
theory TreeDelete
  imports TreeSearch
begin

text \<open>
  Correctness of \<open>tdelete()\<close>: the single top-down rebalancing pass removes exactly the matching key
  and leaves an AVL tree. The argument follows the reset points of \<open>GO_LEFT()\<close> and
  \<open>GO_RIGHT()\<close>: below the last one every subtree on the path loses one level, and the subtree at
  the reset point keeps its height.
\<close>

section \<open>The recorded descent\<close>

definition del_reset :: "'k posix_tnode \<Rightarrow> bool \<Rightarrow> bool" where
  "del_reset t d = (if d then go_left_resets t else go_right_resets t)"

lemma last_reset_comp:
  "last_reset P t (es @ fs) =
     (case last_reset P (tree_at t es) fs of
        Some (ps, ss) \<Rightarrow> Some (es @ ps, ss)
      | None \<Rightarrow>
          (case last_reset P t es of None \<Rightarrow> None | Some (ps, ss) \<Rightarrow> Some (ps, ss @ fs)))"
proof (induction P t es rule: last_reset.induct)
  case (2 P d ds)
  then show ?case by (cases fs) auto
qed (auto split: option.splits if_splits)

lemma reset_comp:
  shows "reset_rootp lp rootp (last_reset P t (es @ fs)) =
      reset_rootp (lp @ es) (reset_rootp lp rootp (last_reset P t es)) (last_reset P (tree_at t es) fs)"
    and "reset_steps ds (es @ fs) (last_reset P t (es @ fs)) =
      reset_steps (reset_steps ds es (last_reset P t es)) fs (last_reset P (tree_at t es) fs)"
  by (auto simp: last_reset_comp reset_rootp_def reset_steps_def split: option.splits)

lemma length_reset_steps:
  "length (reset_steps ds es (last_reset P t es)) \<le> length ds + length es"
  using last_reset_append [of P t es] by (auto simp: reset_steps_def split: option.splits)

definition GO :: "bool \<Rightarrow> 'k posix_tnode \<Rightarrow> bool list \<Rightarrow> bool list \<Rightarrow> path
    \<Rightarrow> bool list \<times> bool list \<times> path" where
  "GO d = (if d then GO_LEFT else GO_RIGHT)"

lemma GO_step:
  assumes "n = Node k l r b" and "path_rep path ds" and "length ds < 128"
  obtains path' where
    "GO d n lp rootp path = (lp @ [d], reset_rootp lp rootp (last_reset del_reset n [d]), path')"
    and "path_rep path' (reset_steps ds [d] (last_reset del_reset n [d]))"
proof -
  have "last_reset del_reset n [d] = (if del_reset n d then Some ([], [d]) else None)"
    using assms(1) by (cases d) simp_all
  moreover have "GO d n lp rootp path = (lp @ [d], if del_reset n d then lp else rootp,
      path_taking d (if del_reset n d then path_init path else path))"
    by (cases d) (simp_all add: GO_def GO_LEFT_def GO_RIGHT_def Let_def path_taking_def del_reset_def)
  ultimately show thesis
    using that path_rep_reset [OF assms(2,3), of d "del_reset n d"]
    by (cases "del_reset n d") (simp_all add: reset_rootp_def reset_steps_def)
qed

definition parent_result :: "'k posix_tnode \<Rightarrow> bool list \<Rightarrow> 'k tdelete_result \<Rightarrow> 'k tdelete_result" where
  "parent_result t es result = (if es = [] then result else Ret_node (tkey (tree_at t (butlast es))))"

lemma tdelete_descend_NULL:
  "tree_at t (search_steps compar key t) = NULL \<Longrightarrow>
    tdelete_descend compar key t lp rootp path result = None"
  by (induction t arbitrary: lp rootp path result) (auto simp: Let_def split: prod.splits if_splits)

lemma tdelete_descend_Node:
  assumes "tree_at t (search_steps compar key t) \<noteq> NULL"
    and "path_rep path ds" and "length ds + height t \<le> 128"
  shows "\<exists>path'.
    tdelete_descend compar key t lp rootp path result =
      Some (lp @ search_steps compar key t,
            reset_rootp lp rootp (last_reset del_reset t (search_steps compar key t)), path',
            parent_result t (search_steps compar key t) result) \<and>
    path_rep path'
      (reset_steps ds (search_steps compar key t)
         (last_reset del_reset t (search_steps compar key t)))"
  using assms
proof (induction t arbitrary: lp rootp path ds result)
  case NULL
  then show ?case by simp
next
  case (Node k l r b)
  let ?n = "Node k l r b"
  show ?case
  proof (cases "compar key k = 0")
    case True
    with Node.prems show ?thesis by (simp add: reset_rootp_def reset_steps_def parent_result_def)
  next
    case ne: False
    define d where "d \<longleftrightarrow> compar key k < 0"
    let ?c = "if d then l else r" and ?es = "search_steps compar key (if d then l else r)"
    have es: "search_steps compar key ?n = [d] @ ?es" using ne by (auto simp: d_def)
    obtain path1 where p1:
      "GO d ?n lp rootp path = (lp @ [d], reset_rootp lp rootp (last_reset del_reset ?n [d]), path1)"
      "path_rep path1 (reset_steps ds [d] (last_reset del_reset ?n [d]))"
    proof (rule GO_step [OF refl Node.prems(2)])
      show "length ds < 128" using Node.prems(3) by simp
    qed (use that in blast)
    have unfold: "tdelete_descend compar key ?n lp rootp path result =
        tdelete_descend compar key ?c (lp @ [d]) (reset_rootp lp rootp (last_reset del_reset ?n [d]))
          path1 (Ret_node k)"
      using ne p1(1) by (auto simp: d_def Let_def GO_def)
    have at: "tree_at ?c ?es \<noteq> NULL" using Node.prems(1) unfolding es by auto
    have c: "tree_at ?n [d] = ?c" by simp
    have len: "length (reset_steps ds [d] (last_reset del_reset ?n [d])) + height ?c \<le> 128"
      using length_reset_steps [of ds "[d]" del_reset ?n] Node.prems(3) by auto
    have IH: "\<exists>path'.
      tdelete_descend compar key ?c (lp @ [d]) (reset_rootp lp rootp (last_reset del_reset ?n [d]))
          path1 (Ret_node k) =
        Some ((lp @ [d]) @ ?es,
              reset_rootp (lp @ [d]) (reset_rootp lp rootp (last_reset del_reset ?n [d]))
                (last_reset del_reset ?c ?es), path',
              parent_result ?c ?es (Ret_node k)) \<and>
      path_rep path'
        (reset_steps (reset_steps ds [d] (last_reset del_reset ?n [d])) ?es (last_reset del_reset ?c ?es))"
    proof (cases d)
      case True
      with Node.IH(1) [OF _ p1(2), where lp = "lp @ [d]"] at len show ?thesis by simp
    next
      case False
      with Node.IH(2) [OF _ p1(2), where lp = "lp @ [d]"] at len show ?thesis by simp
    qed
    have "parent_result ?c ?es (Ret_node k) = parent_result ?n ([d] @ ?es) result"
      by (cases "?es = []") (auto simp: parent_result_def)
    with IH show ?thesis
      unfolding unfold es reset_comp c by (simp only: append_assoc)
  qed
qed

fun max_steps :: "'k posix_tnode \<Rightarrow> bool list" where
  "max_steps NULL = []"
| "max_steps (Node k l r b) = (if r = NULL then [] else False # max_steps r)"

lemma valid_max_steps [simp]: "valid_pos t (max_steps t)"
  by (induction t) auto

lemma length_max_steps: "length (max_steps t) \<le> height t"
  by (rule valid_pos_length) simp

lemma tree_at_max_steps:
  "t \<noteq> NULL \<Longrightarrow> \<exists>k l b. tree_at t (max_steps t) = Node k l NULL b \<and>
      inorder t = inorder (tree_set t (max_steps t) l) @ [k]"
  by (induction t) auto

lemma tdelete_predecessor_steps:
  assumes "path_rep path ds" and "length ds + height t \<le> 128"
  shows "\<exists>path'.
    tdelete_predecessor t lp rootp path =
      (lp @ max_steps t, reset_rootp lp rootp (last_reset del_reset t (max_steps t)), path') \<and>
    path_rep path' (reset_steps ds (max_steps t) (last_reset del_reset t (max_steps t)))"
  using assms
proof (induction t arbitrary: lp rootp path ds)
  case NULL
  then show ?case by (simp add: reset_rootp_def reset_steps_def)
next
  case (Node k l r b)
  let ?n = "Node k l r b"
  show ?case
  proof (cases "r = NULL")
    case True
    with Node.prems show ?thesis by (simp add: reset_rootp_def reset_steps_def)
  next
    case False
    obtain path1 where p1: "GO False ?n lp rootp path =
        (lp @ [False], reset_rootp lp rootp (last_reset del_reset ?n [False]), path1)"
      "path_rep path1 (reset_steps ds [False] (last_reset del_reset ?n [False]))"
    proof (rule GO_step [OF refl Node.prems(1)])
      show "length ds < 128" using Node.prems(2) by simp
    qed (use that in blast)
    have es: "max_steps ?n = [False] @ max_steps r" using False by simp
    have c: "tree_at ?n [False] = r" by simp
    have len: "length (reset_steps ds [False] (last_reset del_reset ?n [False])) + height r \<le> 128"
      using length_reset_steps [of ds "[False]" del_reset ?n] Node.prems(2) by auto
    have unfold: "tdelete_predecessor ?n lp rootp path =
        tdelete_predecessor r (lp @ [False])
          (reset_rootp lp rootp (last_reset del_reset ?n [False])) path1"
      using False p1(1) by (simp add: GO_def)
    show ?thesis
      using Node.IH(2) [OF p1(2) len, of "lp @ [False]"
          "reset_rootp lp rootp (last_reset del_reset ?n [False])"]
      unfolding unfold es reset_comp c by (simp only: append_assoc)
  qed
qed

section \<open>The rebalancing walk\<close>

fun del_adjust :: "bool list \<Rightarrow> 'k posix_tnode \<Rightarrow> 'k posix_tnode" where
  "del_adjust [] t = t"
| "del_adjust (d # ds) NULL = NULL"
| "del_adjust (d # ds) (Node x l r bx) =
     (if d then
        (if bx < 0 then
           (case r of
              NULL \<Rightarrow> Node x (del_adjust ds l) r bx
            | Node y B C bby \<Rightarrow>
                if bby > 0 then rotate_right_left (Node x (del_adjust ds l) r bx)
                else if bby < 0 then Node y (Node x (del_adjust ds l) B 0) C 0
                else Node y (Node x (del_adjust ds l) B (-1)) C 1)
         else Node x (del_adjust ds l) r (bx - 1))
      else
        (if bx > 0 then
           (case l of
              NULL \<Rightarrow> Node x l (del_adjust ds r) bx
            | Node y A B bby \<Rightarrow>
                if bby < 0 then rotate_left_right (Node x l (del_adjust ds r) bx)
                else if bby > 0 then Node y A (Node x B (del_adjust ds r) 0) 0
                else Node y A (Node x B (del_adjust ds r) 1) (-1))
         else Node x l (del_adjust ds r) (bx + 1)))"

lemma tdelete_adjust_eq:
  fixes t :: "'k posix_tnode"
  shows "path_holds p ds \<Longrightarrow> tdelete_adjust (length ds) p t = del_adjust ds t"
proof (induction ds arbitrary: p t)
  case Nil
  then show ?case by simp
next
  case (Cons d ds)
  obtain p' where p': "path_took_left p = (d, p')" "path_holds p' ds"
    using Cons.prems by (rule path_took_left_Cons)
  have "tdelete_adjust (length ds) p' s = del_adjust ds s" for s :: "'k posix_tnode"
    using p'(2) by (rule Cons.IH)
  with p'(1) show ?case by (cases t) (simp_all add: Let_def)
qed

lemma inorder_del_adjust [simp]: "inorder (del_adjust ds t) = inorder t"
  by (induction ds t rule: del_adjust.induct)
    (auto split: posix_tnode.splits simp del: rotate_left_right.simps rotate_right_left.simps)

lemma avl_children:
  assumes "avl (Node k l r b)"
  shows "avl l" and "avl r"
  using assms by simp_all

text \<open>A node whose left (or right) subtree has lost a level, at a node that is not a reset point.\<close>

lemma avl_shrunk_left:
  assumes n: "avl (Node x l r b)" and l': "avl l'" "height l = height l' + 1"
    and nr: "\<not> del_reset (Node x l r b) True" and res: "res = del_adjust [True] (Node x l' r b)"
  shows "avl res \<and> height (Node x l r b) = height res + 1"
  using n
proof (cases rule: avl_NodeD)
  case 1
  with n l' res show ?thesis by auto
next
  case 2
  with nr show ?thesis by (simp add: del_reset_def)
next
  case 3
  then obtain y B C br where r: "r = Node y B C br" by (cases r) auto
  have "avl (Node y B C br)" using avl_children(2) [OF n] unfolding r .
  then show ?thesis
  proof (cases rule: avl_NodeD)
    case 1
    then obtain z B1 C1 bz where B: "B = Node z B1 C1 bz" by (cases B) auto
    have h: "height l' = height C" using 1 3 r l' by simp
    have "res = rotate_right_left (Node x l' (Node y (Node z B1 C1 bz) C 1) b)"
      using res r B 1 3 by (simp del: rotate_right_left.simps)
    moreover have "avl (Node y (Node z B1 C1 bz) C 1)"
      using avl_children(2) [OF n] unfolding r B 1(1) .
    ultimately show ?thesis
      using avl_right_left_case [of y z B1 C1 bz C l' x b] l' h 3
      by (simp del: rotate_right_left.simps avl.simps)
  next
    case 2
    with 3 nr r show ?thesis by (simp add: del_reset_def)
  next
    case b3: 3
    then show ?thesis using 3 n r l' res by simp
  qed
qed

lemma avl_shrunk_right:
  assumes n: "avl (Node x l r b)" and r': "avl r'" "height r = height r' + 1"
    and nr: "\<not> del_reset (Node x l r b) False" and res: "res = del_adjust [False] (Node x l r' b)"
  shows "avl res \<and> height (Node x l r b) = height res + 1"
  using n
proof (cases rule: avl_NodeD)
  case 3
  with n r' res show ?thesis by auto
next
  case 2
  with nr show ?thesis by (simp add: del_reset_def)
next
  case 1
  then obtain y A B bl where l: "l = Node y A B bl" by (cases l) auto
  have "avl (Node y A B bl)" using avl_children(1) [OF n] unfolding l .
  then show ?thesis
  proof (cases rule: avl_NodeD)
    case 3
    then obtain z B1 C1 bz where B: "B = Node z B1 C1 bz" by (cases B) auto
    have h: "height A = height r'" using 1 3 l r' by simp
    have "res = rotate_left_right (Node x (Node y A (Node z B1 C1 bz) (-1)) r' b)"
      using res l B 1 3 by (simp del: rotate_left_right.simps)
    moreover have "avl (Node y A (Node z B1 C1 bz) (-1))"
      using avl_children(1) [OF n] unfolding l B 3(1) .
    ultimately show ?thesis
      using avl_left_right_case [of y A z B1 C1 bz r' x b] r' h 1
      by (simp del: rotate_left_right.simps avl.simps)
  next
    case 2
    with 1 nr l show ?thesis by (simp add: del_reset_def)
  next
    case b1: 1
    then show ?thesis using 1 n l r' res by simp
  qed
qed

text \<open>The same at a reset point, where the height stays.\<close>

lemma avl_kept_left:
  assumes n: "avl (Node x l r b)" and l': "avl l'" "height l = height l' + 1"
    and rs: "del_reset (Node x l r b) True" and res: "res = del_adjust [True] (Node x l' r b)"
  shows "avl res \<and> height res = height (Node x l r b)"
  using n
proof (cases rule: avl_NodeD)
  case 1
  with rs show ?thesis by (simp add: del_reset_def)
next
  case 2
  with n l' res show ?thesis by auto
next
  case 3
  then obtain y B C where r: "r = Node y B C 0"
    using rs by (auto simp: del_reset_def split: posix_tnode.splits)
  with n have "avl B" "avl C" "height B = height C" by auto
  with 3 n r l' res show ?thesis by simp
qed

lemma avl_kept_right:
  assumes n: "avl (Node x l r b)" and r': "avl r'" "height r = height r' + 1"
    and rs: "del_reset (Node x l r b) False" and res: "res = del_adjust [False] (Node x l r' b)"
  shows "avl res \<and> height res = height (Node x l r b)"
  using n
proof (cases rule: avl_NodeD)
  case 3
  with rs show ?thesis by (simp add: del_reset_def)
next
  case 2
  with n r' res show ?thesis by auto
next
  case 1
  then obtain y A B where l: "l = Node y A B 0"
    using rs by (auto simp: del_reset_def split: posix_tnode.splits)
  with n have "avl A" "avl B" "height A = height B" by auto
  with 1 n l r' res show ?thesis by simp
qed


lemma del_adjust_Cons:
  "del_adjust (d # ds) (Node x l r b) =
     del_adjust [d] (if d then Node x (del_adjust ds l) r b else Node x l (del_adjust ds r) b)"
  by (simp split: posix_tnode.splits)

declare del_adjust.simps(3) [simp del]

lemma last_reset_Node_None:
  "last_reset P (Node k l r b) (d # ds) = None \<longleftrightarrow>
     last_reset P (if d then l else r) ds = None \<and> \<not> P (Node k l r b) d"
  by (auto split: option.splits)

lemma del_adjust_shrinks:
  assumes "avl t" and "valid_pos t ds" and "last_reset del_reset t ds = None"
    and "avl s" and "height (tree_at t ds) = height s + 1"
  shows "avl (del_adjust ds (tree_set t ds s)) \<and>
    height t = height (del_adjust ds (tree_set t ds s)) + 1"
  using assms
proof (induction t ds rule: valid_pos.induct)
  case (3 k l r b d ds)
  have none: "last_reset del_reset (if d then l else r) ds = None" "\<not> del_reset (Node k l r b) d"
    using "3.prems"(3) unfolding last_reset_Node_None by auto
  have "avl (if d then l else r)" "valid_pos (if d then l else r) ds"
    "height (tree_at (if d then l else r) ds) = height s + 1"
    using "3.prems" by auto
  note IH = "3.IH" [OF this(1,2) none(1) "3.prems"(4) this(3)]
  show ?case
  proof (cases d)
    case True
    with avl_shrunk_left [OF "3.prems"(1) _ _ _ refl] IH none(2) show ?thesis
      by (simp add: del_adjust_Cons [of True ds])
  next
    case False
    with avl_shrunk_right [OF "3.prems"(1) _ _ _ refl] IH none(2) show ?thesis
      by (simp add: del_adjust_Cons [of False ds])
  qed
qed simp_all

definition del_result :: "'k posix_tnode \<Rightarrow> bool list \<Rightarrow> 'k posix_tnode \<Rightarrow> 'k posix_tnode" where
  "del_result t ds s =
     (case last_reset del_reset t ds of
        None \<Rightarrow> del_adjust ds (tree_set t ds s)
      | Some (ps, ss) \<Rightarrow>
          tree_set (tree_set t ds s) ps (del_adjust ss (tree_at (tree_set t ds s) ps)))"

lemma del_result_Node:
  assumes "last_reset del_reset (if d then l else r) ds = Some (ps, ss)"
  shows "del_result (Node k l r b) (d # ds) s =
           (if d then Node k (del_result l ds s) r b else Node k l (del_result r ds s) b)"
  using assms by (cases d) (simp_all add: del_result_def)

lemma avl_del_result_reset:
  assumes "avl t" and "valid_pos t ds" and "last_reset del_reset t ds = Some (ps, ss)"
    and "avl s" and "height (tree_at t ds) = height s + 1"
  shows "avl (del_result t ds s) \<and> height (del_result t ds s) = height t"
  using assms
proof (induction t ds arbitrary: ps rule: valid_pos.induct)
  case (3 k l r b d ds)
  let ?c = "if d then l else r"
  have c: "avl ?c" "valid_pos ?c ds" "height (tree_at ?c ds) = height s + 1"
    using "3.prems" by auto
  show ?case
  proof (cases "last_reset del_reset ?c ds")
    case (Some p)
    then obtain ps' where p: "last_reset del_reset ?c ds = Some (ps', ss)"
      using "3.prems"(3) by (auto split: prod.splits)
    have "avl (del_result ?c ds s) \<and> height (del_result ?c ds s) = height ?c"
      using "3.IH" c "3.prems"(4) p by blast
    with "3.prems"(1) show ?thesis
      unfolding del_result_Node [OF p] by (cases d) auto
  next
    case None
    have rs: "del_reset (Node k l r b) d" using "3.prems"(3) None by (auto split: if_splits)
    have res: "del_result (Node k l r b) (d # ds) s =
        del_adjust (d # ds) (tree_set (Node k l r b) (d # ds) s)"
      using None rs by (simp add: del_result_def)
    note shrunk = del_adjust_shrinks [OF c(1,2) None "3.prems"(4) c(3)]
    show ?thesis
    proof (cases d)
      case True
      with avl_kept_left [OF "3.prems"(1) _ _ _ refl] shrunk rs show ?thesis
        unfolding res by (simp add: del_adjust_Cons [of True ds])
    next
      case False
      with avl_kept_right [OF "3.prems"(1) _ _ _ refl] shrunk rs show ?thesis
        unfolding res by (simp add: del_adjust_Cons [of False ds])
    qed
  qed
qed simp_all

lemma avl_del_result:
  assumes "avl t" and "valid_pos t ds" and "avl s" and "height (tree_at t ds) = height s + 1"
  shows "avl (del_result t ds s)"
proof (cases "last_reset del_reset t ds")
  case None
  with del_adjust_shrinks [OF assms(1,2) None assms(3,4)] show ?thesis
    by (simp add: del_result_def)
next
  case (Some p)
  with avl_del_result_reset [OF assms(1,2) _ assms(3,4)] show ?thesis by (cases p) auto
qed

lemma inorder_del_result:
  assumes "valid_pos t ds"
  shows "inorder (del_result t ds s) = inorder (tree_set t ds s)"
proof (cases "last_reset del_reset t ds")
  case None
  then show ?thesis by (simp add: del_result_def)
next
  case (Some p)
  obtain ps ss where p: "p = (ps, ss)" by (cases p)
  have "valid_pos (tree_set t ds s) ps"
    using assms Some p last_reset_append valid_pos_tree_set by fastforce
  then show ?thesis
    using Some p by (simp add: del_result_def inorder_tree_set_cong)
qed

section \<open>Replacing a key\<close>

abbreviation shape :: "'k posix_tnode \<Rightarrow> unit posix_tnode" where
  "shape \<equiv> map_posix_tnode (\<lambda>_. ())"

lemma shape_set_key [simp]: "shape (set_key t ds k) = shape t"
  by (induction t ds k rule: set_key.induct) auto

lemma height_shape: "height (shape t) = height t"
  by (induction t) auto

lemma avl_shape: "avl (shape t) = avl t"
  by (induction t) (auto simp: height_shape)

lemma shape_NULL [simp]: "shape t = NULL \<longleftrightarrow> t = NULL"
  by (cases t) auto

lemma del_reset_shape: "del_reset (shape t) d = del_reset t d"
  by (cases t) (auto simp: del_reset_def split: posix_tnode.splits)

lemma last_reset_shape: "last_reset del_reset (shape t) ds = last_reset del_reset t ds"
proof (induction t ds rule: valid_pos.induct)
  case (3 k l r b d ds)
  have "del_reset (Node () (shape l) (shape r) b) d = del_reset (Node k l r b) d"
    using del_reset_shape [of "Node k l r b" d] by simp
  with "3.IH" show ?case by (cases d) simp_all
qed simp_all

lemma valid_pos_shape: "valid_pos (shape t) ds = valid_pos t ds"
  by (induction t ds rule: valid_pos.induct) auto

lemma set_key_same:
  shows "height (set_key t ds k) = height t" and "avl (set_key t ds k) = avl t"
    and "last_reset del_reset (set_key t ds k) es = last_reset del_reset t es"
  by (metis height_shape shape_set_key, metis avl_shape shape_set_key,
      metis last_reset_shape shape_set_key)

lemma tree_set_set_key:
  "tree_at t es = Node k l r b \<Longrightarrow>
    tree_set (set_key t es k') (es @ ds) s = tree_set t es (tree_set (Node k' l r b) ds s)"
  by (induction t es rule: tree_at.induct) auto

lemma tree_at_set_key:
  "tree_at t es = Node k l r b \<Longrightarrow> tree_at (set_key t es k') (es @ ds) = tree_at (Node k' l r b) ds"
  by (induction t es rule: tree_at.induct) auto

lemma height_tree_at: "valid_pos t ds \<Longrightarrow> length ds + height (tree_at t ds) \<le> height t"
  by (induction t ds rule: valid_pos.induct) auto

lemma valid_pos_append: "valid_pos t (ds @ es) \<longleftrightarrow> valid_pos t ds \<and> valid_pos (tree_at t ds) es"
  by (induction t ds rule: valid_pos.induct) auto

lemma valid_pos_set_key: "valid_pos (set_key t es k) ds = valid_pos t ds"
  by (metis shape_set_key valid_pos_shape)

lemma avl_tree_at: "avl t \<Longrightarrow> avl (tree_at t ds)"
  by (induction t ds rule: tree_at.induct) auto

section \<open>The contract of deletion\<close>

definition removed :: "'k posix_tnode \<Rightarrow> bool list \<Rightarrow> 'k posix_tnode" where
  "removed t es =
     (case tree_at t es of
        NULL \<Rightarrow> t
      | Node k l r b \<Rightarrow>
          if l = NULL then del_result t es r
          else
            let old = tree_at l (max_steps l)
            in del_result (set_key t es (tkey old)) (es @ True # max_steps l) (tleft old))"

lemma reset_walk:
  fixes t t' :: "'k posix_tnode"
  assumes "path_rep path (reset_steps [] ds (last_reset del_reset t ds))" and "valid_pos t ds"
    and "last_reset del_reset t' ds = last_reset del_reset t ds" and "valid_pos t' ds"
  defines "rp \<equiv> reset_rootp [] [] (last_reset del_reset t ds)"
  shows "tree_set (tree_set t' ds s) rp
      (tdelete_adjust (nsteps path) path (tree_at (tree_set t' ds s) rp)) = del_result t' ds s"
proof -
  have adj: "tdelete_adjust (nsteps path) path u = del_adjust (reset_steps [] ds (last_reset del_reset t ds)) u"
    for u :: "'k posix_tnode"
    using assms(1) tdelete_adjust_eq by (metis path_rep_def)
  show ?thesis
    unfolding adj rp_def
    by (auto simp: del_result_def reset_rootp_def reset_steps_def assms(3) split: option.splits)
qed

context comparator
begin

lemma tdelete_missing:
  assumes "tree_at t (search_steps compar key t) = NULL"
  shows "tdelete compar path key (Some t) = (Ret_NULL, Some t)"
  using tdelete_descend_NULL [OF assms] by (simp add: tdelete_def)

lemma tdelete_found:
  assumes "avl t" and "fits t" and at: "tree_at t (search_steps compar key t) = Node k l r b"
  shows "tdelete compar path key (Some t) =
    (parent_result t (search_steps compar key t) Ret_1, Some (removed t (search_steps compar key t)))"
proof -
  let ?es = "search_steps compar key t"
  have ht: "height t \<le> 128" using assms(1,2) by (rule avl_height_bound)
  obtain path1 where d: "tdelete_descend compar key t [] [] (path_init path) Ret_1 =
      Some (?es, reset_rootp [] [] (last_reset del_reset t ?es), path1, parent_result t ?es Ret_1)"
    and rep: "path_rep path1 (reset_steps [] ?es (last_reset del_reset t ?es))"
    using tdelete_descend_Node [of t compar key "path_init path" "[]" "[]" "[]" Ret_1] at ht by auto
  show ?thesis
  proof (cases "l = NULL")
    case True
    have "tree_set (tree_set t ?es r) (reset_rootp [] [] (last_reset del_reset t ?es))
        (tdelete_adjust (nsteps path1) path1
          (tree_at (tree_set t ?es r) (reset_rootp [] [] (last_reset del_reset t ?es)))) =
      del_result t ?es r"
      using reset_walk [OF rep valid_search_steps refl valid_search_steps] by simp
    with d at True show ?thesis by (simp add: tdelete_def removed_def)
  next
    case False
    let ?n = "Node k l r b" and ?ms = "max_steps l"
    let ?fs = "?es @ True # ?ms"
    have len: "length ?es + height ?n \<le> 128"
      using height_tree_at [OF valid_search_steps [of t compar key]] at ht by simp
    let ?R = "last_reset del_reset t"
    have comp: "reset_rootp ?es (reset_rootp [] [] (?R ?es)) (last_reset del_reset ?n [True]) =
        reset_rootp [] [] (?R (?es @ [True]))"
      "reset_steps (reset_steps [] ?es (?R ?es)) [True] (last_reset del_reset ?n [True]) =
        reset_steps [] (?es @ [True]) (?R (?es @ [True]))"
      using reset_comp(1) [of "[]" "[]" del_reset t ?es "[True]"] reset_comp(2) [of "[]" ?es "[True]" del_reset t] at
      by simp_all
    have "length (reset_steps [] ?es (?R ?es)) < 128"
      using length_reset_steps [of "[]" ?es del_reset t] len by simp
    note step = GO_step [where n = ?n, OF refl rep this, where d = True and lp = ?es
        and rootp = "reset_rootp [] [] (?R ?es)"]
    obtain path2 where p2: "GO_LEFT ?n ?es (reset_rootp [] [] (?R ?es)) path1 =
        (?es @ [True], reset_rootp [] [] (?R (?es @ [True])), path2)"
      "path_rep path2 (reset_steps [] (?es @ [True]) (?R (?es @ [True])))"
      by (rule step) (use that comp in \<open>simp add: GO_def\<close>)
    have atl: "tree_at t (?es @ [True]) = l" using at by (simp add: tree_at_append)
    have len2: "length (reset_steps [] (?es @ [True]) (?R (?es @ [True]))) + height l \<le> 128"
      using length_reset_steps [of "[]" "?es @ [True]" del_reset t] len by auto
    obtain path3 where p3:
      "tdelete_predecessor l (?es @ [True]) (reset_rootp [] [] (?R (?es @ [True]))) path2 =
        ((?es @ [True]) @ ?ms, reset_rootp [] [] (?R ((?es @ [True]) @ ?ms)), path3)"
      "path_rep path3 (reset_steps [] ((?es @ [True]) @ ?ms) (?R ((?es @ [True]) @ ?ms)))"
      using tdelete_predecessor_steps [OF p2(2) len2, of "?es @ [True]" "reset_rootp [] [] (?R (?es @ [True]))"]
      unfolding reset_comp(1) [of _ _ del_reset t "?es @ [True]"]
        reset_comp(2) [of _ "?es @ [True]" _ del_reset t] atl by auto
    have fs: "valid_pos t ?fs" using at by (simp add: valid_pos_append)
    have old: "tree_at t ?fs = tree_at l ?ms" using at by (simp add: tree_at_append)
    have "tree_set (tree_set (set_key t ?es (tkey (tree_at l ?ms))) ?fs (tleft (tree_at l ?ms)))
        (reset_rootp [] [] (?R ?fs))
        (tdelete_adjust (nsteps path3) path3
          (tree_at (tree_set (set_key t ?es (tkey (tree_at l ?ms))) ?fs (tleft (tree_at l ?ms)))
            (reset_rootp [] [] (?R ?fs)))) =
      del_result (set_key t ?es (tkey (tree_at l ?ms))) ?fs (tleft (tree_at l ?ms))"
      using p3(2) fs by (intro reset_walk) (simp_all add: set_key_same valid_pos_set_key)
    with d p2(1) p3(1) at False old show ?thesis
      by (simp add: tdelete_def removed_def Let_def)
  qed
qed

lemma search_tree_removed:
  assumes "search_tree compar t" and at: "tree_at t (search_steps compar key t) = Node k l r b"
  defines "t' \<equiv> removed t (search_steps compar key t)"
  shows "search_tree compar t'" and "inorder t' = filter (\<lambda>x. compar key x \<noteq> 0) (inorder t)"
proof -
  let ?es = "search_steps compar key t"
  obtain xs ys where ctx: "\<And>s. inorder (tree_set t ?es s) = xs @ inorder s @ ys"
    using inorder_context [OF valid_search_steps] by metis
  have t: "inorder t = (xs @ inorder l) @ k # (inorder r @ ys)"
    using ctx [of "tree_at t ?es"] unfolding tree_set_at unfolding at by simp
  have avl: "avl t" using assms(1) by (simp add: search_tree_def)
  have avln: "avl (Node k l r b)" using avl_tree_at [OF avl, of ?es] unfolding at .
  have t': "avl t' \<and> inorder t' = (xs @ inorder l) @ (inorder r @ ys)"
  proof (cases "l = NULL")
    case True
    have "height (tree_at t ?es) = height r + 1" using at True by simp
    then have "avl (del_result t ?es r)"
      using avl avl_children(2) [OF avln] by (intro avl_del_result) simp_all
    moreover have "inorder (del_result t ?es r) = xs @ inorder r @ ys"
      by (simp add: inorder_del_result ctx)
    ultimately show ?thesis using at True by (simp add: t'_def removed_def)
  next
    case False
    obtain ko lo bo where old: "tree_at l (max_steps l) = Node ko lo NULL bo"
      "inorder l = inorder (tree_set l (max_steps l) lo) @ [ko]"
      using tree_at_max_steps [OF False] by blast
    let ?u = "set_key t ?es ko" and ?fs = "?es @ True # max_steps l"
    have fs: "valid_pos ?u ?fs"
      unfolding valid_pos_set_key using at by (simp add: valid_pos_append)
    have "tree_at ?u ?fs = Node ko lo NULL bo"
      using at old(1) by (simp add: tree_at_set_key)
    moreover have "avl lo"
      using avl_tree_at [of l "max_steps l"] avl_children(1) [OF avln] old(1) by simp
    ultimately have "avl (del_result ?u ?fs lo)"
      using fs avl by (intro avl_del_result) (simp_all add: set_key_same)
    moreover have "inorder (del_result ?u ?fs lo) = (xs @ inorder l) @ (inorder r @ ys)"
      using fs at by (simp add: inorder_del_result tree_set_set_key ctx old(2))
    ultimately show ?thesis using at False old(1) by (simp add: t'_def removed_def)
  qed
  have ord: "ordered ((xs @ inorder l) @ k # (inorder r @ ys))"
    using assms(1) unfolding search_tree_def t by blast
  moreover have "compar key k = 0" using search_steps_found [OF at] by blast
  ultimately show "inorder t' = filter (\<lambda>x. compar key x \<noteq> 0) (inorder t)"
    unfolding t using t' ordered_filter_middle by metis
  show "search_tree compar t'"
    using t' ordered_remove_middle [OF ord] by (simp add: search_tree_def)
qed

end


section \<open>Trees as search tables\<close>

definition tree_enter :: "('k \<Rightarrow> 'k \<Rightarrow> int) \<Rightarrow> path \<Rightarrow> 'k \<Rightarrow> 'k posix_tnode \<Rightarrow> 'k posix_tnode" where
  "tree_enter compar path key t =
     (case snd (tsearch compar True path key (Some t)) of None \<Rightarrow> t | Some t' \<Rightarrow> t')"

definition tree_remove :: "('k \<Rightarrow> 'k \<Rightarrow> int) \<Rightarrow> path \<Rightarrow> 'k \<Rightarrow> 'k posix_tnode \<Rightarrow> 'k posix_tnode" where
  "tree_remove compar path key t =
     (case snd (tdelete compar path key (Some t)) of None \<Rightarrow> t | Some t' \<Rightarrow> t')"

definition tree_invar :: "('k \<Rightarrow> 'k \<Rightarrow> int) \<Rightarrow> 'k posix_tnode \<Rightarrow> bool" where
  "tree_invar compar t \<longleftrightarrow> search_tree compar t \<and> fits t"

definition tree_room :: "'k posix_tnode \<Rightarrow> bool" where
  "tree_room t \<longleftrightarrow> length (inorder t) + 2 < 2 ^ 64"

context comparator
begin

lemma ordered_distinct:
  "ordered xs \<Longrightarrow> x \<in> set xs \<Longrightarrow> y \<in> set xs \<Longrightarrow> compar x y = 0 \<Longrightarrow> x = y"
proof (induction xs)
  case (Cons a xs)
  then show ?case using compar_zero_sym [of x y] by fastforce
qed simp

lemma tree_enter_cases:
  assumes "tree_invar compar t"
  obtains (found) "tfind_loop compar key t \<noteq> None" "tree_enter compar path key t = t"
  | (new) "tfind_loop compar key t = None" "search_tree compar (tree_enter compar path key t)"
      "set (inorder (tree_enter compar path key t)) = insert key (set (inorder t))"
      "length (inorder (tree_enter compar path key t)) = length (inorder t) + 1"
proof (cases "tree_at t (search_steps compar key t)")
  case NULL
  have "avl t" "fits t" using assms by (simp_all add: tree_invar_def search_tree_def)
  from tsearch_new [OF this NULL] search_tree_ins_result [OF _ NULL] assms NULL new show ?thesis
    by (simp add: tree_enter_def tfind_loop_eq tree_invar_def)
next
  case (Node k l r b)
  with tsearch_found [OF Node] found show ?thesis by (simp add: tree_enter_def tfind_loop_eq)
qed

lemma tree_remove_cases:
  assumes "tree_invar compar t"
  shows "search_tree compar (tree_remove compar path key t)"
    and "inorder (tree_remove compar path key t) = filter (\<lambda>x. compar key x \<noteq> 0) (inorder t)"
proof -
  have t: "avl t" "fits t" "search_tree compar t" "ordered (inorder t)"
    using assms by (simp_all add: tree_invar_def search_tree_def)
  show "search_tree compar (tree_remove compar path key t)"
    "inorder (tree_remove compar path key t) = filter (\<lambda>x. compar key x \<noteq> 0) (inorder t)"
  proof (atomize (full), cases "tree_at t (search_steps compar key t)")
    case NULL
    then have "tfind_loop compar key t = None" by (simp add: tfind_loop_eq)
    with tfind_loop_None [OF t(4)] have "filter (\<lambda>x. compar key x \<noteq> 0) (inorder t) = inorder t"
      by simp
    with tdelete_missing [OF NULL] t show "search_tree compar (tree_remove compar path key t) \<and>
      inorder (tree_remove compar path key t) = filter (\<lambda>x. compar key x \<noteq> 0) (inorder t)"
      by (simp add: tree_remove_def)
  next
    case (Node k l r b)
    with tdelete_found [OF t(1,2) Node] search_tree_removed [OF t(3) Node]
    show "search_tree compar (tree_remove compar path key t) \<and>
      inorder (tree_remove compar path key t) = filter (\<lambda>x. compar key x \<noteq> 0) (inorder t)"
      by (simp add: tree_remove_def)
  qed
qed

end

sublocale comparator \<subseteq> tree: deletable_table compar "tree_invar compar" tree_room
    "\<lambda>t. set (inorder t)" "\<lambda>q t. tfind compar q (Some t)" "tree_enter compar path"
    "tree_remove compar path"
  for path :: path
proof unfold_locales
  fix t q x k y
  assume t: "tree_invar compar t"
  then have ord: "ordered (inorder t)" by (simp add: tree_invar_def search_tree_def)
  show "tfind compar q (Some t) = Some x \<Longrightarrow> x \<in> set (inorder t) \<and> compar q x = 0"
    using tfind_loop_Some by (simp add: tfind_def)
  show "tfind compar q (Some t) = None \<Longrightarrow> x \<in> set (inorder t) \<Longrightarrow> compar q x \<noteq> 0"
    using tfind_loop_None [OF ord] by (simp add: tfind_def)
  show "x \<in> set (inorder t) \<Longrightarrow> y \<in> set (inorder t) \<Longrightarrow> compar x y = 0 \<Longrightarrow> x = y"
    using ord by (rule ordered_distinct)
  show "set (inorder (tree_enter compar path k t)) =
      (if tfind compar k (Some t) = None then insert k (set (inorder t)) else set (inorder t))"
    using t by (cases rule: tree_enter_cases [where key = k and path = path]) (auto simp: tfind_def)
  show "tree_room t \<Longrightarrow> tree_invar compar (tree_enter compar path k t)"
    by (cases rule: tree_enter_cases [OF t, where key = k and path = path])
      (use t in \<open>simp_all add: tree_invar_def tree_room_def fits_def\<close>)
  show "set (inorder (tree_remove compar path k t)) = {x \<in> set (inorder t). compar k x \<noteq> 0}"
    using tree_remove_cases(2) [OF t] by auto
  show "tree_invar compar (tree_remove compar path k t)"
    using tree_remove_cases [OF t, of path k] t
      le_less_trans [OF length_filter_le [of "\<lambda>x. compar k x \<noteq> 0" "inorder t"]]
    by (simp add: tree_invar_def fits_def)
qed

context comparator
begin

lemmas tree_lookup_enter = tree.lookup_enter
lemmas tree_lookup_remove = tree.lookup_remove

end

section \<open>Properties\<close>

lemma comparator_diff: "comparator (\<lambda>a b :: int. a - b)"
  by unfold_locales (auto simp: sgn_if)

text \<open>
  C1: \<open>tsearch()\<close> on a search tree returns the matching node if there is one and leaves the tree
  alone; otherwise it adds a node for the key, and the result is again an AVL search tree with
  exactly one more key. The 128 bits of \<open>struct path\<close> hold the descent of every tree that fits the
  address space.
\<close>
theorem tsearch_correct:
  assumes "comparator compar" and "search_tree compar t" and "fits t"
  shows "\<exists>k t'. tsearch compar True path key (Some t) = (Some k, Some t') \<and>
    search_tree compar t' \<and> compar key k = 0 \<and>
    (if tfind compar key (Some t) = None
     then k = key \<and> set (inorder t') = insert key (set (inorder t)) \<and>
          length (inorder t') = length (inorder t) + 1
     else t' = t \<and> tfind compar key (Some t) = Some k)"
proof (cases "tree_at t (search_steps compar key t)")
  case NULL
  then show ?thesis
    using comparator.tsearch_new [OF assms(1) _ assms(3) NULL, of path] assms(2)
      comparator.search_tree_ins_result [OF assms(1,2) NULL] comparator.compar_refl [OF assms(1)]
    by (simp add: search_tree_def tfind_def tfind_loop_eq)
next
  case (Node k l r b)
  then show ?thesis
    using comparator.tsearch_found [OF assms(1) Node, of True path] assms(2)
      comparator.search_steps_found [OF assms(1) Node]
    by (simp add: tfind_def tfind_loop_eq)
qed

theorem tsearch_correct_witness:
  "search_tree (\<lambda>a b :: int. a - b) (Node 5 (Node 3 NULL NULL 0) NULL 1) \<and>
   (\<exists>k t'. tsearch (\<lambda>a b :: int. a - b) True \<lparr>steps0 = 0, steps1 = 0, nsteps = 0\<rparr> 4
      (Some (Node 5 (Node 3 NULL NULL 0) NULL 1)) = (Some k, Some t') \<and>
    search_tree (\<lambda>a b :: int. a - b) t' \<and> k = 4 \<and> set (inorder t') = {3, 4, 5})"
proof -
  let ?t = "Node 5 (Node 3 NULL NULL 0) NULL (1 :: int) :: int posix_tnode"
  have "search_tree (\<lambda>a b :: int. a - b) ?t" "fits ?t"
    by (simp_all add: search_tree_def fits_def)
  with tsearch_correct [OF comparator_diff this, of "\<lparr>steps0 = 0, steps1 = 0, nsteps = 0\<rparr>" 4]
  show ?thesis by (auto simp: tfind_def)
qed

text \<open>
  C2: \<open>tdelete()\<close> removes exactly the key that matches and leaves an AVL search tree of the other
  keys in their order; it returns a null pointer and changes nothing when no key matches, and
  otherwise the parent of the node found, or the pointer \<open>1\<close> when that node was the root.
\<close>
theorem tdelete_correct:
  assumes "comparator compar" and "search_tree compar t" and "fits t"
  shows "\<exists>res t'. tdelete compar path key (Some t) = (res, Some t') \<and> search_tree compar t' \<and>
    inorder t' = filter (\<lambda>x. compar key x \<noteq> 0) (inorder t) \<and>
    (res = Ret_NULL \<longleftrightarrow> tfind compar key (Some t) = None) \<and>
    (res = Ret_1 \<longleftrightarrow> t \<noteq> NULL \<and> compar key (tkey t) = 0)"
proof (cases "tree_at t (search_steps compar key t)")
  case NULL
  have t: "avl t" "sorted_wrt (\<lambda>a b. compar a b < 0) (inorder t)" "tfind_loop compar key t = None"
    using assms(2) NULL by (simp_all add: search_tree_def tfind_loop_eq)
  then have none: "\<forall>k \<in> set (inorder t). compar key k \<noteq> 0"
    using comparator.tfind_loop_None [OF assms(1) t(2), of key] by simp
  then have "filter (\<lambda>x. compar key x \<noteq> 0) (inorder t) = inorder t" by simp
  moreover have "t \<noteq> NULL \<Longrightarrow> compar key (tkey t) \<noteq> 0"
    using none by (cases t) auto
  ultimately show ?thesis
    using comparator.tdelete_missing [OF assms(1) NULL, of path] assms(2) t(3) by (auto simp: tfind_def)
next
  case (Node k l r b)
  have "search_steps compar key t = [] \<longleftrightarrow> t \<noteq> NULL \<and> compar key (tkey t) = 0"
    using Node by (cases t) auto
  then show ?thesis
    using comparator.tdelete_found [OF assms(1) _ assms(3) Node, of path] assms(2)
      comparator.search_tree_removed [OF assms(1,2) Node] Node
    by (auto simp: search_tree_def tfind_def tfind_loop_eq parent_result_def)
qed

theorem tdelete_correct_witness:
  "\<exists>res t'. tdelete (\<lambda>a b :: int. a - b) \<lparr>steps0 = 0, steps1 = 0, nsteps = 0\<rparr> 5
      (Some (Node 5 (Node 3 NULL NULL 0) NULL 1)) = (res, Some t') \<and>
    search_tree (\<lambda>a b :: int. a - b) t' \<and> inorder t' = [3] \<and> res = Ret_1"
proof -
  let ?t = "Node 5 (Node 3 NULL NULL 0) NULL (1 :: int) :: int posix_tnode"
  have "search_tree (\<lambda>a b :: int. a - b) ?t" "fits ?t"
    by (simp_all add: search_tree_def fits_def)
  with tdelete_correct [OF comparator_diff this, of "\<lparr>steps0 = 0, steps1 = 0, nsteps = 0\<rparr>" 5]
  show ?thesis by auto
qed

text \<open>
  C22: \<open>tfind()\<close> sees what \<open>tsearch()\<close> and \<open>tdelete()\<close> did: after entering \<open>k\<close> a matching key finds
  the node that was there before or the new one, after deleting \<open>k\<close> a matching key finds nothing,
  and the lookup of every other key is unchanged.
\<close>
theorem tfind_after_update:
  assumes "comparator compar" and "tree_invar compar t" and "tree_room t"
  shows "tfind compar q (Some (tree_enter compar path k t)) =
      (if compar q k = 0 then
         (case tfind compar k (Some t) of None \<Rightarrow> Some k | Some x \<Rightarrow> Some x)
       else tfind compar q (Some t)) \<and>
    tfind compar q (Some (tree_remove compar path k t)) =
      (if compar q k = 0 then None else tfind compar q (Some t))"
  using comparator.tree_lookup_enter [OF assms(1), of t] comparator.tree_lookup_remove [OF assms(1), of t]
    assms(2,3) by blast

theorem tfind_after_update_witness:
  "tfind (\<lambda>a b :: int. a - b) 3 (Some (tree_enter (\<lambda>a b. a - b)
     \<lparr>steps0 = 0, steps1 = 0, nsteps = 0\<rparr> 3 (Node 5 NULL NULL 0))) = Some 3"
proof -
  let ?t = "Node 5 NULL NULL 0 :: int posix_tnode"
  have "tree_invar (\<lambda>a b :: int. a - b) ?t" "tree_room ?t"
    by (simp_all add: tree_invar_def tree_room_def search_tree_def fits_def)
  with tfind_after_update [OF comparator_diff this, of 3 "\<lparr>steps0 = 0, steps1 = 0, nsteps = 0\<rparr>" 3]
  show ?thesis by (simp add: tfind_def)
qed

lemma twalk_recurse_visits:
  "map fst (filter (\<lambda>(k, v, n). v = postorder \<or> v = visit.leaf) (twalk_recurse t lvl)) = inorder t"
  by (induction t arbitrary: lvl) auto

lemma twalk_recurse_levels:
  "(k, v, n) \<in> set (twalk_recurse t lvl) \<Longrightarrow> lvl \<le> n \<and> n < lvl + height t"
  by (induction t arbitrary: lvl) (auto split: if_splits, fastforce+)

text \<open>
  \<open>twalk()\<close> visits the tree in order: its \<open>postorder\<close> and \<open>leaf\<close> calls list the keys in the
  order of the tree, and the level it passes is a depth of the tree.
\<close>
theorem twalk_inorder:
  "map fst (filter (\<lambda>(k, v, n). v = postorder \<or> v = visit.leaf) (twalk t)) = tdestroy t \<and>
   {n. \<exists>k v. (k, v, n) \<in> set (twalk t)} \<subseteq> {..< height t}"
  using twalk_recurse_visits [of t 0] twalk_recurse_levels [of _ _ _ t 0]
  by (auto simp: twalk_def)

end
