(* ===== verification/Memory.thy ===== *)
theory Memory
  imports Prelude
begin

text \<open>
  Byte-addressed memory for the string routines of \<^verbatim>\<open>libc/string\<close>: a memory maps addresses
  to bytes, an \<open>unsigned long\<close> is loaded from and stored to eight consecutive bytes with the
  least significant byte first, and a C string is a run of non-null bytes that ends in a null
  byte. The helpers of \<^verbatim>\<open>string_impl.h\<close> that look at a whole word at a time are modelled
  here, together with the facts that connect them to the individual bytes. Addresses and sizes
  are natural numbers: no object spans the end of the address space.
\<close>

type_synonym mem = "nat \<Rightarrow> u8"

section \<open>Words in memory\<close>

text \<open>\<open>bytes_at\<close> are the bytes of \<open>[p, p + n)\<close>.\<close>

definition bytes_at :: "mem \<Rightarrow> nat \<Rightarrow> nat \<Rightarrow> u8 list" where
  "bytes_at m p n = map m [p..<p + n]"

definition load_long :: "mem \<Rightarrow> nat \<Rightarrow> u64" where
  "load_long m p = word_of_int (horner_sum uint 256 (bytes_at m p 8))"

definition store_long :: "mem \<Rightarrow> nat \<Rightarrow> u64 \<Rightarrow> mem" where
  "store_long m p w = (\<lambda>a. if p \<le> a \<and> a < p + 8 then ucast (drop_bit (8 * (a - p)) w) else m a)"

definition LONG_STRING_SIZE :: nat where
  "LONG_STRING_SIZE = 32"

definition is_long_aligned :: "nat \<Rightarrow> bool" where
  "is_long_aligned p = (p mod 8 = 0)"

definition is_long_aligned_equally :: "nat \<Rightarrow> nat \<Rightarrow> bool" where
  "is_long_aligned_equally a b = (a mod 8 = b mod 8)"

definition construct_chars :: "u8 \<Rightarrow> u64" where
  "construct_chars c = fold (\<lambda>s cl. cl OR push_bit s cl) [8, 16, 32] (ucast c)"

definition contains_nullbyte :: "u64 \<Rightarrow> bool" where
  "contains_nullbyte v = ((v - construct_chars 1) AND NOT v AND construct_chars 0x80 \<noteq> 0)"

text \<open>The string \<open>xs\<close>, without its terminator, is stored at \<open>p\<close>.\<close>

fun cstr_at :: "mem \<Rightarrow> nat \<Rightarrow> u8 list \<Rightarrow> bool" where
  "cstr_at m p [] = (m p = 0)"
| "cstr_at m p (x # xs) = (m p = x \<and> x \<noteq> 0 \<and> cstr_at m (p + 1) xs)"

text \<open>A memory with a run of bytes replaced.\<close>

definition put_bytes :: "mem \<Rightarrow> nat \<Rightarrow> u8 list \<Rightarrow> mem" where
  "put_bytes m p xs = (\<lambda>a. if p \<le> a \<and> a < p + length xs then xs ! (a - p) else m a)"

section \<open>Bytes and runs of bytes\<close>

lemma length_bytes_at [simp]: "length (bytes_at m p n) = n"
  by (simp add: bytes_at_def)

lemma bytes_at_0 [simp]: "bytes_at m p 0 = []"
  by (simp add: bytes_at_def)

lemma bytes_at_Suc: "bytes_at m p (Suc n) = m p # bytes_at m (Suc p) n"
  by (simp add: bytes_at_def upt_rec)

lemma bytes_at_snoc: "bytes_at m p (Suc n) = bytes_at m p n @ [m (p + n)]"
  by (simp add: bytes_at_def)

lemma bytes_at_add: "bytes_at m p (a + b) = bytes_at m p a @ bytes_at m (p + a) b"
  by (induction a arbitrary: p) (simp_all add: bytes_at_Suc)

lemma nth_bytes_at [simp]: "i < n \<Longrightarrow> bytes_at m p n ! i = m (p + i)"
  by (simp add: bytes_at_def)

lemma put_bytes_Nil [simp]: "put_bytes m p [] = m"
  by (auto simp: put_bytes_def fun_eq_iff)

lemma put_bytes_Cons: "put_bytes m p (x # xs) = put_bytes (m(p := x)) (Suc p) xs"
  by (auto simp: put_bytes_def fun_eq_iff nth_Cons' Suc_le_eq)

lemma put_bytes_append: "put_bytes m p (xs @ ys) = put_bytes (put_bytes m p xs) (p + length xs) ys"
  by (induction xs arbitrary: m p) (simp_all add: put_bytes_Cons)

lemma put_bytes_snoc: "put_bytes m p (xs @ [x]) = (put_bytes m p xs)(p + length xs := x)"
  by (simp add: put_bytes_append put_bytes_Cons)

lemma put_bytes_outside [simp]: "a < p \<or> p + length xs \<le> a \<Longrightarrow> put_bytes m p xs a = m a"
  by (auto simp: put_bytes_def)

lemma put_bytes_inside: "i < length xs \<Longrightarrow> put_bytes m p xs (p + i) = xs ! i"
  by (simp add: put_bytes_def)

lemma put_bytes_upd_commute:
  "a < p \<or> p + length xs \<le> a \<Longrightarrow> (put_bytes m p xs)(a := v) = put_bytes (m(a := v)) p xs"
  by (auto simp: put_bytes_def fun_eq_iff)

lemma bytes_at_put_bytes [simp]: "bytes_at (put_bytes m p xs) p (length xs) = xs"
  by (rule nth_equalityI) (simp_all add: put_bytes_inside)

lemma bytes_at_cong: "(\<And>a. p \<le> a \<Longrightarrow> a < p + n \<Longrightarrow> m a = m' a) \<Longrightarrow> bytes_at m p n = bytes_at m' p n"
  by (simp add: bytes_at_def)

lemma bytes_at_upd_outside [simp]:
  "a < p \<or> p + n \<le> a \<Longrightarrow> bytes_at (m(a := v)) p n = bytes_at m p n"
  by (rule bytes_at_cong) auto

lemma store_long_put_bytes:
  "store_long m p w = put_bytes m p (map (\<lambda>i. ucast (drop_bit (8 * i) w)) [0..<8])"
  by (auto simp: store_long_def put_bytes_def fun_eq_iff)

section \<open>Words and their bytes\<close>

lemma bit_load_long:
  "bit (load_long m p) n \<longleftrightarrow> n < 64 \<and> bit (m (p + n div 8)) (n mod 8)"
proof (cases "n < 64")
  case True
  then have "n div 8 < 8" by auto
  moreover have "bit (horner_sum uint 256 (bytes_at m p 8) :: int) n
      \<longleftrightarrow> n div 8 < 8 \<and> bit (bytes_at m p 8 ! (n div 8)) (n mod 8)"
    using bit_horner_sum_uint_exp_iff [of "bytes_at m p 8" n] by simp
  ultimately show ?thesis using True by (simp add: load_long_def bit_word_of_int_iff)
next
  case False
  then show ?thesis using bit_imp_le_length [of "load_long m p" n] by auto
qed

lemma ucast_drop_bit_load_long:
  assumes "i < 8"
  shows "(ucast (drop_bit (8 * i) (load_long m p)) :: u8) = m (p + i)"
proof (rule bit_word_eqI)
  fix n assume n: "n < LENGTH(8)"
  have "(8 * i + n) div 8 = i" "(8 * i + n) mod 8 = n" "8 * i + n < 64"
    using n assms by auto
  then show "bit (ucast (drop_bit (8 * i) (load_long m p)) :: u8) n = bit (m (p + i)) n"
    using n assms by (simp add: bit_load_long bit_ucast_iff bit_drop_bit_eq)
qed

text \<open>Copying a word copies its eight bytes.\<close>

lemma store_load_long: "store_long m p (load_long m' q) = put_bytes m p (bytes_at m' q 8)"
proof -
  have "map (\<lambda>i. ucast (drop_bit (8 * i) (load_long m' q)) :: u8) [0..<8] = bytes_at m' q 8"
    by (rule nth_equalityI) (simp_all add: ucast_drop_bit_load_long)
  then show ?thesis by (simp add: store_long_put_bytes)
qed

lemma load_long_eq_iff: "load_long m p = load_long m' q \<longleftrightarrow> bytes_at m p 8 = bytes_at m' q 8"
proof
  assume eq: "load_long m p = load_long m' q"
  show "bytes_at m p 8 = bytes_at m' q 8"
    by (rule nth_equalityI) (simp_all add: eq flip: ucast_drop_bit_load_long)
qed (simp add: load_long_def)

lemma bit_double:
  fixes x :: u64
  assumes x: "\<And>n. bit x n \<longleftrightarrow> n < s \<and> bit (c :: u8) (n mod 8)" and s: "s mod 8 = 0" "s \<le> 32"
  shows "bit (x OR push_bit s x) n \<longleftrightarrow> n < 2 * s \<and> bit c (n mod 8)"
proof -
  have "(n - s) mod 8 = n mod 8" if "s \<le> n"
  proof -
    obtain k where "s = 8 * k" using s(1) by (auto simp: mod_eq_0_iff_dvd)
    moreover obtain d where "n = s + d" using \<open>s \<le> n\<close> le_Suc_ex by blast
    ultimately show ?thesis by simp
  qed
  then show ?thesis using s by (auto simp: bit_or_iff bit_push_bit_iff x)
qed

lemma bit_construct_chars: "bit (construct_chars c) n \<longleftrightarrow> n < 64 \<and> bit c (n mod 8)"
proof -
  have 0: "bit (ucast c :: u64) n \<longleftrightarrow> n < 8 \<and> bit c (n mod 8)" for n
    using bit_imp_le_length [of c n] by (auto simp: bit_ucast_iff)
  show ?thesis
    using bit_double [OF bit_double [OF bit_double [OF 0]], of n] by (simp add: construct_chars_def del: push_bit_numeral)
qed

lemma ucast_drop_bit_construct_chars:
  assumes "i < 8"
  shows "(ucast (drop_bit (8 * i) (construct_chars c)) :: u8) = c"
proof (rule bit_word_eqI)
  fix n assume n: "n < LENGTH(8)"
  have "(8 * i + n) mod 8 = n" "8 * i + n < 64" using n assms by auto
  then show "bit (ucast (drop_bit (8 * i) (construct_chars c)) :: u8) n = bit c n"
    using n by (simp add: bit_construct_chars bit_ucast_iff bit_drop_bit_eq)
qed

lemma store_construct_chars: "store_long m p (construct_chars c) = put_bytes m p (replicate 8 c)"
proof -
  have "map (\<lambda>i. ucast (drop_bit (8 * i) (construct_chars c)) :: u8) [0..<8] = replicate 8 c"
    by (rule nth_equalityI) (simp_all add: ucast_drop_bit_construct_chars)
  then show ?thesis by (simp add: store_long_put_bytes)
qed

text \<open>
  The borrow of the subtraction in \<open>contains_nullbyte()\<close> only leaves a byte that is null, so
  the lowest byte in which the test finds a bit is the first null byte.
\<close>

definition ones :: "nat \<Rightarrow> int" where
  "ones n = horner_sum id 256 (replicate n 1)"

definition highs :: "nat \<Rightarrow> int" where
  "highs n = horner_sum id 256 (replicate n 128)"

lemma ones_8: "ones 8 = 0x0101010101010101"
  by (simp add: ones_def eval_nat_numeral)

lemma highs_8: "highs 8 = 0x8080808080808080"
  by (simp add: highs_def eval_nat_numeral)

lemma drop_bit_not_int: "drop_bit n (NOT (x :: int)) = NOT (drop_bit n x)"
  by (simp add: bit_eq_iff bit_drop_bit_eq bit_not_iff)

lemma int_eq_0_split: "(x :: int) = 0 \<longleftrightarrow> take_bit 8 x = 0 \<and> drop_bit 8 x = 0"
proof
  assume "take_bit 8 x = 0 \<and> drop_bit 8 x = 0"
  then have "x mod 256 = 0" "x div 256 = 0" by (simp_all add: take_bit_eq_mod drop_bit_eq_div)
  then show "x = 0" using div_mult_mod_eq [of x 256] by linarith
qed simp

lemma take_bit_8_low: "0 \<le> b \<Longrightarrow> b < 256 \<Longrightarrow> take_bit 8 (b + 256 * v :: int) = b"
  by (simp add: take_bit_eq_mod)

lemma drop_bit_8_high: "0 \<le> b \<Longrightarrow> b < 256 \<Longrightarrow> drop_bit 8 (b + 256 * v :: int) = v"
  by (simp add: drop_bit_eq_div)

lemma byte_test_low:
  assumes "0 < b" "b < 256"
  shows "take_bit 8 ((b - 1) AND NOT b AND 128 :: int) = 0"
proof (cases "b < 128")
  case True
  then have "\<not> bit (b - 1) 7" using assms by (simp add: bit_iff_odd)
  then have "(b - 1) AND 128 = 0" using and_exp_eq_0_iff_not_bit [of "b - 1" 7] by simp
  then have "(b - 1) AND (NOT b AND 128) = 0" by (simp add: and.left_commute)
  then show ?thesis by (simp add: and.assoc)
next
  case False
  then have "b div 128 = 1" using assms by simp
  then have "bit b 7" by (simp add: bit_iff_odd)
  then have "NOT b AND 128 = 0" using and_exp_eq_0_iff_not_bit [of "NOT b" 7] by (simp add: bit_not_iff)
  then show ?thesis by (simp add: and.assoc)
qed

lemma null_test_zero: "(- 1 + 256 * x) AND NOT (256 * v) AND (128 + 256 * h) \<noteq> (0 :: int)"
proof -
  have "take_bit 8 (- 1 + 256 * x) = (255 :: int)"
    using take_bit_8_low [of 255 "x - 1"] by (simp add: algebra_simps)
  moreover have "NOT (256 * v) = 255 + 256 * (- v - 1)"
    by (simp add: not_eq_complement)
  then have "take_bit 8 (NOT (256 * v)) = (255 :: int)"
    using take_bit_8_low [of 255 "- v - 1"] by simp
  moreover have "take_bit 8 (128 + 256 * h) = (128 :: int)"
    by (simp add: take_bit_8_low)
  ultimately have "take_bit 8 ((- 1 + 256 * x) AND NOT (256 * v) AND (128 + 256 * h)) = (128 :: int)"
    unfolding take_bit_and by simp
  then show ?thesis by (metis take_bit_of_0 zero_neq_numeral)
qed

lemma null_test_step:
  assumes b: "0 < b" "b < 256"
  shows "(b - 1 + 256 * x) AND NOT (b + 256 * v) AND (128 + 256 * h) = (0 :: int)
    \<longleftrightarrow> x AND NOT v AND h = 0"
proof -
  have b0: "0 \<le> b" and b1: "0 \<le> b - 1" "b - 1 < 256" using b by linarith+
  let ?X = "(b - 1 + 256 * x) AND NOT (b + 256 * v) AND (128 + 256 * h)"
  have "take_bit 8 (b - 1 + 256 * x) = take_bit 8 (b - 1)"
    by (simp only: take_bit_8_low [OF b1] take_bit_int_eq_self [of "b - 1" 8] b1) (simp add: b1 b take_bit_int_eq_self)
  moreover have "take_bit 8 (NOT (b + 256 * v)) = take_bit 8 (NOT b)"
    using take_bit_8_low [OF b0 b(2)] take_bit_8_low [OF b0 b(2), of 0] by (simp add: take_bit_not_iff)
  moreover have "take_bit 8 (128 + 256 * h) = take_bit 8 (128 :: int)"
    by (simp add: take_bit_8_low)
  ultimately have "take_bit 8 ?X = take_bit 8 ((b - 1) AND NOT b AND 128)"
    by (simp only: take_bit_and)
  then have low: "take_bit 8 ?X = 0" by (simp only: byte_test_low [OF b])
  have "drop_bit 8 (128 + 256 * h) = h" by (rule drop_bit_8_high) simp_all
  then have "drop_bit 8 ?X = x AND NOT v AND h"
    by (simp only: drop_bit_and drop_bit_not_int drop_bit_8_high [OF b1] drop_bit_8_high [OF b0 b(2)])
  then show ?thesis using low int_eq_0_split [of ?X] by metis
qed

lemma null_test_bytes:
  "(horner_sum uint 256 (bs :: u8 list) - ones (length bs)) AND NOT (horner_sum uint 256 bs)
     AND highs (length bs) = 0 \<longleftrightarrow> 0 \<notin> set bs"
proof (induction bs)
  case Nil
  show ?case by (simp add: ones_def highs_def)
next
  case (Cons b bs)
  let ?b = "uint b" and ?v = "horner_sum uint 256 bs :: int"
  have b: "0 \<le> ?b" "?b < 256" using uint_lt2p [of b] by simp_all
  have exp: "horner_sum uint 256 (b # bs) - ones (length (b # bs)) = (?b - 1) + 256 * (?v - ones (length bs))"
    "highs (length (b # bs)) = 128 + 256 * highs (length bs)" "horner_sum uint 256 (b # bs) = ?b + 256 * ?v"
    by (simp_all add: ones_def highs_def)
  show ?case
  proof (cases "b = 0")
    case True
    then have u: "?b - 1 = - 1" "?b + 256 * ?v = 256 * ?v" by simp_all
    have "(0 :: u8) \<in> set (b # bs)" using True by simp
    then show ?thesis
      using null_test_zero [of "?v - ones (length bs)" ?v "highs (length bs)"] unfolding exp(1,2) unfolding exp(3) u by blast
  next
    case False
    then have "0 < ?b" using b(1) uint_0_iff [of b] by linarith
    then show ?thesis
      unfolding exp(1,2) unfolding exp(3) null_test_step [OF \<open>0 < ?b\<close> b(2)] Cons.IH using False by simp
  qed
qed

lemma word_of_int_eq_0:
  assumes "0 \<le> x" "x < 2 ^ 64"
  shows "(word_of_int x :: u64) = 0 \<longleftrightarrow> x = 0"
proof -
  have "uint (word_of_int x :: u64) = x"
    using assms by (simp add: uint_word_of_int_eq take_bit_int_eq_self)
  then show ?thesis by (metis uint_0_eq word_of_int_0)
qed

lemma contains_nullbyte_bytes: "contains_nullbyte (load_long m p) \<longleftrightarrow> 0 \<in> set (bytes_at m p 8)"
proof -
  let ?bs = "bytes_at m p 8"
  let ?v = "horner_sum uint 256 ?bs :: int"
  have c: "construct_chars 1 = 0x0101010101010101" "construct_chars 128 = 0x8080808080808080"
    by (simp_all add: construct_chars_def)
  let ?x = "(?v - ones 8) AND NOT ?v AND highs 8"
  have h0: "(0 :: int) \<le> highs 8" "highs 8 < 2 ^ 64" unfolding highs_8 by simp_all
  have n0: "0 \<le> NOT ?v AND highs 8" using h0(1) by simp
  then have x: "0 \<le> ?x" by simp
  have "?x \<le> NOT ?v AND highs 8" using n0 by (rule AND_upper2)
  also have "\<dots> \<le> highs 8" using h0(1) by (rule AND_upper2)
  also note h0(2)
  finally have x': "?x < 2 ^ 64" .
  have "construct_chars 1 = word_of_int (ones 8)" "construct_chars 128 = word_of_int (highs 8)"
    unfolding c ones_8 highs_8 by simp_all
  then have 1: "(load_long m p - construct_chars 1) AND NOT (load_long m p) AND construct_chars 128
      = (word_of_int ?x :: u64)"
    by (simp only: load_long_def wi_hom_sub word_wi_log_defs)
  have 2: "(word_of_int ?x :: u64) = 0 \<longleftrightarrow> ?x = 0"
    using x x' by (rule word_of_int_eq_0)
  have "?x = 0 \<longleftrightarrow> 0 \<notin> set ?bs"
    using null_test_bytes [of ?bs] unfolding length_bytes_at .
  then show ?thesis unfolding contains_nullbyte_def 1 2 by blast
qed

end
