(* ===== verification/Strings.thy ===== *)
theory Strings
  imports Memory "HOL-Library.Monad_Syntax"
begin

text \<open>
  The routines of \<^verbatim>\<open>libc/string\<close> and the byte sets of \<^verbatim>\<open>common/byteset.h\<close>, over the
  memory of theory Memory. A loop that only a terminator ends is a \<open>partial_function\<close> into
  \<open>option\<close>, so that a string that is not terminated makes the routine diverge (\<open>None\<close>); the
  lemmas prove that on strings the routines return. Routines that write return the new memory.
  The word-at-a-time fast paths and the alignment loops in front of them are modelled as written.
\<close>

section \<open>Byte sets\<close>

type_synonym byteset_t = "u64 list"

definition byteemptyset :: byteset_t where
  "byteemptyset = replicate 4 0"

definition bytefillset :: byteset_t where
  "bytefillset = replicate 4 (- 1)"

definition byteaddset :: "byteset_t \<Rightarrow> u8 \<Rightarrow> byteset_t" where
  "byteaddset bs c =
     bs[unat c div 64 := bs ! (unat c div 64) OR push_bit (unat c mod 64) 1]"

definition bytedelset :: "byteset_t \<Rightarrow> u8 \<Rightarrow> byteset_t" where
  "bytedelset bs c =
     bs[unat c div 64 := bs ! (unat c div 64) AND NOT (push_bit (unat c mod 64) 1)]"

definition byteismember :: "byteset_t \<Rightarrow> u8 \<Rightarrow> bool" where
  "byteismember bs c = (bs ! (unat c div 64) AND push_bit (unat c mod 64) 1 \<noteq> 0)"

section \<open>Scanning\<close>

text \<open>The loop \<open>while (P(*s)) ++s;\<close> of many routines.\<close>

partial_function (option) scan_while :: "(u8 \<Rightarrow> bool) \<Rightarrow> mem \<Rightarrow> nat \<Rightarrow> nat option" where
  "scan_while P m s = (if P (m s) then scan_while P m (s + 1) else Some s)"

lemma align_measure: "\<not> is_long_aligned p \<Longrightarrow> (8 - Suc p mod 8) mod 8 < (8 - p mod 8) mod 8"
  using mod_less_divisor [of 8 p] by (simp add: is_long_aligned_def mod_Suc) linarith

function strlen_align :: "mem \<Rightarrow> nat \<Rightarrow> nat \<Rightarrow> nat + nat" where
  "strlen_align m s eb =
     (if is_long_aligned eb then Inr eb
      else if m eb = 0 then Inl (eb - s)
      else strlen_align m s (Suc eb))"
  by pat_completeness auto
termination by (relation "measure (\<lambda>(m, s, p). (8 - p mod 8) mod 8)") (simp_all add: align_measure)

partial_function (option) strlen_longs :: "mem \<Rightarrow> nat \<Rightarrow> nat option" where
  "strlen_longs m el =
     (if \<not> contains_nullbyte (load_long m el) then strlen_longs m (el + 8) else Some el)"

definition strlen :: "mem \<Rightarrow> nat \<Rightarrow> nat option" where
  "strlen m s =
     (case strlen_align m s s of
        Inl n \<Rightarrow> Some n
      | Inr eb \<Rightarrow>
          do { el \<leftarrow> strlen_longs m eb;
               eb \<leftarrow> scan_while (\<lambda>c. c \<noteq> 0) m el;
               Some (eb - s) })"

function strnlen_align :: "mem \<Rightarrow> nat \<Rightarrow> nat \<Rightarrow> nat \<Rightarrow> nat + nat \<times> nat" where
  "strnlen_align m s eb maxlen =
     (if is_long_aligned eb then Inr (eb, maxlen)
      else if maxlen = 0 \<or> m eb = 0 then Inl (eb - s)
      else strnlen_align m s (Suc eb) (maxlen - 1))"
  by pat_completeness auto
termination by (relation "measure (\<lambda>(m, s, p, n). (8 - p mod 8) mod 8)") (simp_all add: align_measure)

fun strnlen_longs :: "mem \<Rightarrow> nat \<Rightarrow> nat \<Rightarrow> nat \<times> nat" where
  "strnlen_longs m el maxlen =
     (if maxlen \<ge> 8 \<and> \<not> contains_nullbyte (load_long m el) then strnlen_longs m (el + 8) (maxlen - 8)
      else (el, maxlen))"

fun strnlen_bytes :: "mem \<Rightarrow> nat \<Rightarrow> nat \<Rightarrow> nat" where
  "strnlen_bytes m eb 0 = eb"
| "strnlen_bytes m eb (Suc n) = (if m eb \<noteq> 0 then strnlen_bytes m (eb + 1) n else eb)"

definition strnlen :: "mem \<Rightarrow> nat \<Rightarrow> nat \<Rightarrow> nat" where
  "strnlen m s maxlen =
     (case strnlen_align m s s maxlen of
        Inl n \<Rightarrow> n
      | Inr (eb, maxlen) \<Rightarrow>
          (case strnlen_longs m eb maxlen of (el, maxlen) \<Rightarrow> strnlen_bytes m el maxlen - s))"

section \<open>Comparing\<close>

text \<open>\<open>(int)c1 - (int)c2\<close> on \<open>unsigned char\<close>s.\<close>

definition byte_diff :: "u8 \<Rightarrow> u8 \<Rightarrow> int" where
  "byte_diff c1 c2 = uint c1 - uint c2"

function memcmp_align :: "mem \<Rightarrow> nat \<Rightarrow> nat \<Rightarrow> nat \<Rightarrow> int + nat \<times> nat \<times> nat" where
  "memcmp_align m sb1 sb2 n =
     (if is_long_aligned sb1 then Inr (sb1, sb2, n)
      else if m sb1 \<noteq> m sb2 then Inl (byte_diff (m sb1) (m sb2))
      else memcmp_align m (Suc sb1) (Suc sb2) (n - 1))"
  by pat_completeness auto
termination by (relation "measure (\<lambda>(m, p, q, n). (8 - p mod 8) mod 8)") (simp_all add: align_measure)

fun memcmp_longs :: "mem \<Rightarrow> nat \<Rightarrow> nat \<Rightarrow> nat \<Rightarrow> nat \<times> nat \<times> nat" where
  "memcmp_longs m sl1 sl2 n =
     (if n \<ge> 8 \<and> load_long m sl1 = load_long m sl2 then memcmp_longs m (sl1 + 8) (sl2 + 8) (n - 8)
      else (sl1, sl2, n))"

fun memcmp_bytes :: "mem \<Rightarrow> nat \<Rightarrow> nat \<Rightarrow> nat \<Rightarrow> int" where
  "memcmp_bytes m sb1 sb2 0 = 0"
| "memcmp_bytes m sb1 sb2 (Suc n) =
     (if m sb1 \<noteq> m sb2 then byte_diff (m sb1) (m sb2) else memcmp_bytes m (Suc sb1) (Suc sb2) n)"

definition memcmp :: "mem \<Rightarrow> nat \<Rightarrow> nat \<Rightarrow> nat \<Rightarrow> int" where
  "memcmp m s1 s2 n =
     (if n \<ge> LONG_STRING_SIZE \<and> is_long_aligned_equally s1 s2 then
        (case memcmp_align m s1 s2 n of
           Inl r \<Rightarrow> r
         | Inr (sb1, sb2, n) \<Rightarrow>
             (case memcmp_longs m sb1 sb2 n of (sl1, sl2, n) \<Rightarrow> memcmp_bytes m sl1 sl2 n))
      else memcmp_bytes m s1 s2 n)"

function strcmp_align :: "mem \<Rightarrow> nat \<Rightarrow> nat \<Rightarrow> int + nat \<times> nat" where
  "strcmp_align m sb1 sb2 =
     (if is_long_aligned sb1 then Inr (sb1, sb2)
      else if m sb1 \<noteq> m sb2 then Inl (byte_diff (m sb1) (m sb2))
      else if m sb1 = 0 then Inl 0
      else strcmp_align m (Suc sb1) (Suc sb2))"
  by pat_completeness auto
termination by (relation "measure (\<lambda>(m, p, q). (8 - p mod 8) mod 8)") (simp_all add: align_measure)

partial_function (option) strcmp_longs :: "mem \<Rightarrow> nat \<Rightarrow> nat \<Rightarrow> (nat \<times> nat) option" where
  "strcmp_longs m sl1 sl2 =
     (if load_long m sl1 = load_long m sl2 \<and> \<not> contains_nullbyte (load_long m sl1)
      then strcmp_longs m (sl1 + 8) (sl2 + 8) else Some (sl1, sl2))"

partial_function (option) strcmp_bytes :: "mem \<Rightarrow> nat \<Rightarrow> nat \<Rightarrow> int option" where
  "strcmp_bytes m sb1 sb2 =
     (if m sb1 \<noteq> m sb2 then Some (byte_diff (m sb1) (m sb2))
      else if m sb1 = 0 then Some 0
      else strcmp_bytes m (sb1 + 1) (sb2 + 1))"

definition strcmp :: "mem \<Rightarrow> nat \<Rightarrow> nat \<Rightarrow> int option" where
  "strcmp m sb1 sb2 =
     (if is_long_aligned_equally sb1 sb2 then
        (case strcmp_align m sb1 sb2 of
           Inl r \<Rightarrow> Some r
         | Inr (sb1, sb2) \<Rightarrow>
             do { (sl1, sl2) \<leftarrow> strcmp_longs m sb1 sb2; strcmp_bytes m sl1 sl2 })
      else strcmp_bytes m sb1 sb2)"

function strncmp_align :: "mem \<Rightarrow> nat \<Rightarrow> nat \<Rightarrow> nat \<Rightarrow> int + nat \<times> nat \<times> nat" where
  "strncmp_align m sb1 sb2 n =
     (if is_long_aligned sb1 then Inr (sb1, sb2, n)
      else if m sb1 \<noteq> m sb2 then Inl (byte_diff (m sb1) (m sb2))
      else if m sb1 = 0 then Inl 0
      else strncmp_align m (Suc sb1) (Suc sb2) (n - 1))"
  by pat_completeness auto
termination by (relation "measure (\<lambda>(m, p, q, n). (8 - p mod 8) mod 8)") (simp_all add: align_measure)

fun strncmp_longs :: "mem \<Rightarrow> nat \<Rightarrow> nat \<Rightarrow> nat \<Rightarrow> nat \<times> nat \<times> nat" where
  "strncmp_longs m sl1 sl2 n =
     (if n \<ge> 8 \<and> load_long m sl1 = load_long m sl2 \<and> \<not> contains_nullbyte (load_long m sl1)
      then strncmp_longs m (sl1 + 8) (sl2 + 8) (n - 8) else (sl1, sl2, n))"

fun strncmp_bytes :: "mem \<Rightarrow> nat \<Rightarrow> nat \<Rightarrow> nat \<Rightarrow> int" where
  "strncmp_bytes m sb1 sb2 0 = 0"
| "strncmp_bytes m sb1 sb2 (Suc n) =
     (if m sb1 \<noteq> m sb2 then byte_diff (m sb1) (m sb2)
      else if m sb1 = 0 then 0
      else strncmp_bytes m (Suc sb1) (Suc sb2) n)"

definition strncmp :: "mem \<Rightarrow> nat \<Rightarrow> nat \<Rightarrow> nat \<Rightarrow> int" where
  "strncmp m s1 s2 n =
     (if n \<ge> LONG_STRING_SIZE \<and> is_long_aligned_equally s1 s2 then
        (case strncmp_align m s1 s2 n of
           Inl r \<Rightarrow> r
         | Inr (sb1, sb2, n) \<Rightarrow>
             (case strncmp_longs m sb1 sb2 n of (sl1, sl2, n) \<Rightarrow> strncmp_bytes m sl1 sl2 n))
      else strncmp_bytes m s1 s2 n)"

section \<open>Searching\<close>

fun memchr_loop :: "mem \<Rightarrow> nat \<Rightarrow> u8 \<Rightarrow> nat \<Rightarrow> nat option" where
  "memchr_loop m sb c 0 = None"
| "memchr_loop m sb c (Suc n) = (if m sb = c then Some sb else memchr_loop m (sb + 1) c n)"

definition memchr :: "mem \<Rightarrow> nat \<Rightarrow> int \<Rightarrow> nat \<Rightarrow> nat option" where
  "memchr m s c n = memchr_loop m s (word_of_int c) n"

fun memrchr_loop :: "mem \<Rightarrow> nat \<Rightarrow> u8 \<Rightarrow> nat \<Rightarrow> nat option" where
  "memrchr_loop m sb c 0 = None"
| "memrchr_loop m sb c (Suc n) = (if m (sb - 1) = c then Some (sb - 1) else memrchr_loop m (sb - 1) c n)"

definition memrchr :: "mem \<Rightarrow> nat \<Rightarrow> int \<Rightarrow> nat \<Rightarrow> nat option" where
  "memrchr m s c n = memrchr_loop m (s + n) (word_of_int c) n"

text \<open>The inner option of \<open>strchr\<close> and \<open>strrchr\<close> is the returned pointer, \<open>None\<close> for \<open>NULL\<close>.\<close>

partial_function (option) strchr_loop :: "mem \<Rightarrow> nat \<Rightarrow> u8 \<Rightarrow> nat option option" where
  "strchr_loop m s c =
     (if m s = c then Some (Some s)
      else if m s = 0 then Some None
      else strchr_loop m (s + 1) c)"

definition strchr :: "mem \<Rightarrow> nat \<Rightarrow> int \<Rightarrow> nat option option" where
  "strchr m s c = strchr_loop m s (word_of_int c)"

partial_function (option) strrchr_loop :: "mem \<Rightarrow> nat \<Rightarrow> u8 \<Rightarrow> nat option \<Rightarrow> nat option option" where
  "strrchr_loop m s c lst =
     (let lst = (if m s = c then Some s else lst)
      in if m s = 0 then Some lst else strrchr_loop m (s + 1) c lst)"

definition strrchr :: "mem \<Rightarrow> nat \<Rightarrow> int \<Rightarrow> nat option option" where
  "strrchr m s c = strrchr_loop m s (word_of_int c) None"

partial_function (option) add_until_null :: "mem \<Rightarrow> nat \<Rightarrow> byteset_t \<Rightarrow> byteset_t option" where
  "add_until_null m s2 bs =
     (if m s2 \<noteq> 0 then add_until_null m (s2 + 1) (byteaddset bs (m s2)) else Some bs)"

partial_function (option) add_through_null :: "mem \<Rightarrow> nat \<Rightarrow> byteset_t \<Rightarrow> byteset_t option" where
  "add_through_null m s2 bs =
     (let bs = byteaddset bs (m s2)
      in if m s2 \<noteq> 0 then add_through_null m (s2 + 1) bs else Some bs)"

definition strspn :: "mem \<Rightarrow> nat \<Rightarrow> nat \<Rightarrow> nat option" where
  "strspn m s1 s2 =
     do { bs \<leftarrow> add_until_null m s2 byteemptyset;
          s \<leftarrow> scan_while (byteismember bs) m s1;
          Some (s - s1) }"

definition strcspn :: "mem \<Rightarrow> nat \<Rightarrow> nat \<Rightarrow> nat option" where
  "strcspn m s1 s2 =
     do { bs \<leftarrow> add_through_null m s2 byteemptyset;
          s \<leftarrow> scan_while (\<lambda>c. \<not> byteismember bs c) m s1;
          Some (s - s1) }"

definition strpbrk :: "mem \<Rightarrow> nat \<Rightarrow> nat \<Rightarrow> nat option option" where
  "strpbrk m s1 s2 =
     do { bs \<leftarrow> add_through_null m s2 byteemptyset;
          s1 \<leftarrow> scan_while (\<lambda>c. \<not> byteismember bs c) m s1;
          Some (if m s1 \<noteq> 0 then Some s1 else None) }"

section \<open>Tokens\<close>

text \<open>Both return the token, the memory and the new value of \<open>*lasts\<close>.\<close>

definition strsep :: "mem \<Rightarrow> nat option \<Rightarrow> nat \<Rightarrow> (nat option \<times> mem \<times> nat option) option" where
  "strsep m lasts sep =
     (case lasts of
        None \<Rightarrow> Some (None, m, lasts)
      | Some s \<Rightarrow>
          do { n \<leftarrow> strcspn m s sep;
               let e = s + n;
               Some (if m e = 0 then (Some s, m, None)
                     else (Some s, m(e := 0), Some (e + 1))) })"

definition strtok_r :: "mem \<Rightarrow> nat option \<Rightarrow> nat \<Rightarrow> nat option
    \<Rightarrow> (nat option \<times> mem \<times> nat option) option" where
  "strtok_r m s sep lasts =
     (case (case s of None \<Rightarrow> lasts | Some s \<Rightarrow> Some s) of
        None \<Rightarrow> Some (None, m, lasts)
      | Some s \<Rightarrow>
          do { bs \<leftarrow> add_until_null m sep byteemptyset;
               s \<leftarrow> scan_while (byteismember bs) m s;
               if m s = 0 then Some (None, m, None)
               else do {
                 let bs = byteaddset bs 0;
                 e \<leftarrow> scan_while (\<lambda>c. \<not> byteismember bs c) m (s + 1);
                 Some (if m e = 0 then (Some s, m, None)
                       else (Some s, m(e := 0), Some (e + 1))) } })"

section \<open>Copying\<close>

fun memset_bytes :: "mem \<Rightarrow> nat \<Rightarrow> u8 \<Rightarrow> nat \<Rightarrow> mem" where
  "memset_bytes m sb c 0 = m"
| "memset_bytes m sb c (Suc n) = memset_bytes (m(sb := c)) (Suc sb) c n"

function memset_align :: "mem \<Rightarrow> nat \<Rightarrow> u8 \<Rightarrow> nat \<Rightarrow> mem \<times> nat \<times> nat" where
  "memset_align m sb c n =
     (if is_long_aligned sb then (m, sb, n)
      else memset_align (m(sb := c)) (Suc sb) c (n - 1))"
  by pat_completeness auto
termination by (relation "measure (\<lambda>(m, p, c, n). (8 - p mod 8) mod 8)") (simp_all add: align_measure)

function memset_longs :: "mem \<Rightarrow> nat \<Rightarrow> u64 \<Rightarrow> nat \<Rightarrow> mem \<times> nat \<times> nat" where
  "memset_longs m sl cl n =
     (let m = store_long m sl cl; sl = sl + 8; n' = n - 8
      in if n' \<ge> 8 then memset_longs m sl cl n' else (m, sl, n'))"
  by pat_completeness auto
termination by (relation "measure (\<lambda>(m, p, c, n). n)") auto

definition memset :: "mem \<Rightarrow> nat \<Rightarrow> int \<Rightarrow> nat \<Rightarrow> mem" where
  "memset m s c n =
     (let c = word_of_int c :: u8
      in if n \<ge> LONG_STRING_SIZE then
           (case memset_align m s c n of (m, sb, n) \<Rightarrow>
              (case memset_longs m sb (construct_chars c) n of (m, sl, n) \<Rightarrow> memset_bytes m sl c n))
         else memset_bytes m s c n)"

fun move_up :: "mem \<Rightarrow> nat \<Rightarrow> nat \<Rightarrow> nat \<Rightarrow> mem" where
  "move_up m sb1 sb2 0 = m"
| "move_up m sb1 sb2 (Suc n) = move_up (m(sb1 := m sb2)) (Suc sb1) (Suc sb2) n"

function move_up_align :: "mem \<Rightarrow> nat \<Rightarrow> nat \<Rightarrow> nat \<Rightarrow> mem \<times> nat \<times> nat \<times> nat" where
  "move_up_align m sb1 sb2 n =
     (if is_long_aligned sb1 then (m, sb1, sb2, n)
      else move_up_align (m(sb1 := m sb2)) (Suc sb1) (Suc sb2) (n - 1))"
  by pat_completeness auto
termination by (relation "measure (\<lambda>(m, p, q, n). (8 - p mod 8) mod 8)") (simp_all add: align_measure)

function move_up_longs :: "mem \<Rightarrow> nat \<Rightarrow> nat \<Rightarrow> nat \<Rightarrow> mem \<times> nat \<times> nat \<times> nat" where
  "move_up_longs m sl1 sl2 n =
     (let m = store_long m sl1 (load_long m sl2); sl1 = sl1 + 8; sl2 = sl2 + 8; n' = n - 8
      in if n' \<ge> 8 then move_up_longs m sl1 sl2 n' else (m, sl1, sl2, n'))"
  by pat_completeness auto
termination by (relation "measure (\<lambda>(m, p, q, n). n)") auto

fun move_down :: "mem \<Rightarrow> nat \<Rightarrow> nat \<Rightarrow> nat \<Rightarrow> mem" where
  "move_down m sb1 sb2 0 = m"
| "move_down m sb1 sb2 (Suc n) = move_down (m(sb1 - 1 := m (sb2 - 1))) (sb1 - 1) (sb2 - 1) n"

function move_down_align :: "mem \<Rightarrow> nat \<Rightarrow> nat \<Rightarrow> nat \<Rightarrow> mem \<times> nat \<times> nat \<times> nat" where
  "move_down_align m sb1 sb2 n =
     (if is_long_aligned sb1 then (m, sb1, sb2, n)
      else move_down_align (m(sb1 - 1 := m (sb2 - 1))) (sb1 - 1) (sb2 - 1) (n - 1))"
  by pat_completeness auto
termination by (relation "measure (\<lambda>(m, p, q, n). p)") (auto simp: is_long_aligned_def intro!: Nat.gr0I)

function move_down_longs :: "mem \<Rightarrow> nat \<Rightarrow> nat \<Rightarrow> nat \<Rightarrow> mem \<times> nat \<times> nat \<times> nat" where
  "move_down_longs m sl1 sl2 n =
     (let sl1 = sl1 - 8; sl2 = sl2 - 8; m = store_long m sl1 (load_long m sl2); n' = n - 8
      in if n' \<ge> 8 then move_down_longs m sl1 sl2 n' else (m, sl1, sl2, n'))"
  by pat_completeness auto
termination by (relation "measure (\<lambda>(m, p, q, n). n)") auto

definition memmove :: "mem \<Rightarrow> nat \<Rightarrow> nat \<Rightarrow> nat \<Rightarrow> mem" where
  "memmove m s1 s2 n =
     (if s1 < s2 then
        (if n \<ge> LONG_STRING_SIZE \<and> is_long_aligned_equally s1 s2 then
           (case move_up_align m s1 s2 n of (m, sb1, sb2, n) \<Rightarrow>
              (case move_up_longs m sb1 sb2 n of (m, sb1, sb2, n) \<Rightarrow> move_up m sb1 sb2 n))
         else move_up m s1 s2 n)
      else if s1 > s2 then
        (let sb1 = s1 + n; sb2 = s2 + n
         in if n \<ge> LONG_STRING_SIZE \<and> is_long_aligned_equally sb1 sb2 then
              (case move_down_align m sb1 sb2 n of (m, sb1, sb2, n) \<Rightarrow>
                 (case move_down_longs m sb1 sb2 n of (m, sb1, sb2, n) \<Rightarrow> move_down m sb1 sb2 n))
            else move_down m sb1 sb2 n)
      else m)"

fun memccpy_loop :: "mem \<Rightarrow> nat \<Rightarrow> nat \<Rightarrow> u8 \<Rightarrow> nat \<Rightarrow> nat option \<times> mem" where
  "memccpy_loop m sb1 sb2 c 0 = (None, m)"
| "memccpy_loop m sb1 sb2 c (Suc n) =
     (let m = m(sb1 := m sb2)
      in if m sb1 = c then (Some (sb1 + 1), m) else memccpy_loop m (sb1 + 1) (sb2 + 1) c n)"

definition memccpy :: "mem \<Rightarrow> nat \<Rightarrow> nat \<Rightarrow> int \<Rightarrow> nat \<Rightarrow> nat option \<times> mem" where
  "memccpy m s1 s2 c n = memccpy_loop m s1 s2 (word_of_int c) n"

text \<open>\<open>stpcpy\<close> returns the address of the terminator it wrote.\<close>

partial_function (option) stpcpy :: "mem \<Rightarrow> nat \<Rightarrow> nat \<Rightarrow> (nat \<times> mem) option" where
  "stpcpy m s1 s2 =
     (let m = m(s1 := m s2)
      in if m s2 = 0 then Some (s1, m) else stpcpy m (s1 + 1) (s2 + 1))"

partial_function (option) strcpy_loop :: "mem \<Rightarrow> nat \<Rightarrow> nat \<Rightarrow> mem option" where
  "strcpy_loop m s s2 =
     (let m = m(s := m s2)
      in if m s2 = 0 then Some m else strcpy_loop m (s + 1) (s2 + 1))"

definition strcpy :: "mem \<Rightarrow> nat \<Rightarrow> nat \<Rightarrow> (nat \<times> mem) option" where
  "strcpy m s1 s2 = do { m \<leftarrow> strcpy_loop m s1 s2; Some (s1, m) }"

definition strcat :: "mem \<Rightarrow> nat \<Rightarrow> nat \<Rightarrow> (nat \<times> mem) option" where
  "strcat m s1 s2 =
     do { s \<leftarrow> scan_while (\<lambda>c. c \<noteq> 0) m s1;
          m \<leftarrow> strcpy_loop m s s2;
          Some (s1, m) }"

fun strncat_loop :: "mem \<Rightarrow> nat \<Rightarrow> nat \<Rightarrow> nat \<Rightarrow> mem" where
  "strncat_loop m s s2 0 = m(s := 0)"
| "strncat_loop m s s2 (Suc n) =
     (if m s2 = 0 then m(s := 0) else strncat_loop (m(s := m s2)) (s + 1) (s2 + 1) n)"

definition strncat :: "mem \<Rightarrow> nat \<Rightarrow> nat \<Rightarrow> nat \<Rightarrow> (nat \<times> mem) option" where
  "strncat m s1 s2 n =
     (if n > 0 then
        do { s \<leftarrow> scan_while (\<lambda>c. c \<noteq> 0) m s1;
             Some (s1, strncat_loop m s s2 n) }
      else Some (s1, m))"

fun stpncpy_loop :: "mem \<Rightarrow> nat \<Rightarrow> nat \<Rightarrow> nat \<Rightarrow> nat \<times> mem" where
  "stpncpy_loop m s1 s2 0 = (s1, m)"
| "stpncpy_loop m s1 s2 (Suc n) =
     (if m s2 \<noteq> 0 then stpncpy_loop (m(s1 := m s2)) (Suc s1) (Suc s2) n
      else (s1, memset_bytes m s1 0 (Suc n)))"

definition stpncpy :: "mem \<Rightarrow> nat \<Rightarrow> nat \<Rightarrow> nat \<Rightarrow> nat \<times> mem" where
  "stpncpy m s1 s2 n = stpncpy_loop m s1 s2 n"

text \<open>
  The part \<open>strlcpy()\<close> and \<open>strlcat()\<close> have in common: the address of the terminator of
  \<open>s2\<close>, and the memory.
\<close>

fun strl_copy :: "mem \<Rightarrow> nat \<Rightarrow> nat \<Rightarrow> nat \<Rightarrow> (nat \<times> mem) option" where
  "strl_copy m s1 s2 n =
     (if n > 1 then
        (let m = m(s1 := m s2)
         in if m s2 = 0 then Some (s2, m) else strl_copy m (s1 + 1) (s2 + 1) (n - 1))
      else
        (let m = (if n > 0 then m(s1 := 0) else m)
         in do { e \<leftarrow> scan_while (\<lambda>c. c \<noteq> 0) m s2; Some (e, m) }))"

definition strlcpy :: "mem \<Rightarrow> nat \<Rightarrow> nat \<Rightarrow> nat \<Rightarrow> (nat \<times> mem) option" where
  "strlcpy m s1 s2 n = do { (e, m) \<leftarrow> strl_copy m s1 s2 n; Some (e - s2, m) }"

fun strlcat_skip :: "mem \<Rightarrow> nat \<Rightarrow> nat \<Rightarrow> nat \<Rightarrow> nat \<times> nat \<times> nat" where
  "strlcat_skip m s1 0 skipped = (s1, 0, skipped)"
| "strlcat_skip m s1 (Suc n) skipped =
     (if m s1 \<noteq> 0 then strlcat_skip m (s1 + 1) n (skipped + 1) else (s1, Suc n, skipped))"

definition strlcat :: "mem \<Rightarrow> nat \<Rightarrow> nat \<Rightarrow> nat \<Rightarrow> (nat \<times> mem) option" where
  "strlcat m s1 s2 n =
     (case strlcat_skip m s1 n 0 of (s1, n, skipped) \<Rightarrow>
        do { (e, m) \<leftarrow> strl_copy m s1 s2 n; Some (e - s2 + skipped, m) })"

declare strlen_align.simps [simp del] strnlen_align.simps [simp del] strnlen_longs.simps [simp del]
  memcmp_align.simps [simp del] memcmp_longs.simps [simp del] strcmp_align.simps [simp del]
  strncmp_align.simps [simp del] strncmp_longs.simps [simp del] memset_align.simps [simp del]
  memset_longs.simps [simp del] move_up_align.simps [simp del] move_up_longs.simps [simp del]
  move_down_align.simps [simp del] move_down_longs.simps [simp del] strl_copy.simps [simp del]

end
