(* ===== verification/StringCorrect.thy ===== *)
theory StringCorrect
  imports Strings
begin

text \<open>
  Correctness of the string routines: scanning, comparing, searching, tokenising and copying,
  against reference definitions on byte lists. The word-at-a-time loops are shown equal to the
  bytewise loops they replace, with every alignment of the arguments.
\<close>

section \<open>Strings in memory\<close>

lemma cstr_at_iff:
  "cstr_at m p xs \<longleftrightarrow> (\<forall>i < length xs. m (p + i) = xs ! i \<and> xs ! i \<noteq> 0) \<and> m (p + length xs) = 0"
  by (induction xs arbitrary: p) (auto simp: All_less_Suc2)

lemma cstr_at_end: "cstr_at m p xs \<Longrightarrow> m (p + length xs) = 0"
  by (simp add: cstr_at_iff)

lemma cstr_at_drop: "cstr_at m p xs \<Longrightarrow> k \<le> length xs \<Longrightarrow> cstr_at m (p + k) (drop k xs)"
  by (simp add: cstr_at_iff add.assoc)

lemma cstr_at_bytes: "cstr_at m p xs \<Longrightarrow> n \<le> length xs \<Longrightarrow> bytes_at m p n = take n xs"
  by (rule nth_equalityI) (auto simp: cstr_at_iff)

lemma cstr_at_no_null: "cstr_at m p xs \<Longrightarrow> 0 \<notin> set xs"
  by (auto simp: cstr_at_iff in_set_conv_nth)

lemma cstr_at_cong: "(\<And>a. p \<le> a \<Longrightarrow> a \<le> p + length xs \<Longrightarrow> m a = m' a) \<Longrightarrow> cstr_at m p xs = cstr_at m' p xs"
  by (simp add: cstr_at_iff)

lemma cstr_at_upd [simp]:
  "a < p \<or> p + length xs < a \<Longrightarrow> cstr_at (m(a := v)) p xs = cstr_at m p xs"
  by (rule cstr_at_cong) auto

lemma cstr_at_upd' [simp]:
  "b < p \<or> p + length xs < b \<Longrightarrow> cstr_at (\<lambda>a. if a = b then v else m a) p xs = cstr_at m p xs"
  by (rule cstr_at_cong) auto

lemma cstr_at_put: "0 \<notin> set xs \<Longrightarrow> cstr_at (put_bytes m p (xs @ [0])) p xs"
  by (auto simp: cstr_at_iff put_bytes_def nth_append in_set_conv_nth)

lemma no_null_word:
  assumes "\<not> contains_nullbyte (load_long m p)" "cstr_at m p xs"
  shows "8 \<le> length xs"
proof (rule ccontr)
  assume "\<not> 8 \<le> length xs"
  then have "bytes_at m p 8 ! length xs = 0" "length xs < length (bytes_at m p 8)"
    using cstr_at_end [OF assms(2)] by simp_all
  then have "0 \<in> set (bytes_at m p 8)" using nth_mem by metis
  then show False using assms(1) by (simp add: contains_nullbyte_bytes)
qed

section \<open>Byte sets\<close>

locale byte_set =
  fixes empty :: 's and add :: "'s \<Rightarrow> u8 \<Rightarrow> 's" and member :: "'s \<Rightarrow> u8 \<Rightarrow> bool"
    and invar :: "'s \<Rightarrow> bool"
  assumes invar_empty: "invar empty" and member_empty: "\<not> member empty c"
    and invar_add: "invar s \<Longrightarrow> invar (add s c)"
    and member_add: "invar s \<Longrightarrow> member (add s c) d \<longleftrightarrow> d = c \<or> member s d"
begin

lemma invar_foldl: "invar s \<Longrightarrow> invar (foldl add s xs)"
  by (induction xs arbitrary: s) (simp_all add: invar_add)

lemma member_foldl: "invar s \<Longrightarrow> member (foldl add s xs) c \<longleftrightarrow> c \<in> set xs \<or> member s c"
  by (induction xs arbitrary: s) (auto simp: invar_add member_add)

lemma member_foldl_empty: "member (foldl add empty xs) c \<longleftrightarrow> c \<in> set xs"
  by (simp add: member_foldl invar_empty member_empty)

end

lemma byteismember_bit: "byteismember bs c \<longleftrightarrow> bit (bs ! (unat c div 64)) (unat c mod 64)"
  unfolding byteismember_def push_bit_of_1 by (simp add: and_exp_eq_0_iff_not_bit)

lemma byte_div_less: "unat (c :: u8) div 64 < 4"
  using unsigned_less [of c, where ?'a = nat] by (simp add: div_less_iff_less_mult)

lemma byte_eq_div_mod: "d = c \<longleftrightarrow> unat (d :: u8) div 64 = unat c div 64 \<and> unat d mod 64 = unat c mod 64"
  by (metis div_mult_mod_eq word_unat_eq_iff)

lemma byteismember_byteaddset:
  assumes "length bs = 4"
  shows "byteismember (byteaddset bs c) d \<longleftrightarrow> d = c \<or> byteismember bs d"
  using assms byte_div_less [of c] byte_div_less [of d]
  by (cases "unat d div 64 = unat c div 64")
    (auto simp: byteismember_bit byteaddset_def byte_eq_div_mod [of d c] bit_or_iff push_bit_of_1 bit_exp_iff)

lemma byteismember_bytedelset:
  assumes "length bs = 4"
  shows "byteismember (bytedelset bs c) d \<longleftrightarrow> d \<noteq> c \<and> byteismember bs d"
  using assms byte_div_less [of c] byte_div_less [of d]
  by (cases "unat d div 64 = unat c div 64")
    (auto simp: byteismember_bit bytedelset_def byte_eq_div_mod [of d c] bit_and_iff bit_not_iff push_bit_of_1 bit_exp_iff)

lemma byteismember_bytefillset: "byteismember bytefillset c"
  using byte_div_less [of c] by (simp add: byteismember_bit bytefillset_def)

interpretation bs: byte_set byteemptyset byteaddset byteismember "\<lambda>bs. length bs = 4"
proof unfold_locales
  show "\<not> byteismember byteemptyset c" for c
    using byte_div_less [of c] by (simp add: byteismember_bit byteemptyset_def)
qed (simp_all add: byteismember_byteaddset, simp_all add: byteemptyset_def byteaddset_def)

lemma add_until_null: "cstr_at m s xs \<Longrightarrow> add_until_null m s bs = Some (foldl byteaddset bs xs)"
  by (induction xs arbitrary: s bs) (subst add_until_null.simps, simp)+

lemma add_through_null: "cstr_at m s xs \<Longrightarrow> add_through_null m s bs = Some (foldl byteaddset bs (xs @ [0]))"
  by (induction xs arbitrary: s bs) (subst add_through_null.simps, simp add: Let_def)+

section \<open>Scanning\<close>

lemma scan_while_cstr:
  "cstr_at m s xs \<Longrightarrow> \<not> P 0 \<Longrightarrow> scan_while P m s = Some (s + length (takeWhile P xs))"
  by (induction xs arbitrary: s) (subst scan_while.simps, simp)+

lemma takeWhile_nonnull [simp]: "0 \<notin> set xs \<Longrightarrow> takeWhile (\<lambda>c. c \<noteq> 0) xs = xs"
  by (simp add: takeWhile_eq_all_conv) metis

lemma scan_nonnull: "cstr_at m s xs \<Longrightarrow> scan_while (\<lambda>c. c \<noteq> 0) m s = Some (s + length xs)"
  by (simp add: scan_while_cstr cstr_at_no_null)

lemma strlen_align_cstr:
  "cstr_at m eb xs \<Longrightarrow> s \<le> eb \<Longrightarrow>
     (case strlen_align m s eb of
        Inl n \<Rightarrow> n = eb + length xs - s
      | Inr eb' \<Rightarrow> \<exists>ys. cstr_at m eb' ys \<and> eb' + length ys = eb + length xs)"
proof (induction xs arbitrary: eb)
  case Nil
  then show ?case by (subst strlen_align.simps) (auto intro!: exI [of _ "[]"])
next
  case (Cons x xs)
  show ?case
  proof (cases "is_long_aligned eb")
    case True
    then show ?thesis using Cons.prems by (subst strlen_align.simps) (auto intro!: exI [of _ "x # xs"])
  next
    case False
    then have "strlen_align m s eb = strlen_align m s (Suc eb)"
      using Cons.prems by (subst strlen_align.simps) simp
    then show ?thesis using Cons.IH [of "Suc eb"] Cons.prems by (simp split: sum.splits)
  qed
qed

lemma strlen_longs_cstr:
  "cstr_at m el xs \<Longrightarrow> \<exists>el' ys. strlen_longs m el = Some el' \<and> cstr_at m el' ys \<and> el' + length ys = el + length xs"
proof (induction "length xs" arbitrary: el xs rule: less_induct)
  case less
  show ?case
  proof (cases "contains_nullbyte (load_long m el)")
    case True
    then show ?thesis using less.prems by (subst strlen_longs.simps) auto
  next
    case False
    then have 8: "8 \<le> length xs" using no_null_word less.prems by blast
    then have "cstr_at m (el + 8) (drop 8 xs)" using cstr_at_drop less.prems by blast
    moreover have "length (drop 8 xs) < length xs" using 8 by simp
    ultimately obtain el' ys where "strlen_longs m (el + 8) = Some el'" "cstr_at m el' ys"
      "el' + length ys = el + 8 + length (drop 8 xs)"
      using less.hyps by blast
    then show ?thesis using False 8 by (subst strlen_longs.simps) auto
  qed
qed

lemma strlen_cstr: "cstr_at m s xs \<Longrightarrow> strlen m s = Some (length xs)"
proof (cases "strlen_align m s s")
  case (Inr eb)
  assume "cstr_at m s xs"
  then obtain ys where "cstr_at m eb ys" "eb + length ys = s + length xs"
    using strlen_align_cstr [of m s xs s] Inr by auto
  with strlen_longs_cstr [OF this(1)] show ?thesis
    by (auto simp: strlen_def scan_nonnull Inr)
qed (use strlen_align_cstr [of m s xs s] in \<open>simp add: strlen_def\<close>)

lemma strnlen_bytes_eq: "strnlen_bytes m eb n = eb + length (takeWhile (\<lambda>c. c \<noteq> 0) (bytes_at m eb n))"
  by (induction n arbitrary: eb) (simp_all add: bytes_at_Suc)

lemma strnlen_longs_eq:
  "strnlen_longs m el n = (el', n') \<Longrightarrow> strnlen_bytes m el' n' = strnlen_bytes m el n"
proof (induction m el n rule: strnlen_longs.induct)
  case (1 m el n)
  show ?case
  proof (cases "8 \<le> n \<and> \<not> contains_nullbyte (load_long m el)")
    case True
    then have "bytes_at m el n = bytes_at m el 8 @ bytes_at m (el + 8) (n - 8)"
      using bytes_at_add [of m el 8 "n - 8"] by simp
    moreover have "\<forall>c \<in> set (bytes_at m el 8). c \<noteq> 0"
      using True by (auto simp: contains_nullbyte_bytes)
    ultimately have "strnlen_bytes m (el + 8) (n - 8) = strnlen_bytes m el n"
      by (simp add: strnlen_bytes_eq)
    then show ?thesis using 1 True by (simp add: strnlen_longs.simps [of m el n])
  next
    case False
    then show ?thesis using 1 by (auto simp: strnlen_longs.simps [of m el n])
  qed
qed

lemma strnlen_align_eq:
  "case strnlen_align m s eb n of
     Inl r \<Rightarrow> r = strnlen_bytes m eb n - s
   | Inr (eb', n') \<Rightarrow> strnlen_bytes m eb' n' = strnlen_bytes m eb n"
proof (induction m s eb n rule: strnlen_align.induct)
  case (1 m s eb n)
  then show ?case by (cases n; subst strnlen_align.simps) (auto split: sum.splits)
qed

lemma strnlen_eq: "strnlen m s n = length (takeWhile (\<lambda>c. c \<noteq> 0) (bytes_at m s n))"
  using strnlen_align_eq [where m = m and s = s and eb = s and n = n]
  by (auto simp: strnlen_def strnlen_longs_eq split: sum.splits prod.splits) (simp_all add: strnlen_bytes_eq)

section \<open>Comparing\<close>

fun bytes_cmp :: "u8 list \<Rightarrow> u8 list \<Rightarrow> int" where
  "bytes_cmp (x # xs) (y # ys) = (if x \<noteq> y then byte_diff x y else bytes_cmp xs ys)"
| "bytes_cmp _ _ = 0"

lemma bytes_cmp_append [simp]: "bytes_cmp (zs @ xs) (zs @ ys) = bytes_cmp xs ys"
  by (induction zs) simp_all

lemma memcmp_bytes_eq: "memcmp_bytes m a b n = bytes_cmp (bytes_at m a n) (bytes_at m b n)"
  by (induction n arbitrary: a b) (simp_all add: bytes_at_Suc)

lemma memcmp_longs_eq:
  "memcmp_longs m a b n = (a', b', n') \<Longrightarrow> memcmp_bytes m a' b' n' = memcmp_bytes m a b n"
proof (induction m a b n rule: memcmp_longs.induct)
  case (1 m a b n)
  show ?case
  proof (cases "8 \<le> n \<and> load_long m a = load_long m b")
    case True
    then have "bytes_at m a n = bytes_at m b 8 @ bytes_at m (a + 8) (n - 8)"
      "bytes_at m b n = bytes_at m b 8 @ bytes_at m (b + 8) (n - 8)"
      using bytes_at_add [of m a 8 "n - 8"] bytes_at_add [of m b 8 "n - 8"]
      by (simp_all add: load_long_eq_iff)
    then have "memcmp_bytes m (a + 8) (b + 8) (n - 8) = memcmp_bytes m a b n"
      by (simp add: memcmp_bytes_eq)
    then show ?thesis using 1 True by (simp add: memcmp_longs.simps [of m a b n])
  next
    case False
    then show ?thesis using 1 by (auto simp: memcmp_longs.simps [of m a b n])
  qed
qed

lemma align_steps: "\<not> is_long_aligned p \<Longrightarrow> (8 - p mod 8) mod 8 = Suc ((8 - Suc p mod 8) mod 8)"
  using mod_less_divisor [of 8 p] by (simp add: is_long_aligned_def mod_Suc) linarith

lemma memcmp_align_eq:
  "(8 - a mod 8) mod 8 \<le> n \<Longrightarrow>
     (case memcmp_align m a b n of
        Inl r \<Rightarrow> r = memcmp_bytes m a b n
      | Inr (a', b', n') \<Rightarrow> memcmp_bytes m a' b' n' = memcmp_bytes m a b n)"
proof (induction m a b n rule: memcmp_align.induct)
  case (1 m a b n)
  show ?case
  proof (cases "is_long_aligned a")
    case False
    then obtain k where "n = Suc k" "(8 - Suc a mod 8) mod 8 \<le> k"
      using "1.prems" by (cases n) (simp_all add: align_steps)
    then show ?thesis using 1 False by (subst memcmp_align.simps) (auto split: sum.splits)
  qed (subst memcmp_align.simps, simp)
qed

lemma memcmp_eq: "memcmp m a b n = bytes_cmp (bytes_at m a n) (bytes_at m b n)"
proof -
  have "n \<ge> LONG_STRING_SIZE \<Longrightarrow> (8 - a mod 8) mod 8 \<le> n"
    using mod_less_divisor [of 8 "8 - a mod 8"] by (simp add: LONG_STRING_SIZE_def)
  then show ?thesis
    using memcmp_align_eq [where m = m and a = a and b = b and n = n]
    by (auto simp: memcmp_def memcmp_longs_eq simp flip: memcmp_bytes_eq split: sum.splits prod.splits)
qed

text \<open>The order of C strings. A null byte ends a string.\<close>

fun strcmp_spec :: "u8 list \<Rightarrow> u8 list \<Rightarrow> int" where
  "strcmp_spec [] [] = 0"
| "strcmp_spec [] (y # ys) = byte_diff 0 y"
| "strcmp_spec (x # xs) [] = byte_diff x 0"
| "strcmp_spec (x # xs) (y # ys) =
     (if x \<noteq> y then byte_diff x y else if x = 0 then 0 else strcmp_spec xs ys)"

lemma byte_diff_self [simp]: "byte_diff x x = 0"
  by (simp add: byte_diff_def)

lemma byte_diff_le_0 [simp]: "byte_diff x y \<le> 0 \<longleftrightarrow> x \<le> y"
  by (simp add: byte_diff_def word_le_def)

lemma byte_diff_eq_0 [simp]: "byte_diff x y = 0 \<longleftrightarrow> x = y"
  by (simp add: byte_diff_def word_uint_eq_iff)

lemma strcmp_spec_swap: "strcmp_spec xs ys = - strcmp_spec ys xs"
  by (induction xs ys rule: strcmp_spec.induct) (simp_all add: byte_diff_def)

lemma strcmp_spec_trans: "strcmp_spec xs ys \<le> 0 \<Longrightarrow> strcmp_spec ys zs \<le> 0 \<Longrightarrow> strcmp_spec xs zs \<le> 0"
proof (induction xs ys arbitrary: zs rule: strcmp_spec.induct)
  case (4 x xs y ys)
  show ?case
  proof (cases zs)
    case Nil
    then have "y = 0" using "4.prems"(2) by simp
    then show ?thesis using "4.prems"(1) Nil by (simp split: if_splits)
  next
    case (Cons z zs')
    have le: "x \<le> y" "y \<le> z" using "4.prems" Cons by (simp_all split: if_splits)
    show ?thesis
    proof (cases "x = z \<and> x \<noteq> 0")
      case True
      then have "y = z" using le by simp
      then show ?thesis using 4 Cons True by (auto split: if_splits)
    qed (use le order.trans [OF le] Cons in \<open>simp split: if_splits\<close>)
  qed
next
  case (2 y ys)
  then show ?case by (cases zs) simp_all
next
  case (3 x xs)
  then show ?case by (cases zs) simp_all
qed simp

interpretation strings: comparator strcmp_spec
proof unfold_locales
  show "sgn (strcmp_spec a b) = - sgn (strcmp_spec b a)" for a b
    by (subst strcmp_spec_swap) (simp add: sgn_minus)
qed (rule strcmp_spec_trans)

lemma strcmp_spec_append: "0 \<notin> set zs \<Longrightarrow> strcmp_spec (zs @ xs) (zs @ ys) = strcmp_spec xs ys"
  by (induction zs) auto

lemma strcmp_spec_eq_0: "0 \<notin> set xs \<Longrightarrow> 0 \<notin> set ys \<Longrightarrow> strcmp_spec xs ys = 0 \<longleftrightarrow> xs = ys"
  by (induction xs ys rule: strcmp_spec.induct) auto

lemma strcmp_bytes_cstr:
  "cstr_at m a xs \<Longrightarrow> cstr_at m b ys \<Longrightarrow> strcmp_bytes m a b = Some (strcmp_spec xs ys)"
  by (induction xs ys arbitrary: a b rule: strcmp_spec.induct) (subst strcmp_bytes.simps, auto)+

lemma strcmp_align_aligned:
  assumes "is_long_aligned a" "cstr_at m a xs" "cstr_at m b ys"
  shows "case strcmp_align m a b of
        Inl r \<Rightarrow> r = strcmp_spec xs ys
      | Inr (a', b') \<Rightarrow> \<exists>xs' ys'. cstr_at m a' xs' \<and> cstr_at m b' ys' \<and> strcmp_spec xs' ys' = strcmp_spec xs ys"
proof -
  have "strcmp_align m a b = Inr (a, b)" using assms(1) by (subst strcmp_align.simps) simp
  then show ?thesis using assms(2,3) by auto
qed

lemma strcmp_align_cstr:
  "cstr_at m a xs \<Longrightarrow> cstr_at m b ys \<Longrightarrow>
     (case strcmp_align m a b of
        Inl r \<Rightarrow> r = strcmp_spec xs ys
      | Inr (a', b') \<Rightarrow> \<exists>xs' ys'. cstr_at m a' xs' \<and> cstr_at m b' ys' \<and> strcmp_spec xs' ys' = strcmp_spec xs ys)"
proof (induction xs ys arbitrary: a b rule: strcmp_spec.induct)
  case 1
  then show ?case
    by (cases "is_long_aligned a") (blast intro: strcmp_align_aligned, subst strcmp_align.simps, simp)
next
  case (2 y ys)
  then show ?case
    by (cases "is_long_aligned a") (blast intro: strcmp_align_aligned, subst strcmp_align.simps, auto)
next
  case (3 x xs)
  then show ?case
    by (cases "is_long_aligned a") (blast intro: strcmp_align_aligned, subst strcmp_align.simps, auto)
next
  case (4 x xs y ys)
  consider "is_long_aligned a" | "\<not> is_long_aligned a" "x \<noteq> y" | "\<not> is_long_aligned a" "x = y" by blast
  then show ?case
  proof cases
    case 1
    then show ?thesis using "4.prems" by (rule strcmp_align_aligned)
  next
    case 2
    then show ?thesis using "4.prems" by (subst strcmp_align.simps) auto
  next
    case 3
    then have eq: "strcmp_align m a b = strcmp_align m (Suc a) (Suc b)"
      "strcmp_spec (x # xs) (y # ys) = strcmp_spec xs ys"
      using 4 by (subst strcmp_align.simps, auto)
    show ?thesis unfolding eq using "4.IH" [of "Suc a" "Suc b"] "4.prems" 3 by simp
  qed
qed

lemma strcmp_longs_cstr:
  "cstr_at m a xs \<Longrightarrow> cstr_at m b ys \<Longrightarrow>
     \<exists>a' b' xs' ys'. strcmp_longs m a b = Some (a', b') \<and> cstr_at m a' xs' \<and> cstr_at m b' ys'
       \<and> strcmp_spec xs' ys' = strcmp_spec xs ys"
proof (induction "length xs" arbitrary: a b xs ys rule: less_induct)
  case less
  show ?case
  proof (cases "load_long m a = load_long m b \<and> \<not> contains_nullbyte (load_long m a)")
    case False
    then show ?thesis using less.prems by (subst strcmp_longs.simps) auto
  next
    case True
    then have n: "8 \<le> length xs" "8 \<le> length ys" using no_null_word less.prems by metis+
    then have t: "take 8 xs = take 8 ys"
      using True less.prems cstr_at_bytes by (metis load_long_eq_iff)
    have "strcmp_spec (take 8 ys @ drop 8 xs) (take 8 ys @ drop 8 ys) = strcmp_spec (drop 8 xs) (drop 8 ys)"
      using cstr_at_no_null [OF less.prems(2)] by (intro strcmp_spec_append) (meson in_set_takeD)
    then have e: "strcmp_spec xs ys = strcmp_spec (drop 8 xs) (drop 8 ys)"
      unfolding t [symmetric] append_take_drop_id unfolding t append_take_drop_id .
    have "cstr_at m (a + 8) (drop 8 xs)" "cstr_at m (b + 8) (drop 8 ys)"
      using cstr_at_drop less.prems n by blast+
    moreover have "length (drop 8 xs) < length xs" using n by simp
    moreover have "strcmp_longs m a b = strcmp_longs m (a + 8) (b + 8)"
      using True by (subst strcmp_longs.simps) auto
    ultimately show ?thesis unfolding e using less.hyps by simp
  qed
qed

lemma strcmp_cstr:
  assumes "cstr_at m a xs" "cstr_at m b ys"
  shows "strcmp m a b = Some (strcmp_spec xs ys)"
proof (cases "strcmp_align m a b")
  case (Inr p)
  obtain a' b' where p: "p = (a', b')" by fastforce
  obtain xs' ys' where 1: "cstr_at m a' xs'" "cstr_at m b' ys'" "strcmp_spec xs' ys' = strcmp_spec xs ys"
    using strcmp_align_cstr [OF assms] Inr p by auto
  show ?thesis
    using strcmp_longs_cstr [OF 1(1,2)] 1(3) assms Inr p
    by (auto simp: strcmp_def strcmp_bytes_cstr)
qed (use strcmp_align_cstr [OF assms] strcmp_bytes_cstr [OF assms] in \<open>simp add: strcmp_def\<close>)

section \<open>Copying\<close>

lemma memset_bytes_eq: "memset_bytes m s c n = put_bytes m s (replicate n c)"
  by (induction n arbitrary: m s) (simp_all add: put_bytes_Cons)

lemma memset_align_eq:
  "(8 - s mod 8) mod 8 \<le> n \<Longrightarrow> memset_align m s c n = (m', s', n') \<Longrightarrow>
     put_bytes m' s' (replicate n' c) = put_bytes m s (replicate n c) \<and> n \<le> n' + (8 - s mod 8) mod 8"
proof (induction m s c n rule: memset_align.induct)
  case (1 m s c n)
  show ?case
  proof (cases "is_long_aligned s")
    case True
    then show ?thesis using "1.prems" by (simp add: memset_align.simps [of m s])
  next
    case False
    then obtain k where k: "n = Suc k" "(8 - Suc s mod 8) mod 8 \<le> k"
      using "1.prems" by (cases n) (simp_all add: align_steps)
    have "memset_align (m(s := c)) (Suc s) c (n - 1) = (m', s', n')"
      using "1.prems"(2) False by (simp add: memset_align.simps [of m s])
    then show ?thesis using "1.IH" [OF False] k False by (simp add: put_bytes_Cons align_steps fun_upd_def)
  qed
qed

lemma memset_longs_eq:
  "8 \<le> n \<Longrightarrow> memset_longs m s (construct_chars c) n = (m', s', n') \<Longrightarrow>
     put_bytes m' s' (replicate n' c) = put_bytes m s (replicate n c)"
proof (induction m s "construct_chars c" n rule: memset_longs.induct)
  case (1 m s n)
  have "replicate n c = replicate 8 c @ replicate (n - 8) c"
    using "1.prems"(1) by (simp flip: replicate_add)
  then have e: "put_bytes m s (replicate n c)
      = put_bytes (store_long m s (construct_chars c)) (s + 8) (replicate (n - 8) c)"
    by (simp add: put_bytes_append store_construct_chars)
  show ?case
  proof (cases "8 \<le> n - 8")
    case True
    then show ?thesis using 1 e by (simp add: memset_longs.simps [of m s _ n] Let_def)
  next
    case False
    then show ?thesis using 1 e by (auto simp: memset_longs.simps [of m s _ n] Let_def)
  qed
qed

lemma align_le: "(8 - s mod 8) mod 8 \<le> (7 :: nat)"
  using mod_less_divisor [of 8 "8 - s mod 8"] by linarith

lemma memset_eq: "memset m s c n = put_bytes m s (replicate n (word_of_int c))"
proof (cases "n \<ge> LONG_STRING_SIZE")
  case True
  then have n: "32 \<le> n" by (simp add: LONG_STRING_SIZE_def)
  obtain m1 s1 n1 where 1: "memset_align m s (word_of_int c) n = (m1, s1, n1)" by (metis prod_cases3)
  obtain m2 s2 n2 where 2: "memset_longs m1 s1 (construct_chars (word_of_int c)) n1 = (m2, s2, n2)"
    by (metis prod_cases3)
  have a: "put_bytes m1 s1 (replicate n1 (word_of_int c)) = put_bytes m s (replicate n (word_of_int c))" "8 \<le> n1"
    using memset_align_eq [OF _ 1] align_le [of s] n by auto
  show ?thesis
    using True 1 2 memset_longs_eq [OF a(2) 2] a(1) by (simp add: memset_def memset_bytes_eq)
qed (simp add: memset_def memset_bytes_eq)

lemma move_up_eq: "a < b \<Longrightarrow> move_up m a b n = put_bytes m a (bytes_at m b n)"
  by (induction n arbitrary: m a b) (simp_all add: bytes_at_Suc put_bytes_Cons)

lemma move_up_align_eq:
  "(8 - a mod 8) mod 8 \<le> n \<Longrightarrow> a < b \<Longrightarrow> move_up_align m a b n = (m', a', b', n') \<Longrightarrow>
     move_up m' a' b' n' = move_up m a b n \<and> a' < b' \<and> n \<le> n' + (8 - a mod 8) mod 8"
proof (induction m a b n rule: move_up_align.induct)
  case (1 m a b n)
  show ?case
  proof (cases "is_long_aligned a")
    case True
    then show ?thesis using "1.prems" by (auto simp: move_up_align.simps [of m a])
  next
    case False
    then obtain k where k: "n = Suc k" "(8 - Suc a mod 8) mod 8 \<le> k"
      using "1.prems" by (cases n) (simp_all add: align_steps)
    have "move_up_align (m(a := m b)) (Suc a) (Suc b) (n - 1) = (m', a', b', n')"
      using "1.prems"(3) False by (simp add: move_up_align.simps [of m a])
    then show ?thesis using "1.IH" [OF False] "1.prems"(2) k False by (simp add: align_steps fun_upd_def)
  qed
qed

lemma move_up_long:
  assumes "a < b" "8 \<le> n"
  shows "move_up (store_long m a (load_long m b)) (a + 8) (b + 8) (n - 8) = move_up m a b n"
proof -
  have "bytes_at m b n = bytes_at m b 8 @ bytes_at m (b + 8) (n - 8)"
    using bytes_at_add [of m b 8 "n - 8"] assms(2) by simp
  moreover have "bytes_at (put_bytes m a (bytes_at m b 8)) (b + 8) (n - 8) = bytes_at m (b + 8) (n - 8)"
    using assms(1) by (intro bytes_at_cong) simp
  ultimately show ?thesis
    using assms(1) by (simp add: move_up_eq store_load_long put_bytes_append)
qed

lemma move_up_longs_eq:
  "8 \<le> n \<Longrightarrow> a < b \<Longrightarrow> move_up_longs m a b n = (m', a', b', n') \<Longrightarrow>
     move_up m' a' b' n' = move_up m a b n"
proof (induction m a b n rule: move_up_longs.induct)
  case (1 m a b n)
  show ?case
  proof (cases "8 \<le> n - 8")
    case True
    then show ?thesis using 1 move_up_long [of a b n m] by (simp add: move_up_longs.simps [of m a b n] Let_def)
  next
    case False
    then show ?thesis using 1 move_up_long [of a b n m] by (auto simp: move_up_longs.simps [of m a b n] Let_def)
  qed
qed

lemma move_down_eq:
  "b < a \<Longrightarrow> n \<le> b \<Longrightarrow> move_down m a b n = put_bytes m (a - n) (bytes_at m (b - n) n)"
proof (induction n arbitrary: m a b)
  case (Suc n)
  have "move_down m a b (Suc n)
      = put_bytes (m(a - 1 := m (b - 1))) (a - 1 - n) (bytes_at (m(a - 1 := m (b - 1))) (b - 1 - n) n)"
    using Suc by (simp add: fun_upd_def)
  also have "bytes_at (m(a - 1 := m (b - 1))) (b - 1 - n) n = bytes_at m (b - 1 - n) n"
    using Suc.prems by (intro bytes_at_upd_outside) linarith
  also have "put_bytes (m(a - 1 := m (b - 1))) (a - 1 - n) (bytes_at m (b - 1 - n) n)
      = (put_bytes m (a - 1 - n) (bytes_at m (b - 1 - n) n))(a - 1 := m (b - 1))"
    using Suc.prems by (intro put_bytes_upd_commute [symmetric]) simp
  also have "\<dots> = put_bytes m (a - Suc n) (bytes_at m (b - Suc n) (Suc n))"
    using Suc.prems put_bytes_snoc [of m "a - Suc n" "bytes_at m (b - Suc n) n" "m (b - 1)"]
    by (simp add: bytes_at_snoc)
  finally show ?case .
qed simp

lemma move_down_align_eq:
  "a mod 8 \<le> n \<Longrightarrow> b < a \<Longrightarrow> n \<le> b \<Longrightarrow> move_down_align m a b n = (m', a', b', n') \<Longrightarrow>
     move_down m' a' b' n' = move_down m a b n \<and> b' < a' \<and> n' \<le> b' \<and> n \<le> n' + a mod 8"
proof (induction m a b n rule: move_down_align.induct)
  case (1 m a b n)
  show ?case
  proof (cases "is_long_aligned a")
    case True
    then show ?thesis using "1.prems" by (auto simp: move_down_align.simps [of m a])
  next
    case False
    then obtain k where k: "n = Suc k" "(a - 1) mod 8 \<le> k" "a mod 8 = Suc ((a - 1) mod 8)"
      using "1.prems" by (cases n; cases a) (auto simp: is_long_aligned_def mod_Suc split: if_splits)
    have "move_down_align (m(a - 1 := m (b - 1))) (a - 1) (b - 1) (n - 1) = (m', a', b', n')"
      using "1.prems"(4) False by (simp add: move_down_align.simps [of m a])
    then show ?thesis using "1.IH" [OF False] "1.prems"(2,3) k by (auto simp: less_diff_conv2 fun_upd_def)
  qed
qed

lemma move_down_long:
  assumes "b < a" "n \<le> b" "8 \<le> n"
  shows "move_down (store_long m (a - 8) (load_long m (b - 8))) (a - 8) (b - 8) (n - 8) = move_down m a b n"
proof -
  let ?m = "put_bytes m (a - 8) (bytes_at m (b - 8) 8)"
  have sp: "bytes_at m (b - n) n = bytes_at m (b - n) (n - 8) @ bytes_at m (b - 8) 8"
    using bytes_at_add [of m "b - n" "n - 8" 8] assms by simp
  have un: "bytes_at ?m (b - n) (n - 8) = bytes_at m (b - n) (n - 8)"
    using assms by (intro bytes_at_cong put_bytes_outside) linarith
  have "move_down ?m (a - 8) (b - 8) (n - 8) = put_bytes ?m (a - n) (bytes_at m (b - n) (n - 8))"
    using assms un by (subst move_down_eq) simp_all
  also have "\<dots> = put_bytes m (a - n) (bytes_at m (b - n) n)"
    unfolding sp put_bytes_append using assms by (auto simp: put_bytes_def fun_eq_iff)
  finally show ?thesis using assms by (simp add: store_load_long move_down_eq)
qed

lemma move_down_longs_eq:
  "8 \<le> n \<Longrightarrow> b < a \<Longrightarrow> n \<le> b \<Longrightarrow> move_down_longs m a b n = (m', a', b', n') \<Longrightarrow>
     move_down m' a' b' n' = move_down m a b n"
proof (induction m a b n rule: move_down_longs.induct)
  case (1 m a b n)
  show ?case
  proof (cases "8 \<le> n - 8")
    case True
    then show ?thesis using 1 move_down_long [of b a n m]
      by (simp add: move_down_longs.simps [of m a b n] Let_def less_diff_conv2)
  next
    case False
    then show ?thesis using 1 move_down_long [of b a n m]
      by (auto simp: move_down_longs.simps [of m a b n] Let_def)
  qed
qed

lemma memmove_eq: "memmove m s1 s2 n = put_bytes m s1 (bytes_at m s2 n)"
proof (cases rule: linorder_cases [of s1 s2])
  case less
  have "memmove m s1 s2 n = move_up m s1 s2 n"
  proof (cases "n \<ge> LONG_STRING_SIZE \<and> is_long_aligned_equally s1 s2")
    case True
    obtain m1 a1 b1 n1 where 1: "move_up_align m s1 s2 n = (m1, a1, b1, n1)" by (metis prod_cases4)
    obtain m2 a2 b2 n2 where 2: "move_up_longs m1 a1 b1 n1 = (m2, a2, b2, n2)" by (metis prod_cases4)
    have "(8 - s1 mod 8) mod 8 \<le> n" "n \<ge> 32" using True align_le [of s1] by (auto simp: LONG_STRING_SIZE_def)
    with move_up_align_eq [OF this(1) less 1] move_up_longs_eq [OF _ _ 2] align_le [of s1] show ?thesis
      using True less 1 2 by (simp add: memmove_def)
  qed (use less in \<open>auto simp: memmove_def\<close>)
  then show ?thesis using less by (simp add: move_up_eq)
next
  case greater
  have "memmove m s1 s2 n = move_down m (s1 + n) (s2 + n) n"
  proof (cases "n \<ge> LONG_STRING_SIZE \<and> is_long_aligned_equally (s1 + n) (s2 + n)")
    case True
    obtain m1 a1 b1 n1 where 1: "move_down_align m (s1 + n) (s2 + n) n = (m1, a1, b1, n1)" by (metis prod_cases4)
    obtain m2 a2 b2 n2 where 2: "move_down_longs m1 a1 b1 n1 = (m2, a2, b2, n2)" by (metis prod_cases4)
    have l: "(s1 + n) mod 8 \<le> 7" using mod_less_divisor [of 8 "s1 + n"] by linarith
    have "n \<ge> 32" using True by (simp add: LONG_STRING_SIZE_def)
    with move_down_align_eq [OF _ _ _ 1] move_down_longs_eq [OF _ _ _ 2] l greater show ?thesis
      using True 1 2 by (simp add: memmove_def Let_def)
  qed (use greater in \<open>auto simp: memmove_def Let_def\<close>)
  then show ?thesis using greater by (simp add: move_down_eq)
qed (auto simp: memmove_def put_bytes_def fun_eq_iff)

section \<open>Bounded comparison\<close>

lemma strncmp_bytes_cstr:
  "cstr_at m a xs \<Longrightarrow> cstr_at m b ys \<Longrightarrow> strncmp_bytes m a b n = strcmp_spec (take n xs) (take n ys)"
proof (induction xs ys arbitrary: a b n rule: strcmp_spec.induct)
  case (4 x xs y ys)
  then show ?case by (cases n) auto
next
  case 1
  then show ?case by (cases n) auto
next
  case 2
  then show ?case by (cases n) auto
next
  case 3
  then show ?case by (cases n) auto
qed

lemma strncmp_bytes_skip:
  "bytes_at m a k = bytes_at m b k \<Longrightarrow> 0 \<notin> set (bytes_at m b k) \<Longrightarrow>
     strncmp_bytes m (a + k) (b + k) n = strncmp_bytes m a b (k + n)"
proof (induction k arbitrary: a b)
  case (Suc k)
  then show ?case using Suc.IH [of "Suc a" "Suc b"] by (auto simp: bytes_at_Suc)
qed simp

lemma strncmp_longs_eq:
  "strncmp_longs m a b n = (a', b', n') \<Longrightarrow> strncmp_bytes m a' b' n' = strncmp_bytes m a b n"
proof (induction m a b n rule: strncmp_longs.induct)
  case (1 m a b n)
  show ?case
  proof (cases "8 \<le> n \<and> load_long m a = load_long m b \<and> \<not> contains_nullbyte (load_long m a)")
    case True
    then have "bytes_at m a 8 = bytes_at m b 8" "0 \<notin> set (bytes_at m b 8)" "8 + (n - 8) = n"
      by (auto simp: load_long_eq_iff contains_nullbyte_bytes)
    then have "strncmp_bytes m (a + 8) (b + 8) (n - 8) = strncmp_bytes m a b n"
      using strncmp_bytes_skip [of m a 8 b "n - 8"] by simp
    moreover have "strncmp_longs m a b n = strncmp_longs m (a + 8) (b + 8) (n - 8)"
      using True by (subst strncmp_longs.simps) auto
    ultimately show ?thesis using "1.IH" [OF True] "1.prems" by simp
  next
    case False
    then have "strncmp_longs m a b n = (a, b, n)" by (subst strncmp_longs.simps) auto
    then show ?thesis using "1.prems" by simp
  qed
qed

lemma strncmp_align_eq:
  "(8 - a mod 8) mod 8 \<le> n \<Longrightarrow>
     (case strncmp_align m a b n of
        Inl r \<Rightarrow> r = strncmp_bytes m a b n
      | Inr (a', b', n') \<Rightarrow> strncmp_bytes m a' b' n' = strncmp_bytes m a b n)"
proof (induction m a b n rule: strncmp_align.induct)
  case (1 m a b n)
  show ?case
  proof (cases "is_long_aligned a")
    case False
    then obtain k where k: "n = Suc k" "(8 - Suc a mod 8) mod 8 \<le> k"
      using "1.prems" by (cases n) (simp_all add: align_steps)
    show ?thesis
    proof (cases "m a = m b \<and> m a \<noteq> 0")
      case True
      then have eq: "strncmp_align m a b n = strncmp_align m (Suc a) (Suc b) (n - 1)"
        "strncmp_bytes m a b n = strncmp_bytes m (Suc a) (Suc b) (n - 1)"
        using False k by (subst strncmp_align.simps, auto)
      show ?thesis unfolding eq using True False k by (intro "1.IH") auto
    next
      case neq: False
      then show ?thesis using False k by (subst strncmp_align.simps) auto
    qed
  qed (subst strncmp_align.simps, simp)
qed

lemma strncmp_eq: "strncmp m a b n = strncmp_bytes m a b n"
proof -
  have "n \<ge> LONG_STRING_SIZE \<Longrightarrow> (8 - a mod 8) mod 8 \<le> n"
    using align_le [of a] by (simp add: LONG_STRING_SIZE_def)
  then show ?thesis
    using strncmp_align_eq [where m = m and a = a and b = b and n = n]
    by (auto simp: strncmp_def strncmp_longs_eq split: sum.splits prod.splits)
qed

section \<open>Searching\<close>

lemma memchr_loop_eq:
  "memchr_loop m s c n = (if c \<in> set (bytes_at m s n)
     then Some (s + length (takeWhile (\<lambda>x. x \<noteq> c) (bytes_at m s n))) else None)"
  by (induction n arbitrary: s) (auto simp: bytes_at_Suc)

lemma memrchr_loop_eq:
  "memrchr_loop m (s + n) c n = (if c \<in> set (bytes_at m s n)
     then Some (s + n - 1 - length (takeWhile (\<lambda>x. x \<noteq> c) (rev (bytes_at m s n)))) else None)"
  by (induction n) (auto simp: bytes_at_snoc)

lemma strchr_loop_cstr:
  "cstr_at m s xs \<Longrightarrow> strchr_loop m s c = Some (if c \<in> set (xs @ [0])
     then Some (s + length (takeWhile (\<lambda>x. x \<noteq> c) xs)) else None)"
proof (induction xs arbitrary: s)
  case (Cons x xs)
  then show ?case by (subst strchr_loop.simps) auto
qed (subst strchr_loop.simps, auto)

lemma strrchr_loop_cstr:
  "cstr_at m s xs \<Longrightarrow> strrchr_loop m s c l = Some (if c \<in> set (xs @ [0])
     then Some (s + length xs - length (takeWhile (\<lambda>x. x \<noteq> c) (rev (xs @ [0])))) else l)"
proof (induction xs arbitrary: s l)
  case (Cons x xs)
  have "length (takeWhile (\<lambda>x. x \<noteq> c) (rev xs)) \<le> length xs"
    using length_takeWhile_le [of "\<lambda>x. x \<noteq> c" "rev xs"] by simp
  with Cons show ?case
    by (subst strrchr_loop.simps) (auto simp: Let_def takeWhile_append)
qed (subst strrchr_loop.simps, auto simp: Let_def)

lemma strspn_cstr:
  assumes "cstr_at m s1 xs" "cstr_at m s2 ys"
  shows "strspn m s1 s2 = Some (length (takeWhile (\<lambda>c. c \<in> set ys) xs))"
proof -
  have "byteismember (foldl byteaddset byteemptyset ys) = (\<lambda>c. c \<in> set ys)"
    by (rule ext) (rule bs.member_foldl_empty)
  then show ?thesis
    using scan_while_cstr [OF assms(1), of "\<lambda>c. c \<in> set ys"] cstr_at_no_null [OF assms(2)]
    by (simp add: strspn_def add_until_null [OF assms(2)])
qed

lemma strcspn_scan:
  assumes "cstr_at m s1 xs" "cstr_at m s2 ys"
  shows "do { bs \<leftarrow> add_through_null m s2 byteemptyset; scan_while (\<lambda>c. \<not> byteismember bs c) m s1 }
    = Some (s1 + length (takeWhile (\<lambda>c. c \<notin> set ys) xs))"
proof -
  have b: "byteismember (foldl byteaddset byteemptyset (ys @ [0])) c \<longleftrightarrow> c \<in> set (ys @ [0])" for c
    by (rule bs.member_foldl_empty)
  have "takeWhile (\<lambda>c. c \<notin> set (ys @ [0])) xs = takeWhile (\<lambda>c. c \<notin> set ys) xs"
    using cstr_at_no_null [OF assms(1)] by (intro takeWhile_cong) auto
  moreover have "0 \<in> set (ys @ [0])" by simp
  ultimately show ?thesis
    using scan_while_cstr [OF assms(1), of "\<lambda>c. c \<notin> set (ys @ [0])"]
    by (simp add: add_through_null [OF assms(2)] b del: foldl_append set_append)
qed

lemma strcspn_cstr:
  assumes "cstr_at m s1 xs" "cstr_at m s2 ys"
  shows "strcspn m s1 s2 = Some (length (takeWhile (\<lambda>c. c \<notin> set ys) xs))"
  using strcspn_scan [OF assms] add_through_null [OF assms(2)] by (simp add: strcspn_def)

lemma cstr_at_first: "cstr_at m p ys \<Longrightarrow> m p = (case ys of [] \<Rightarrow> 0 | c # _ \<Rightarrow> c)"
  by (cases ys) simp_all

lemma cstr_at_after_takeWhile:
  assumes "cstr_at m s xs"
  shows "m (s + length (takeWhile P xs)) = (case dropWhile P xs of [] \<Rightarrow> 0 | c # _ \<Rightarrow> c)"
proof -
  have "cstr_at m (s + length (takeWhile P xs)) (dropWhile P xs)"
    using cstr_at_drop [OF assms, of "length (takeWhile P xs)"]
    by (simp add: length_takeWhile_le dropWhile_eq_drop)
  then show ?thesis by (rule cstr_at_first)
qed

lemma strpbrk_cstr:
  assumes "cstr_at m s1 xs" "cstr_at m s2 ys"
  shows "strpbrk m s1 s2 = Some (if set xs \<inter> set ys = {} then None
    else Some (s1 + length (takeWhile (\<lambda>c. c \<notin> set ys) xs)))"
proof -
  have "m (s1 + length (takeWhile (\<lambda>c. c \<notin> set ys) xs)) = 0 \<longleftrightarrow> set xs \<inter> set ys = {}"
  proof (cases "dropWhile (\<lambda>c. c \<notin> set ys) xs")
    case Nil
    then have "m (s1 + length (takeWhile (\<lambda>c. c \<notin> set ys) xs)) = 0"
      unfolding cstr_at_after_takeWhile [OF assms(1)] by (simp only: list.case)
    moreover have "set xs \<inter> set ys = {}" using Nil by (auto simp: dropWhile_eq_Nil_conv)
    ultimately show ?thesis by simp
  next
    case (Cons c r)
    then have "c \<in> set xs" "c \<in> set ys"
      by (metis list.set_intros(1) set_dropWhileD, metis dropWhile_eq_Cons_conv)
    moreover have "c \<noteq> 0" using \<open>c \<in> set xs\<close> cstr_at_no_null [OF assms(1)] by metis
    ultimately show ?thesis
      using cstr_at_after_takeWhile [OF assms(1), of "\<lambda>c. c \<notin> set ys"] Cons by auto
  qed
  then show ?thesis using strcspn_scan [OF assms] add_through_null [OF assms(2)] by (simp add: strpbrk_def)
qed

section \<open>Copying strings\<close>

lemma strcpy_loop_cstr:
  "cstr_at m s2 xs \<Longrightarrow> s1 + length xs < s2 \<or> s2 + length xs < s1 \<Longrightarrow>
     strcpy_loop m s1 s2 = Some (put_bytes m s1 (xs @ [0]))"
proof (induction xs arbitrary: m s1 s2)
  case (Cons x xs)
  then have "s1 \<noteq> s2" by auto
  moreover have "strcpy_loop (m(s1 := x)) (Suc s1) (Suc s2) = Some (put_bytes (m(s1 := x)) (Suc s1) (xs @ [0]))"
    using Cons.prems by (intro Cons.IH) auto
  ultimately show ?case using Cons.prems
    by (subst strcpy_loop.simps) (auto simp: Let_def put_bytes_Cons)
qed (subst strcpy_loop.simps, auto simp: Let_def put_bytes_Cons)

lemma stpcpy_cstr:
  "cstr_at m s2 xs \<Longrightarrow> s1 + length xs < s2 \<or> s2 + length xs < s1 \<Longrightarrow>
     stpcpy m s1 s2 = Some (s1 + length xs, put_bytes m s1 (xs @ [0]))"
proof (induction xs arbitrary: m s1 s2)
  case (Cons x xs)
  then have "s1 \<noteq> s2" by auto
  moreover have "stpcpy (m(s1 := x)) (Suc s1) (Suc s2) = Some ((Suc s1 + length xs, put_bytes (m(s1 := x)) (Suc s1) (xs @ [0])))"
    using Cons.prems by (intro Cons.IH) auto
  ultimately show ?case using Cons.prems
    by (subst stpcpy.simps) (auto simp: Let_def put_bytes_Cons)
qed (subst stpcpy.simps, auto simp: Let_def put_bytes_Cons)

lemma strcat_cstr:
  assumes "cstr_at m s1 ds" "cstr_at m s2 xs"
    and "s1 + length ds + length xs < s2 \<or> s2 + length xs < s1 + length ds"
  shows "strcat m s1 s2 = Some (s1, put_bytes m (s1 + length ds) (xs @ [0]))"
  using assms by (simp add: strcat_def scan_nonnull strcpy_loop_cstr)

lemma strncat_loop_cstr:
  "cstr_at m s2 xs \<Longrightarrow> s1 + length xs < s2 \<or> s2 + length xs < s1 \<Longrightarrow>
     strncat_loop m s1 s2 n = put_bytes m s1 (take n xs @ [0])"
proof (induction n arbitrary: m s1 s2 xs)
  case (Suc n)
  show ?case
  proof (cases xs)
    case (Cons x xs')
    moreover have "strncat_loop (m(s1 := x)) (Suc s1) (Suc s2) n
        = put_bytes (m(s1 := x)) (Suc s1) (take n xs' @ [0])"
      using Suc.prems Cons by (intro Suc.IH) auto
    ultimately show ?thesis using Suc.prems by (auto simp: put_bytes_Cons)
  qed (use Suc.prems in \<open>simp add: put_bytes_Cons\<close>)
qed (simp add: put_bytes_Cons)

lemma stpncpy_loop_cstr:
  "cstr_at m s2 xs \<Longrightarrow> s1 + n \<le> s2 \<or> s2 + length xs < s1 \<Longrightarrow>
     stpncpy_loop m s1 s2 n
       = (s1 + min n (length xs), put_bytes m s1 (take n xs @ replicate (n - length xs) 0))"
proof (induction n arbitrary: m s1 s2 xs)
  case (Suc n)
  show ?case
  proof (cases xs)
    case (Cons x xs')
    moreover have "stpncpy_loop (m(s1 := x)) (Suc s1) (Suc s2) n = (Suc s1 + min n (length xs'),
        put_bytes (m(s1 := x)) (Suc s1) (take n xs' @ replicate (n - length xs') 0))"
      using Suc.prems Cons by (intro Suc.IH) auto
    ultimately show ?thesis using Suc.prems by (auto simp: put_bytes_Cons)
  qed (use Suc.prems in \<open>simp add: put_bytes_Cons memset_bytes_eq\<close>)
qed simp

lemma strl_copy_cstr:
  "cstr_at m s2 xs \<Longrightarrow> s1 + n \<le> s2 \<or> s2 + length xs < s1 \<Longrightarrow>
     strl_copy m s1 s2 n
       = Some (s2 + length xs, if n = 0 then m else put_bytes m s1 (take (n - 1) xs @ [0]))"
proof (induction n arbitrary: m s1 s2 xs)
  case 0
  then show ?case by (subst strl_copy.simps) (simp add: scan_nonnull)
next
  case (Suc n)
  show ?case
  proof (cases "n = 0")
    case True
    moreover have "scan_while (\<lambda>c. c \<noteq> 0) (m(s1 := 0)) s2 = Some (s2 + length xs)"
      using Suc.prems by (intro scan_nonnull) auto
    ultimately show ?thesis by (subst strl_copy.simps) (simp add: Let_def put_bytes_Cons)
  next
    case False
    show ?thesis
    proof (cases xs)
      case Nil
      then show ?thesis using Suc.prems False by (subst strl_copy.simps) (simp add: Let_def put_bytes_Cons)
    next
      case (Cons x xs')
      have "strl_copy (m(s1 := x)) (s1 + 1) (s2 + 1) n = Some (s2 + 1 + length xs',
          if n = 0 then m(s1 := x) else put_bytes (m(s1 := x)) (s1 + 1) (take (n - 1) xs' @ [0]))"
        using Suc.prems Cons by (intro Suc.IH) auto
      moreover have "m s2 = x" "x \<noteq> 0" "s1 \<noteq> s2" using Suc.prems Cons by auto
      then have "strl_copy m s1 s2 (Suc n) = strl_copy (m(s1 := x)) (s1 + 1) (s2 + 1) n"
        using False by (subst strl_copy.simps) (simp add: Let_def)
      moreover have "take n xs = x # take (n - 1) xs'" using Cons False by (cases n) auto
      ultimately show ?thesis using False Cons by (simp add: put_bytes_Cons)
    qed
  qed
qed

lemma strlcpy_cstr:
  assumes "cstr_at m s2 xs" "s1 + n \<le> s2 \<or> s2 + length xs < s1"
  shows "strlcpy m s1 s2 n
    = Some (length xs, if n = 0 then m else put_bytes m s1 (take (n - 1) xs @ [0]))"
  using strl_copy_cstr [OF assms] by (simp add: strlcpy_def)

text \<open>The part of a buffer of \<open>n\<close> bytes that is in use; a full buffer has no terminator.\<close>

definition used_bytes :: "mem \<Rightarrow> nat \<Rightarrow> nat \<Rightarrow> u8 list" where
  "used_bytes m s n = takeWhile (\<lambda>c. c \<noteq> 0) (bytes_at m s n)"

lemma used_bytes_length: "length (used_bytes m s n) \<le> n"
  using length_takeWhile_le [of "\<lambda>c. c \<noteq> 0" "bytes_at m s n"] by (simp add: used_bytes_def)

lemma used_bytes_prefix: "bytes_at m s (length (used_bytes m s n)) = used_bytes m s n"
proof -
  have "used_bytes m s n = take (length (used_bytes m s n)) (bytes_at m s n)"
    by (simp add: used_bytes_def takeWhile_eq_take [symmetric])
  also have "\<dots> = bytes_at m s (length (used_bytes m s n))"
    using used_bytes_length [of m s n] by (simp add: bytes_at_def take_map min_def)
  finally show ?thesis by simp
qed

lemma strlcat_skip_used:
  "strlcat_skip m s n k
     = (s + length (used_bytes m s n), n - length (used_bytes m s n), k + length (used_bytes m s n))"
  by (induction n arbitrary: s k) (simp_all add: used_bytes_def bytes_at_Suc)

lemma strlcat_cstr:
  assumes "cstr_at m s2 xs" "s1 + n \<le> s2 \<or> s2 + length xs < s1"
  defines "ds \<equiv> used_bytes m s1 n"
  shows "strlcat m s1 s2 n = Some (length ds + length xs,
    if length ds < n then put_bytes m s1 (ds @ take (n - length ds - 1) xs @ [0]) else m)"
proof -
  have l: "length ds \<le> n" by (simp add: ds_def used_bytes_length)
  have p: "put_bytes m (s1 + length ds) ys = put_bytes m s1 (ds @ ys)" for ys
    unfolding put_bytes_append ds_def
    by (subst (2) used_bytes_prefix [symmetric]) (auto simp: put_bytes_def fun_eq_iff)
  have "s1 + length ds + (n - length ds) \<le> s2 \<or> s2 + length xs < s1 + length ds" using assms(2) l by auto
  from strl_copy_cstr [OF assms(1) this] show ?thesis
    unfolding strlcat_def strlcat_skip_used ds_def [symmetric] using l by (auto simp: p)
qed

section \<open>Tokens\<close>

text \<open>
  The end of a token: where it stops at the terminator there is no next token, and elsewhere
  the separator is overwritten and the next token starts behind it.
\<close>

definition token_end :: "mem \<Rightarrow> nat \<Rightarrow> nat \<Rightarrow> u8 list \<Rightarrow> nat option \<times> mem \<times> nat option" where
  "token_end m s e rest =
     (if rest = [] then (Some s, m, None) else (Some s, m(e := 0), Some (e + 1)))"

lemma token_end_at:
  assumes "cstr_at m e rest"
  shows "(if m e = 0 then (Some s, m, None) else (Some s, m(e := 0), Some (e + 1))) = token_end m s e rest"
  using assms by (cases rest) (simp_all add: token_end_def)

lemma cstr_at_prefix: "cstr_at m p (xs @ ys) \<Longrightarrow> cstr_at (m(p + length xs := 0)) p xs"
proof (induction xs arbitrary: p)
  case (Cons x xs)
  then show ?case using Cons.IH [of "p + 1"] by simp
qed simp

lemma cstr_at_dropWhile:
  "cstr_at m s xs \<Longrightarrow> cstr_at m (s + length (takeWhile P xs)) (dropWhile P xs)"
  using cstr_at_drop [of m s xs "length (takeWhile P xs)"]
  by (simp add: length_takeWhile_le dropWhile_eq_drop)

lemma strsep_cstr:
  assumes "cstr_at m s xs" "cstr_at m sep ys"
  defines "t \<equiv> takeWhile (\<lambda>c. c \<notin> set ys) xs" and "r \<equiv> dropWhile (\<lambda>c. c \<notin> set ys) xs"
  shows "strsep m (Some s) sep = Some (token_end m s (s + length t) r)"
  using strcspn_cstr [OF assms(1,2)] token_end_at [OF cstr_at_dropWhile [OF assms(1)], where s = s]
  by (simp add: strsep_def Let_def t_def r_def)

lemma strtok_r_cstr:
  assumes s: "cstr_at m s xs" and y: "cstr_at m sep ys"
  defines "k \<equiv> length (takeWhile (\<lambda>c. c \<in> set ys) xs)" and "r \<equiv> dropWhile (\<lambda>c. c \<in> set ys) xs"
  defines "t \<equiv> takeWhile (\<lambda>c. c \<notin> set ys) r" and "u \<equiv> dropWhile (\<lambda>c. c \<notin> set ys) r"
  shows "strtok_r m (Some s) sep lasts =
    Some (if r = [] then (None, m, None) else token_end m (s + k) (s + k + length t) u)"
proof -
  let ?bs = "foldl byteaddset byteemptyset ys"
  have bs: "byteismember ?bs = (\<lambda>c. c \<in> set ys)"
    by (rule ext) (rule bs.member_foldl_empty)
  have bs0: "byteismember (byteaddset ?bs 0) c \<longleftrightarrow> c = 0 \<or> c \<in> set ys" for c
    using bs.member_foldl_empty [of "ys @ [0]" c] by auto
  have 1: "scan_while (\<lambda>c. c \<in> set ys) m s = Some (s + k)"
    using scan_while_cstr [OF s, of "\<lambda>c. c \<in> set ys"] cstr_at_no_null [OF y] by (simp add: k_def)
  have r: "cstr_at m (s + k) r" unfolding k_def r_def by (rule cstr_at_dropWhile [OF s])
  show ?thesis
  proof (cases r)
    case Nil
    then show ?thesis using r by (simp add: strtok_r_def add_until_null [OF y] bs 1)
  next
    case (Cons c cs)
    have c: "c \<notin> set ys" "c \<noteq> 0" "cstr_at m (Suc (s + k)) cs" "m (s + k) = c"
      using Cons [unfolded r_def] r [unfolded Cons] by (metis dropWhile_eq_Cons_conv, simp_all)
    have P: "(\<lambda>c. c \<noteq> 0 \<and> c \<notin> set ys) x = (x \<notin> set ys)" if "x \<in> set cs" for x
      using that cstr_at_no_null [OF c(3)] by auto
    have "takeWhile (\<lambda>c. c \<noteq> 0 \<and> c \<notin> set ys) cs = takeWhile (\<lambda>c. c \<notin> set ys) cs"
      by (rule takeWhile_cong) (simp_all add: P)
    then have 2: "scan_while (\<lambda>c. c \<noteq> 0 \<and> c \<notin> set ys) m (Suc (s + k)) = Some (s + k + length t)"
      using scan_while_cstr [OF c(3), of "\<lambda>c. c \<noteq> 0 \<and> c \<notin> set ys"] c(1) by (simp add: t_def Cons)
    have 3: "cstr_at m (s + k + length t) u"
      unfolding t_def u_def by (rule cstr_at_dropWhile [OF r])
    show ?thesis
      using c Cons 2 token_end_at [OF 3, of "s + k"]
      by (simp add: strtok_r_def add_until_null [OF y] bs 1 bs0 Let_def)
  qed
qed

section \<open>Properties\<close>

text \<open>C11: \<open>strlen()\<close> returns on every C string, whatever its alignment, and computes its length.\<close>

theorem strlen_correct:
  assumes "cstr_at m s xs"
  shows "strlen m s = Some (length xs)"
  using assms by (rule strlen_cstr)

theorem strlen_correct_witness:
  "strlen (put_bytes (\<lambda>_. 7) 5 [97, 98, 99, 0]) 5 = Some 3"
proof -
  have "cstr_at (put_bytes (\<lambda>_. 7) 5 [97, 98, 99, 0]) 5 [97, 98, 99]"
    by (simp add: put_bytes_def)
  from strlen_correct [OF this] show ?thesis by simp
qed

lemma byte_diff_less_0 [simp]: "byte_diff x y < 0 \<longleftrightarrow> x < y"
  by (simp add: byte_diff_def word_less_def)

lemma strcmp_spec_less_iff:
  "0 \<notin> set xs \<Longrightarrow> 0 \<notin> set ys \<Longrightarrow> strcmp_spec xs ys < 0 \<longleftrightarrow> ord_class.lexordp xs ys"
proof (induction xs ys rule: strcmp_spec.induct)
  case (4 x xs y ys)
  then show ?case by (auto simp: not_less order_le_less)
qed (auto simp: word_gt_0)

text \<open>
  C12: \<open>strcmp()\<close> returns on every pair of C strings, with or without the word-at-a-time fast
  path: its result is zero just for equal strings and negative just when the first precedes
  the second in the lexicographic order of unsigned bytes.
\<close>

theorem strcmp_correct:
  assumes "cstr_at m s1 xs" "cstr_at m s2 ys"
  shows "\<exists>r. strcmp m s1 s2 = Some r \<and> (r = 0 \<longleftrightarrow> xs = ys) \<and> (r < 0 \<longleftrightarrow> ord_class.lexordp xs ys)"
  using strcmp_cstr [OF assms] strcmp_spec_eq_0 strcmp_spec_less_iff
    cstr_at_no_null [OF assms(1)] cstr_at_no_null [OF assms(2)] by simp

theorem strcmp_correct_witness:
  "\<exists>r. strcmp (put_bytes (\<lambda>_. 0) 3 [97, 98, 0, 97, 200]) 3 6 = Some r \<and> r < 0"
proof -
  have "cstr_at (put_bytes (\<lambda>_. 0) 3 [97, 98, 0, 97, 200]) 3 [97, 98]"
    "cstr_at (put_bytes (\<lambda>_. 0) 3 [97, 98, 0, 97, 200]) 6 [97, 200]"
    by (simp_all add: put_bytes_def)
  from strcmp_correct [OF this] show ?thesis by auto
qed

lemma bytes_cmp_eq_0: "length xs = length ys \<Longrightarrow> bytes_cmp xs ys = 0 \<longleftrightarrow> xs = ys"
  by (induction xs ys rule: list_induct2) simp_all

lemma bytes_cmp_less_iff: "length xs = length ys \<Longrightarrow> bytes_cmp xs ys < 0 \<longleftrightarrow> ord_class.lexordp xs ys"
  by (induction xs ys rule: list_induct2) (auto simp: not_less order_le_less)

text \<open>
  \<open>memcmp()\<close>, with its alignment loop and its comparison of whole words, decides equality
  and the lexicographic order of the two buffers.
\<close>

theorem memcmp_correct:
  "(memcmp m s1 s2 n = 0 \<longleftrightarrow> bytes_at m s1 n = bytes_at m s2 n) \<and>
   (memcmp m s1 s2 n < 0 \<longleftrightarrow> ord_class.lexordp (bytes_at m s1 n) (bytes_at m s2 n))"
  by (simp add: memcmp_eq bytes_cmp_eq_0 bytes_cmp_less_iff)

text \<open>
  C9: \<open>memmove()\<close> (which is also \<open>memcpy()\<close>) leaves the original bytes of the source in the
  destination and every other byte alone, for every overlap and every alignment.
\<close>

theorem memmove_correct: "memmove m s1 s2 n = put_bytes m s1 (bytes_at m s2 n)"
  by (rule memmove_eq)

text \<open>\<open>memset()\<close> writes \<open>n\<close> copies of the byte and nothing else, for every alignment.\<close>

theorem memset_correct: "memset m s c n = put_bytes m s (replicate n (word_of_int c))"
  by (rule memset_eq)

text \<open>
  C31: \<open>strlcpy()\<close> and \<open>strlcat()\<close> never write outside the \<open>n\<close> bytes of the buffer, for every \<open>n\<close> and
  whatever the buffer holds: nothing is written when \<open>n\<close> is zero, or when \<open>strlcat()\<close> finds no terminator
  in the buffer. Otherwise they leave a terminated string that holds as much of the result as fits. They
  return the length that the result would have had, where the used part of the buffer counts at most
  \<open>n\<close>, so that a result of \<open>n\<close> or more signals truncation.
\<close>

theorem strlcpy_strlcat_correct:
  assumes "cstr_at m s2 xs" "s1 + n \<le> s2 \<or> s2 + length xs < s1"
  shows "(\<exists>m'. strlcpy m s1 s2 n = Some (length xs, m')
      \<and> (if n = 0 then m' = m else cstr_at m' s1 (take (n - 1) xs))
      \<and> (\<forall>a. a < s1 \<or> s1 + n \<le> a \<longrightarrow> m' a = m a)) \<and>
    (\<exists>m'. strlcat m s1 s2 n = Some (length (used_bytes m s1 n) + length xs, m')
      \<and> (if length (used_bytes m s1 n) < n then cstr_at m' s1 (take (n - 1) (used_bytes m s1 n @ xs)) else m' = m)
      \<and> (\<forall>a. a < s1 \<or> s1 + n \<le> a \<longrightarrow> m' a = m a))"
proof
  have x: "0 \<notin> set (take k xs)" for k using cstr_at_no_null [OF assms(1)] in_set_takeD by metis
  show "\<exists>m'. strlcpy m s1 s2 n = Some (length xs, m')
      \<and> (if n = 0 then m' = m else cstr_at m' s1 (take (n - 1) xs)) \<and> (\<forall>a. a < s1 \<or> s1 + n \<le> a \<longrightarrow> m' a = m a)"
    using strlcpy_cstr [OF assms] cstr_at_put [OF x] by auto
  define ds where "ds = used_bytes m s1 n"
  have d: "0 \<notin> set ds" by (auto simp: ds_def used_bytes_def dest: set_takeWhileD)
  show "\<exists>m'. strlcat m s1 s2 n = Some (length (used_bytes m s1 n) + length xs, m')
      \<and> (if length (used_bytes m s1 n) < n then cstr_at m' s1 (take (n - 1) (used_bytes m s1 n @ xs)) else m' = m)
      \<and> (\<forall>a. a < s1 \<or> s1 + n \<le> a \<longrightarrow> m' a = m a)"
  proof (cases "length ds < n")
    case True
    have "take (n - 1) (ds @ xs) = ds @ take (n - length ds - 1) xs" using True by (simp add: diff_right_commute)
    moreover have "cstr_at (put_bytes m s1 ((ds @ take (n - length ds - 1) xs) @ [0])) s1 (ds @ take (n - length ds - 1) xs)"
      using d x by (intro cstr_at_put) simp
    ultimately show ?thesis using strlcat_cstr [OF assms] True unfolding ds_def [symmetric] by auto
  next
    case False
    then show ?thesis using strlcat_cstr [OF assms] unfolding ds_def [symmetric] by auto
  qed
qed

theorem strlcpy_strlcat_correct_witness:
  "let m = put_bytes (\<lambda>_. 0) 16 [97, 98, 0, 0, 0, 0, 0, 0, 0, 0, 0, 0, 0, 0, 0, 0, 99, 100, 101]
   in strlcpy m 16 32 0 = Some (3, m) \<and> strlcat m 16 32 2 = Some (5, m)
     \<and> (\<exists>m'. strlcat m 16 32 4 = Some (5, m') \<and> cstr_at m' 16 [97, 98, 99] \<and> m' 20 = 0)"
proof -
  let ?m = "put_bytes (\<lambda>_. 0) 16 [97, 98, 0, 0, 0, 0, 0, 0, 0, 0, 0, 0, 0, 0, 0, 0, 99, 100, 101]"
  have m: "cstr_at ?m 32 [99, 100, 101]" by (simp add: put_bytes_def)
  have u: "used_bytes ?m 16 2 = [97, 98]" "used_bytes ?m 16 4 = [97, 98]" by code_simp+
  have "?m 20 = 0" by (simp add: put_bytes_def)
  with strlcpy_strlcat_correct [OF m, of 16 0] strlcpy_strlcat_correct [OF m, of 16 2] strlcpy_strlcat_correct [OF m, of 16 4]
  show ?thesis unfolding u Let_def by auto
qed

text \<open>
  C24: \<open>strtok_r()\<close> skips leading separators and returns the maximal run of other bytes as a
  terminated string, saving where the search goes on; a string without such a run gives
  \<open>NULL\<close>. The separator is the only byte that is overwritten.
\<close>

theorem strtok_r_correct:
  assumes "cstr_at m s xs" "cstr_at m sep ys"
    and "dropWhile (\<lambda>c. c \<in> set ys) xs = tok @ rest" "set tok \<inter> set ys = {}"
    and "tok = [] \<longrightarrow> rest = []" "rest = [] \<or> hd rest \<in> set ys"
  shows "\<exists>m'. strtok_r m (Some s) sep lasts =
      Some (if tok = [] then (None, m, None)
            else (Some (s + length xs - length (tok @ rest)), m',
                  if rest = [] then None else Some (s + length xs - length rest + 1)))
    \<and> (tok \<noteq> [] \<longrightarrow> cstr_at m' (s + length xs - length (tok @ rest)) tok)
    \<and> (\<forall>a. m' a \<noteq> m a \<longrightarrow> a = s + length xs - length rest \<and> rest \<noteq> [])"
proof -
  let ?P = "\<lambda>c. c \<in> set ys"
  have t: "takeWhile (\<lambda>c. \<not> ?P c) (tok @ rest) = tok" "dropWhile (\<lambda>c. \<not> ?P c) (tok @ rest) = rest"
    using assms(4,6) by (cases rest; auto simp: takeWhile_append dropWhile_append disjoint_iff)+
  have "length xs = length (takeWhile ?P xs) + length (tok @ rest)"
    using arg_cong [OF takeWhile_dropWhile_id [of ?P xs], of length] unfolding assms(3) by simp
  then have k: "s + length (takeWhile ?P xs) = s + length xs - length (tok @ rest)"
    "s + length (takeWhile ?P xs) + length tok = s + length xs - length rest" by simp_all
  have c: "cstr_at m (s + length xs - length (tok @ rest)) (tok @ rest)"
    using cstr_at_dropWhile [OF assms(1), of ?P] unfolding assms(3) k .
  then have "cstr_at (m(s + length xs - length rest := 0)) (s + length xs - length (tok @ rest)) tok"
    unfolding k(2) [symmetric] k(1) [symmetric] by (rule cstr_at_prefix)
  moreover have "rest = [] \<Longrightarrow> cstr_at m (s + length xs - length (tok @ rest)) tok" using c by simp
  moreover have "tok @ rest = [] \<longleftrightarrow> tok = []" using assms(5) by auto
  ultimately show ?thesis
    using strtok_r_cstr [OF assms(1,2), of lasts] unfolding assms(3) t k(2) unfolding k(1) token_end_def
    by (cases "rest = []") auto
qed

theorem strtok_r_correct_witness:
  "let m = put_bytes (\<lambda>_. 0) 10 [44, 97, 98, 44, 99, 0, 44]
   in \<exists>m'. strtok_r m (Some 10) 16 None = Some (Some 11, m', Some 14) \<and> cstr_at m' 11 [97, 98]"
proof -
  let ?m = "put_bytes (\<lambda>_. 0) 10 [44, 97, 98, 44, 99, 0, 44]"
  have "cstr_at ?m 10 [44, 97, 98, 44, 99]" "cstr_at ?m 16 [44]"
    by (simp_all add: put_bytes_def)
  from strtok_r_correct [OF this, of "[97, 98]" "[44, 99]" None] show ?thesis
    by (auto simp: Let_def)
qed

text \<open>
  \<open>strspn()\<close>, \<open>strcspn()\<close> and \<open>strpbrk()\<close> return on every pair of C strings and measure
  the longest prefix of bytes in, or not in, the set of bytes of the second string.
\<close>

theorem strspn_strcspn_strpbrk_correct:
  assumes "cstr_at m s1 xs" "cstr_at m s2 ys"
  shows "strspn m s1 s2 = Some (length (takeWhile (\<lambda>c. c \<in> set ys) xs)) \<and>
    strcspn m s1 s2 = Some (length (takeWhile (\<lambda>c. c \<notin> set ys) xs)) \<and>
    strpbrk m s1 s2 = Some (if set xs \<inter> set ys = {} then None
      else Some (s1 + length (takeWhile (\<lambda>c. c \<notin> set ys) xs)))"
  using assms by (simp add: strspn_cstr strcspn_cstr strpbrk_cstr)

end
