(* ===== verification/Mqueue.thy ===== *)
theory Mqueue
  imports Prelude "HOL-Library.Monad_Syntax"
begin

text \<open>
  The message queues of \<^verbatim>\<open>libc/mqueue\<close>.
  A queue keeps its messages in two linked lists over the same nodes: one through every message
  in the order of extraction, and a skip list through the last message of every priority. The
  nodes live in an explicit store, so that the aliasing of the two lists is visible; a
  \<open>struct message **\<close> is \<open>None\<close> for the head field of the queue and \<open>Some a\<close> for the field
  of the node at \<open>a\<close>. Each operation runs under the queue's lock and is modelled as one
  transition; \<open>pthread_cond_wait()\<close> releases the lock, so the wait loops take the list of the
  states that the queue is in when the waits return.
\<close>

section \<open>Queues\<close>

record message =
  next_receive :: "nat option"
  next_send :: "nat option"
  msg_length :: nat
  priority :: u32
  contents :: "u8 list"

record mq_attr =
  mq_flags :: int
  mq_maxmsg :: int
  mq_msgsize :: int
  mq_curmsgs :: int

record mqd =
  attr :: mq_attr
  queue_receive :: "nat option"
  queue_send :: "nat option"
  messages :: "nat \<Rightarrow> message"
  allocated :: "nat set"

definition O_NONBLOCK :: int where
  "O_NONBLOCK = 4"

text \<open>
  \<open>mq_init()\<close>: the arguments are the outcomes of the allocation of the queue and of the
  initialisations of its lock and its condition variables. Where one of these fails, the function returns
  \<open>-1\<close> and does not set \<open>errno\<close> (\<open>None\<close>); \<open>malloc()\<close> does.
\<close>

definition mq_init :: "bool \<Rightarrow> bool \<Rightarrow> bool \<Rightarrow> bool \<Rightarrow> mq_attr \<Rightarrow> errno option + mqd" where
  "mq_init malloc_ok mutex_ok cond_receive_ok cond_send_ok a =
     (if mq_flags a AND NOT O_NONBLOCK \<noteq> 0 \<or> mq_maxmsg a \<le> 0 \<or> mq_msgsize a \<le> 0 then Inl (Some EINVAL)
      else if \<not> malloc_ok then Inl (Some ENOMEM)
      else if \<not> mutex_ok then Inl None
      else if \<not> cond_receive_ok then Inl None
      else if \<not> cond_send_ok then Inl None
      else Inr \<lparr>attr = a\<lparr>mq_curmsgs := 0\<rparr>, queue_receive = None, queue_send = None,
                messages = (\<lambda>_. \<lparr>next_receive = None, next_send = None, msg_length = 0,
                                 priority = 0, contents = []\<rparr>),
                allocated = {}\<rparr>)"

definition mq_getattr :: "mqd \<Rightarrow> mq_attr" where
  "mq_getattr q = attr q"

definition mq_setattr :: "mqd \<Rightarrow> mq_attr \<Rightarrow> errno + mq_attr \<times> mqd" where
  "mq_setattr q mqstat =
     (if mq_flags mqstat AND NOT O_NONBLOCK \<noteq> 0 then Inl EINVAL
      else Inr (attr q, q\<lparr>attr := (attr q)\<lparr>mq_flags := mq_flags mqstat\<rparr>\<rparr>))"

text \<open>The nodes that \<open>mq_destroy()\<close> frees, following the receive list from \<open>m\<close>.\<close>

partial_function (option) mq_free_messages :: "(nat \<Rightarrow> message) \<Rightarrow> nat option \<Rightarrow> nat set \<Rightarrow> nat set option" where
  "mq_free_messages ms m alloc =
     (case m of
        None \<Rightarrow> Some alloc
      | Some a \<Rightarrow> mq_free_messages ms (next_receive (ms a)) (alloc - {a}))"

definition mq_destroy :: "mqd \<Rightarrow> nat set option" where
  "mq_destroy q = mq_free_messages (messages q) (queue_receive q) (allocated q)"

definition mq_receive_pre :: "mqd \<Rightarrow> nat \<Rightarrow> errno option" where
  "mq_receive_pre q msg_len =
     (if int msg_len < mq_msgsize (attr q) then Some EMSGSIZE
      else if mq_curmsgs (attr q) \<le> 0 \<and> mq_flags (attr q) AND O_NONBLOCK \<noteq> 0 then Some EAGAIN
      else None)"

text \<open>
  \<open>mq_receive_post()\<close> returns the bytes it copies out and the priority; \<open>None\<close> is the
  dereference of a null pointer.
\<close>

definition mq_receive_post :: "mqd \<Rightarrow> ((u8 list \<times> u32) \<times> mqd) option" where
  "mq_receive_post q =
     (case queue_receive q of
        None \<Rightarrow> None
      | Some m \<Rightarrow>
          (let q = q\<lparr>queue_receive := next_receive (messages q m)\<rparr>;
               q = q\<lparr>attr := (attr q)\<lparr>mq_curmsgs := mq_curmsgs (attr q) - 1\<rparr>\<rparr>;
               q = (if queue_send q = Some m then q\<lparr>queue_send := next_send (messages q m)\<rparr> else q);
               msg = messages q m
           in Some ((take (msg_length msg) (contents msg), priority msg),
                    q\<lparr>allocated := allocated q - {m}\<rparr>)))"

definition mq_send_pre :: "mqd \<Rightarrow> nat \<Rightarrow> errno option" where
  "mq_send_pre q msg_len =
     (if int msg_len > mq_msgsize (attr q) then Some EMSGSIZE
      else if mq_curmsgs (attr q) \<ge> mq_maxmsg (attr q) \<and> mq_flags (attr q) AND O_NONBLOCK \<noteq> 0
      then Some EAGAIN
      else None)"

text \<open>Reading and writing through a \<open>struct message **\<close>.\<close>

definition get_receive :: "mqd \<Rightarrow> nat option \<Rightarrow> nat option" where
  "get_receive q p = (case p of None \<Rightarrow> queue_receive q | Some a \<Rightarrow> next_receive (messages q a))"

definition get_send :: "mqd \<Rightarrow> nat option \<Rightarrow> nat option" where
  "get_send q p = (case p of None \<Rightarrow> queue_send q | Some a \<Rightarrow> next_send (messages q a))"

definition set_receive :: "mqd \<Rightarrow> nat option \<Rightarrow> nat option \<Rightarrow> mqd" where
  "set_receive q p v =
     (case p of
        None \<Rightarrow> q\<lparr>queue_receive := v\<rparr>
      | Some a \<Rightarrow> q\<lparr>messages := (messages q)(a := (messages q a)\<lparr>next_receive := v\<rparr>)\<rparr>)"

definition set_send :: "mqd \<Rightarrow> nat option \<Rightarrow> nat option \<Rightarrow> mqd" where
  "set_send q p v =
     (case p of
        None \<Rightarrow> q\<lparr>queue_send := v\<rparr>
      | Some a \<Rightarrow> q\<lparr>messages := (messages q)(a := (messages q a)\<lparr>next_send := v\<rparr>)\<rparr>)"

text \<open>
  The scan of \<open>mq_send_post()\<close>: \<open>m_receive\<close> and \<open>m_send\<close> where the loop stops, and whether
  \<open>*m_send\<close> is the last message of the same priority.
\<close>

partial_function (option) mq_send_scan ::
    "mqd \<Rightarrow> u32 \<Rightarrow> nat option \<Rightarrow> nat option \<Rightarrow> (nat option \<times> nat option \<times> bool) option" where
  "mq_send_scan q msg_prio m_receive m_send =
     (case get_send q m_send of
        None \<Rightarrow> Some (m_receive, m_send, False)
      | Some a \<Rightarrow>
          if priority (messages q a) \<le> msg_prio
          then Some (m_receive, m_send, priority (messages q a) = msg_prio)
          else mq_send_scan q msg_prio (Some a) (Some a))"

definition mq_send_insert :: "mqd \<Rightarrow> nat \<Rightarrow> nat option \<Rightarrow> nat option \<Rightarrow> bool \<Rightarrow> mqd" where
  "mq_send_insert q m m_receive m_send same =
     (if same then
        (let s = get_send q m_send;
             q = set_receive q (Some m) (get_receive q s);
             q = set_receive q s (Some m);
             q = set_send q (Some m) (get_send q s)
         in set_send q m_send (Some m))
      else
        (let q = set_receive q (Some m) (get_receive q m_receive);
             q = set_receive q m_receive (Some m);
             q = set_send q (Some m) (get_send q m_send)
         in set_send q m_send (Some m)))"

text \<open>\<open>malloc\<close> is given the allocated addresses, and returns a new one or fails.\<close>

definition mq_send_post :: "(nat set \<Rightarrow> nat option) \<Rightarrow> mqd \<Rightarrow> u8 list \<Rightarrow> u32 \<Rightarrow> (errno option \<times> mqd) option" where
  "mq_send_post malloc q msg msg_prio =
     (case malloc (allocated q) of
        None \<Rightarrow> Some (Some ENOMEM, q)
      | Some m \<Rightarrow>
          (let q = q\<lparr>allocated := insert m (allocated q),
                     messages := (messages q)(m := (messages q m)
                       \<lparr>msg_length := length msg, priority := msg_prio, contents := msg\<rparr>)\<rparr>
           in do { (m_receive, m_send, same) \<leftarrow> mq_send_scan q msg_prio None None;
                   let q = mq_send_insert q m m_receive m_send same;
                   Some (None, q\<lparr>attr := (attr q)\<lparr>mq_curmsgs := mq_curmsgs (attr q) + 1\<rparr>\<rparr>) }))"

section \<open>Blocking operations\<close>

text \<open>
  The waits of a call: each returns with an error (only the timed variants fail) or
  successfully, and the queue is in some state then. A call whose waits have not all returned
  is \<open>Waiting\<close>.
\<close>

type_synonym wakeups = "(errno option \<times> mqd) list"

datatype 'r outcome = Waiting mqd | Returned 'r mqd

fun mq_send_wait :: "mqd \<Rightarrow> wakeups \<Rightarrow> (errno \<times> mqd) + mqd outcome" where
  "mq_send_wait q ws =
     (if mq_curmsgs (attr q) \<ge> mq_maxmsg (attr q) then
        (case ws of
           [] \<Rightarrow> Inr (Waiting q)
         | (Some e, q') # ws' \<Rightarrow> Inl (e, q')
         | (None, q') # ws' \<Rightarrow> mq_send_wait q' ws')
      else Inr (Returned q q))"

fun mq_receive_wait :: "mqd \<Rightarrow> wakeups \<Rightarrow> (errno \<times> mqd) + mqd outcome" where
  "mq_receive_wait q ws =
     (if mq_curmsgs (attr q) \<le> 0 then
        (case ws of
           [] \<Rightarrow> Inr (Waiting q)
         | (Some e, q') # ws' \<Rightarrow> Inl (e, q')
         | (None, q') # ws' \<Rightarrow> mq_receive_wait q' ws')
      else Inr (Returned q q))"

definition mq_timedsend ::
    "(nat set \<Rightarrow> nat option) \<Rightarrow> mqd \<Rightarrow> u8 list \<Rightarrow> u32 \<Rightarrow> wakeups \<Rightarrow> errno option outcome option" where
  "mq_timedsend malloc q msg msg_prio ws =
     (case mq_send_pre q (length msg) of
        Some e \<Rightarrow> Some (Returned (Some e) q)
      | None \<Rightarrow>
          (case mq_send_wait q ws of
             Inl (e, q) \<Rightarrow> Some (Returned (Some e) q)
           | Inr (Waiting q) \<Rightarrow> Some (Waiting q)
           | Inr (Returned q _) \<Rightarrow>
               do { (r, q) \<leftarrow> mq_send_post malloc q msg msg_prio; Some (Returned r q) }))"

definition mq_send ::
    "(nat set \<Rightarrow> nat option) \<Rightarrow> mqd \<Rightarrow> u8 list \<Rightarrow> u32 \<Rightarrow> mqd list \<Rightarrow> errno option outcome option" where
  "mq_send malloc q msg msg_prio ws = mq_timedsend malloc q msg msg_prio (map (Pair None) ws)"

definition mq_timedreceive :: "mqd \<Rightarrow> nat \<Rightarrow> wakeups \<Rightarrow> (errno + u8 list \<times> u32) outcome option" where
  "mq_timedreceive q msg_len ws =
     (case mq_receive_pre q msg_len of
        Some e \<Rightarrow> Some (Returned (Inl e) q)
      | None \<Rightarrow>
          (case mq_receive_wait q ws of
             Inl (e, q) \<Rightarrow> Some (Returned (Inl e) q)
           | Inr (Waiting q) \<Rightarrow> Some (Waiting q)
           | Inr (Returned q _) \<Rightarrow>
               do { (r, q) \<leftarrow> mq_receive_post q; Some (Returned (Inr r) q) }))"

definition mq_receive :: "mqd \<Rightarrow> nat \<Rightarrow> mqd list \<Rightarrow> (errno + u8 list \<times> u32) outcome option" where
  "mq_receive q msg_len ws = mq_timedreceive q msg_len (map (Pair None) ws)"

section \<open>Linked lists\<close>

text \<open>Following \<open>n\<close> from \<open>p\<close> visits \<open>as\<close> and arrives at \<open>r\<close>.\<close>

fun lseg :: "(nat \<Rightarrow> nat option) \<Rightarrow> nat option \<Rightarrow> nat list \<Rightarrow> nat option \<Rightarrow> bool" where
  "lseg n p [] r = (p = r)"
| "lseg n p (a # as) r = (p = Some a \<and> lseg n (n a) as r)"

lemma lseg_append: "lseg n p (as @ bs) r \<longleftrightarrow> (\<exists>q. lseg n p as q \<and> lseg n q bs r)"
  by (induction as arbitrary: p) auto

lemma lseg_end: "lseg n p as r \<Longrightarrow> (if as = [] then p else n (last as)) = r"
  by (induction as arbitrary: p) auto

lemma lseg_cong: "(\<And>a. a \<in> set as \<Longrightarrow> n a = n' a) \<Longrightarrow> lseg n p as r = lseg n' p as r"
  by (induction as arbitrary: p) auto

lemma lseg_upd_last:
  "lseg n p as q \<Longrightarrow> distinct as \<Longrightarrow> as \<noteq> [] \<Longrightarrow> n' (last as) = r \<Longrightarrow>
     (\<And>a. a \<in> set as \<Longrightarrow> a \<noteq> last as \<Longrightarrow> n' a = n a) \<Longrightarrow> lseg n' p as r"
proof (cases as rule: rev_cases)
  case (snoc bs a)
  assume *: "lseg n p as q" "distinct as" "n' (last as) = r" "\<And>a. a \<in> set as \<Longrightarrow> a \<noteq> last as \<Longrightarrow> n' a = n a"
  then have "lseg n p bs (Some a)" using snoc by (auto simp: lseg_append)
  moreover have "lseg n' p bs (Some a) = lseg n p bs (Some a)"
    using * snoc by (intro lseg_cong) auto
  ultimately show ?thesis using * snoc by (auto simp: lseg_append)
qed simp

lemma lseg_first: "lseg n p as None \<Longrightarrow> p = (case as of [] \<Rightarrow> None | a # _ \<Rightarrow> Some a)"
  by (cases as) auto

text \<open>The node \<open>m\<close> is linked in between \<open>as\<close> and \<open>bs\<close>.\<close>

lemma lseg_link:
  assumes "lseg n p as q" "lseg n r bs None" "distinct as" "set as \<inter> set bs = {}"
    and "n' m = r" "as \<noteq> [] \<Longrightarrow> n' (last as) = Some m" "p' = (if as = [] then Some m else p)"
    and "\<And>a. a \<in> set as \<Longrightarrow> a \<noteq> last as \<Longrightarrow> n' a = n a" "\<And>a. a \<in> set bs \<Longrightarrow> n' a = n a"
  shows "lseg n' p' (as @ m # bs) None"
proof -
  have "lseg n' p' as (Some m)"
    using assms(1,3,6,7,8) by (cases "as = []") (auto intro: lseg_upd_last)
  moreover have "lseg n' r bs None" using assms(2,9) lseg_cong [of bs n' n] by auto
  ultimately show ?thesis using assms(5) by (auto simp: lseg_append)
qed

section \<open>The invariant of a queue\<close>

text \<open>
  The messages form groups of equal priority, in decreasing order of priority: the receive list
  visits all messages, the send list the last message of every group.
\<close>

definition mq_inv :: "mqd \<Rightarrow> nat list list \<Rightarrow> bool" where
  "mq_inv q gs \<longleftrightarrow>
     lseg (\<lambda>a. next_receive (messages q a)) (queue_receive q) (concat gs) None \<and>
     lseg (\<lambda>a. next_send (messages q a)) (queue_send q) (map last gs) None \<and>
     (\<forall>g \<in> set gs. g \<noteq> [] \<and> (\<forall>a \<in> set g. priority (messages q a) = priority (messages q (last g)))) \<and>
     sorted_wrt (\<lambda>g h. priority (messages q (last h)) < priority (messages q (last g))) gs \<and>
     distinct (concat gs) \<and> set (concat gs) \<subseteq> allocated q \<and>
     mq_curmsgs (attr q) = int (length (concat gs))"

definition queued :: "mqd \<Rightarrow> nat list list \<Rightarrow> (u8 list \<times> u32) list" where
  "queued q gs = map (\<lambda>a. (take (msg_length (messages q a)) (contents (messages q a)), priority (messages q a))) (concat gs)"

lemma mq_send_scan_slot:
  "lseg (\<lambda>a. next_send (messages q a)) (get_send q p) (map last (hi @ rest)) None \<Longrightarrow>
   \<forall>g \<in> set hi. pr < priority (messages q (last g)) \<Longrightarrow>
   (case rest of [] \<Rightarrow> True | g # _ \<Rightarrow> priority (messages q (last g)) \<le> pr) \<Longrightarrow>
     mq_send_scan q pr p p =
       (let s = (if hi = [] then p else Some (last (last hi)))
        in Some (s, s, case rest of [] \<Rightarrow> False | g # _ \<Rightarrow> priority (messages q (last g)) = pr))"
proof (induction hi arbitrary: p)
  case Nil
  then show ?case by (cases rest) (subst mq_send_scan.simps, simp)+
next
  case (Cons g hi)
  have g: "get_send q p = Some (last g)" using Cons.prems(1) by simp
  have "mq_send_scan q pr p p = mq_send_scan q pr (Some (last g)) (Some (last g))"
    using Cons.prems(2) g by (subst mq_send_scan.simps) auto
  also have "\<dots> = (let s = (if hi = [] then Some (last g) else Some (last (last hi)))
      in Some (s, s, case rest of [] \<Rightarrow> False | g # _ \<Rightarrow> priority (messages q (last g)) = pr))"
    using Cons.prems by (intro Cons.IH) (auto simp: get_send_def)
  finally show ?case by simp
qed

lemma mq_send_insert_new:
  fixes q :: mqd
  assumes "s \<noteq> Some m"
  defines "q' \<equiv> mq_send_insert q m s s False"
  shows "next_receive (messages q' a) = (if s = Some a then Some m else if a = m then get_receive q s
      else next_receive (messages q a))"
    and "next_send (messages q' a) = (if s = Some a then Some m else if a = m then get_send q s
      else next_send (messages q a))"
    and "queue_receive q' = (if s = None then Some m else queue_receive q)"
    and "queue_send q' = (if s = None then Some m else queue_send q)"
    and "priority (messages q' a) = priority (messages q a)" "msg_length (messages q' a) = msg_length (messages q a)"
    "contents (messages q' a) = contents (messages q a)" "attr q' = attr q" "allocated q' = allocated q"
  using assms(1) unfolding q'_def
  by (cases s; simp add: mq_send_insert_def set_receive_def set_send_def get_receive_def get_send_def Let_def)+

lemma mq_send_insert_same:
  fixes q :: mqd
  assumes "s \<noteq> Some m" "get_send q s = Some x" "x \<noteq> m"
  defines "q' \<equiv> mq_send_insert q m s s True"
  shows "next_receive (messages q' a) = (if a = x then Some m else if a = m then next_receive (messages q x)
      else next_receive (messages q a))"
    and "next_send (messages q' a) = (if s = Some a then Some m else if a = m then next_send (messages q x)
      else next_send (messages q a))"
    and "queue_receive q' = queue_receive q"
    and "queue_send q' = (if s = None then Some m else queue_send q)"
    and "priority (messages q' a) = priority (messages q a)" "msg_length (messages q' a) = msg_length (messages q a)"
    "contents (messages q' a) = contents (messages q a)" "attr q' = attr q" "allocated q' = allocated q"
  using assms(1-3) unfolding q'_def
  by (cases s; simp add: mq_send_insert_def set_receive_def set_send_def get_receive_def get_send_def Let_def)+

text \<open>The state in which the new message is filled in but not linked.\<close>

definition mq_new :: "mqd \<Rightarrow> nat \<Rightarrow> u8 list \<Rightarrow> u32 \<Rightarrow> mqd" where
  "mq_new q m msg pr = q\<lparr>allocated := insert m (allocated q),
     messages := (messages q)(m := (messages q m)\<lparr>msg_length := length msg, priority := pr, contents := msg\<rparr>)\<rparr>"

lemma mq_invD:
  assumes "mq_inv q gs"
  shows "lseg (\<lambda>a. next_receive (messages q a)) (queue_receive q) (concat gs) None"
    and "lseg (\<lambda>a. next_send (messages q a)) (queue_send q) (map last gs) None"
    and "\<forall>g \<in> set gs. g \<noteq> []"
    and "sorted_wrt (\<lambda>g h. priority (messages q (last h)) < priority (messages q (last g))) gs"
    and "distinct (concat gs)" "set (concat gs) \<subseteq> allocated q"
    and "mq_curmsgs (attr q) = int (length (concat gs))"
  using assms unfolding mq_inv_def by blast+

lemma mq_inv_priority:
  "mq_inv q gs \<Longrightarrow> g \<in> set gs \<Longrightarrow> a \<in> set g \<Longrightarrow> priority (messages q a) = priority (messages q (last g))"
  unfolding mq_inv_def by blast

lemma mq_inv_groups:
  assumes "mq_inv q gs"
  shows "g \<in> set gs \<Longrightarrow> last g \<in> set g" "g \<in> set gs \<Longrightarrow> a \<in> set g \<Longrightarrow> a \<in> allocated q"
    "g \<in> set gs \<Longrightarrow> last g \<in> set (concat gs)"
  using mq_invD(3,6) [OF assms] by (auto intro!: bexI [of _ g])

lemma distinct_map_last: "distinct (concat gs) \<Longrightarrow> \<forall>g \<in> set gs. g \<noteq> [] \<Longrightarrow> distinct (map last gs)"
proof (induction gs)
  case (Cons g gs)
  have "last g \<notin> last ` set gs"
  proof
    assume "last g \<in> last ` set gs"
    then obtain h where "h \<in> set gs" "last g = last h" by blast
    moreover have "last g \<in> set g" using Cons.prems(2) by (intro last_in_set) simp
    moreover have "last h \<in> set h" using Cons.prems(2) \<open>h \<in> set gs\<close> by (intro last_in_set) simp
    ultimately have "last g \<in> set g" "last g \<in> set (concat gs)" by auto
    then show False using Cons.prems(1) by auto
  qed
  then show ?case using Cons by simp
qed simp

lemma mq_inv_cong:
  assumes inv: "mq_inv q gs" and m: "\<And>a. a \<in> set (concat gs) \<Longrightarrow> messages q' a = messages q a"
    and q: "queue_receive q' = queue_receive q" "queue_send q' = queue_send q" "attr q' = attr q"
      "allocated q \<subseteq> allocated q'"
  shows "mq_inv q' gs"
proof -
  note I = inv [unfolded mq_inv_def]
  have l: "messages q' (last g) = messages q (last g)" if "g \<in> set gs" for g
    using m mq_inv_groups(3) [OF inv that] by blast
  show ?thesis
    unfolding mq_inv_def
  proof (intro conjI ballI)
    have "lseg (\<lambda>a. next_receive (messages q' a)) (queue_receive q) (concat gs) None
        = lseg (\<lambda>a. next_receive (messages q a)) (queue_receive q) (concat gs) None"
      by (rule lseg_cong) (simp only: m)
    then show "lseg (\<lambda>a. next_receive (messages q' a)) (queue_receive q') (concat gs) None"
      unfolding q(1) using I by blast
    have "lseg (\<lambda>a. next_send (messages q' a)) (queue_send q) (map last gs) None
        = lseg (\<lambda>a. next_send (messages q a)) (queue_send q) (map last gs) None"
      by (rule lseg_cong) (auto simp: l)
    then show "lseg (\<lambda>a. next_send (messages q' a)) (queue_send q') (map last gs) None"
      unfolding q(2) using I by blast
    have "sorted_wrt (\<lambda>g h. priority (messages q (last h)) < priority (messages q (last g))) gs"
      using I by blast
    then show "sorted_wrt (\<lambda>g h. priority (messages q' (last h)) < priority (messages q' (last g))) gs"
      by (rule sorted_wrt_mono_rel [rotated]) (simp only: l)
    show "priority (messages q' a) = priority (messages q' (last g))" if "g \<in> set gs" "a \<in> set g" for a g
    proof -
      have "messages q' a = messages q a" using that by (intro m) auto
      then show ?thesis using mq_inv_priority [OF inv that] l [OF that(1)] by simp
    qed
    show "set (concat gs) \<subseteq> allocated q'" using I q(4) by blast
    show "mq_curmsgs (attr q') = int (length (concat gs))" unfolding q(3) using I by blast
    show "distinct (concat gs)" using I by blast
    show "g \<noteq> []" if "g \<in> set gs" for g using I that by blast
  qed
qed

lemma mq_new_other: "a \<noteq> m \<Longrightarrow> messages (mq_new q m msg pr) a = messages q a"
  by (simp add: mq_new_def)

lemma mq_inv_new:
  assumes "mq_inv q gs" "m \<notin> allocated q"
  shows "mq_inv (mq_new q m msg pr) gs"
  using assms(1)
proof (rule mq_inv_cong)
  show "messages (mq_new q m msg pr) a = messages q a" if "a \<in> set (concat gs)" for a
    using that assms mq_invD(6) [OF assms(1)] by (intro mq_new_other) blast
qed (auto simp: mq_new_def)

lemma queued_new: "mq_inv q gs \<Longrightarrow> m \<notin> allocated q \<Longrightarrow> queued (mq_new q m msg pr) gs = queued q gs"
proof -
  assume *: "mq_inv q gs" "m \<notin> allocated q"
  have "messages (mq_new q m msg pr) a = messages q a" if "a \<in> set (concat gs)" for a
    using that * mq_invD(6) [OF *(1)] by (intro mq_new_other) blast
  then show ?thesis unfolding queued_def by (intro map_cong) (simp_all only:)
qed

definition count_up :: "mqd \<Rightarrow> mqd" where
  "count_up q = q\<lparr>attr := (attr q)\<lparr>mq_curmsgs := mq_curmsgs (attr q) + 1\<rparr>\<rparr>"

lemma count_up_sel [simp]:
  "messages (count_up q) = messages q" "queue_receive (count_up q) = queue_receive q"
  "queue_send (count_up q) = queue_send q" "allocated (count_up q) = allocated q"
  "mq_curmsgs (attr (count_up q)) = mq_curmsgs (attr q) + 1"
  by (simp_all add: count_up_def)

lemma last_concat: "gs \<noteq> [] \<Longrightarrow> \<forall>g \<in> set gs. g \<noteq> [] \<Longrightarrow> concat gs \<noteq> [] \<and> last (concat gs) = last (last gs)"
  by (cases gs rule: rev_cases) auto

lemma sorted_groups_insert:
  fixes f :: "'a \<Rightarrow> 'b :: linorder"
  assumes "sorted_wrt (\<lambda>g h. f h < f g) (as @ bs)" "\<forall>g \<in> set as. f x < f g" "\<forall>g \<in> set bs. f g < f x"
  shows "sorted_wrt (\<lambda>g h. f h < f g) (as @ x # bs)"
  using assms by (auto simp: sorted_wrt_append)

lemma mq_inv_insert_group:
  assumes inv: "mq_inv q (hi @ rest)" and m: "m \<notin> set (concat (hi @ rest))" "m \<in> allocated q"
    and hi: "\<forall>g \<in> set hi. priority (messages q m) < priority (messages q (last g))"
    and rest: "\<forall>g \<in> set rest. priority (messages q (last g)) < priority (messages q m)"
    and r: "lseg (\<lambda>a. next_receive (messages q' a)) (queue_receive q') (concat hi @ m # concat rest) None"
    and s: "lseg (\<lambda>a. next_send (messages q' a)) (queue_send q') (map last hi @ m # map last rest) None"
    and q': "\<And>a. priority (messages q' a) = priority (messages q a)" "allocated q' = allocated q"
      "mq_curmsgs (attr q') = mq_curmsgs (attr q) + 1"
  shows "mq_inv q' (hi @ [m] # rest)"
proof -
  show ?thesis
    unfolding mq_inv_def q'
  proof (intro conjI)
    show "lseg (\<lambda>a. next_receive (messages q' a)) (queue_receive q') (concat (hi @ [m] # rest)) None"
      using r by simp
    show "lseg (\<lambda>a. next_send (messages q' a)) (queue_send q') (map last (hi @ [m] # rest)) None"
      using s by simp
    show "sorted_wrt (\<lambda>g h. priority (messages q (last h)) < priority (messages q (last g))) (hi @ [m] # rest)"
      using sorted_groups_insert [of "\<lambda>g. priority (messages q (last g))" hi rest "[m]"] mq_invD(4) [OF inv] hi rest
      by simp
    show "\<forall>g \<in> set (hi @ [m] # rest). g \<noteq> [] \<and> (\<forall>a \<in> set g. priority (messages q a) = priority (messages q (last g)))"
    proof
      fix g assume "g \<in> set (hi @ [m] # rest)"
      then consider "g \<in> set (hi @ rest)" | "g = [m]" by auto
      then show "g \<noteq> [] \<and> (\<forall>a \<in> set g. priority (messages q a) = priority (messages q (last g)))"
      proof cases
        case 1
        then show ?thesis using mq_invD(3) [OF inv] mq_inv_priority [OF inv] by blast
      qed simp
    qed
    have "distinct (concat (hi @ rest))" by (rule mq_invD(5) [OF inv])
    then show "distinct (concat (hi @ [m] # rest))" using m(1) by auto
    have "set (concat (hi @ rest)) \<subseteq> allocated q" by (rule mq_invD(6) [OF inv])
    then show "set (concat (hi @ [m] # rest)) \<subseteq> allocated q" using m(2) by auto
    have "mq_curmsgs (attr q) = int (length (concat (hi @ rest)))" by (rule mq_invD(7) [OF inv])
    then show "mq_curmsgs (attr q) + 1 = int (length (concat (hi @ [m] # rest)))" by simp
  qed
qed

lemma mq_send_link_new:
  assumes inv: "mq_inv q (hi @ rest)" and m: "m \<notin> set (concat (hi @ rest))" "m \<in> allocated q"
    and hi: "\<forall>g \<in> set hi. priority (messages q m) < priority (messages q (last g))"
    and rest: "\<forall>g \<in> set rest. priority (messages q (last g)) < priority (messages q m)"
  defines "s \<equiv> (if hi = [] then None else Some (last (last hi)))"
  defines "q' \<equiv> (mq_send_insert q m s s False)"
  shows "mq_inv (count_up q') (hi @ [m] # rest)"
proof -
  have ne: "\<forall>g \<in> set (hi @ rest). g \<noteq> []" by (rule mq_invD(3) [OF inv])
  have sm: "s \<noteq> Some m" using m(1) ne unfolding s_def by (cases hi rule: rev_cases) auto
  note q' = mq_send_insert_new [OF sm, of q, folded q'_def]
  have d: "distinct (concat (hi @ rest))" by (rule mq_invD(5) [OF inv])
  have dl: "distinct (map last (hi @ rest))" using d ne by (rule distinct_map_last)
  have lc: "concat hi \<noteq> [] \<and> last (concat hi) = last (last hi)" if "hi \<noteq> []"
    using that ne by (intro last_concat) auto
  have ch: "concat hi = [] \<longleftrightarrow> hi = []" using lc by auto
  have lm: "last g \<noteq> m" if "g \<in> set (hi @ rest)" for g
    using m(1) mq_inv_groups(3) [OF inv that] by metis
  obtain u where u: "lseg (\<lambda>a. next_receive (messages q a)) (queue_receive q) (concat hi) u"
    "lseg (\<lambda>a. next_receive (messages q a)) u (concat rest) None"
    using mq_invD(1) [OF inv] by (auto simp: lseg_append)
  have gu: "get_receive q s = u"
    using lseg_end [OF u(1)] lc ch by (auto simp: s_def get_receive_def)
  obtain v where v: "lseg (\<lambda>a. next_send (messages q a)) (queue_send q) (map last hi) v"
    "lseg (\<lambda>a. next_send (messages q a)) v (map last rest) None"
    using mq_invD(2) [OF inv] by (auto simp: lseg_append)
  have gv: "get_send q s = v"
    using lseg_end [OF v(1)] by (auto simp: s_def get_send_def last_map)
  have sc: "s = (if hi = [] then None else Some (last (concat hi)))"
    and sl: "s = (if hi = [] then None else Some (last (map last hi)))"
    using lc by (simp_all add: s_def last_map)
  have nr: "next_receive (messages q' a) = next_receive (messages q a)" "next_send (messages q' a) = next_send (messages q a)"
    if "a \<noteq> m" "s \<noteq> Some a" for a using that by (simp_all add: q')
  have mm: "a \<noteq> m" if "a \<in> set (concat (hi @ rest))" for a using that m(1) by blast
  have R: "lseg (\<lambda>a. next_receive (messages q' a)) (queue_receive q') (concat hi @ m # concat rest) None"
  proof (rule lseg_link [OF u])
    show dj: "distinct (concat hi)" "set (concat hi) \<inter> set (concat rest) = {}" using d by auto
    show "next_receive (messages q' m) = u" using sm gu by (simp add: q')
    show "next_receive (messages q' (last (concat hi))) = Some m" if "concat hi \<noteq> []"
    proof -
      have "hi \<noteq> []" using that by auto
      then have "s = Some (last (concat hi))" using sc by metis
      then show ?thesis by (simp only: q' if_True refl)
    qed
    show "queue_receive q' = (if concat hi = [] then Some m else queue_receive q)"
      unfolding q' ch by (simp only: s_def) simp
    show "next_receive (messages q' a) = next_receive (messages q a)"
      if "a \<in> set (concat hi)" "a \<noteq> last (concat hi)" for a
    proof (rule nr)
      show "a \<noteq> m" using that by (intro mm) simp
      show "s \<noteq> Some a" using that(2) sc by (metis option.distinct(1) option.inject)
    qed
    show "next_receive (messages q' a) = next_receive (messages q a)" if "a \<in> set (concat rest)" for a
    proof (rule nr)
      show "a \<noteq> m" using that by (intro mm) simp
      have "last (concat hi) \<in> set (concat hi)" if "hi \<noteq> []" using lc [OF that] by (metis last_in_set)
      then show "s \<noteq> Some a" using that sc dj(2) by (metis disjoint_iff option.distinct(1) option.inject)
    qed
  qed
  have S: "lseg (\<lambda>a. next_send (messages q' a)) (queue_send q') (map last hi @ m # map last rest) None"
  proof (rule lseg_link [OF v])
    show dj: "distinct (map last hi)" "set (map last hi) \<inter> set (map last rest) = {}" using dl by auto
    show "next_send (messages q' m) = v" using sm gv by (simp add: q')
    show "next_send (messages q' (last (map last hi))) = Some m" if "map last hi \<noteq> []"
    proof -
      have "s = Some (last (map last hi))" using sl that by auto
      then show ?thesis by (simp only: q' if_True refl)
    qed
    show "queue_send q' = (if map last hi = [] then Some m else queue_send q)"
      by (simp add: q' s_def)
    show "next_send (messages q' a) = next_send (messages q a)"
      if "a \<in> set (map last hi)" "a \<noteq> last (map last hi)" for a
    proof (rule nr)
      show "a \<noteq> m" using that(1) lm by auto
      show "s \<noteq> Some a" using that(2) sl by (metis option.distinct(1) option.inject)
    qed
    show "next_send (messages q' a) = next_send (messages q a)" if "a \<in> set (map last rest)" for a
    proof (rule nr)
      show "a \<noteq> m" using that(1) lm by auto
      have "last (map last hi) \<in> set (map last hi)" if "hi \<noteq> []" using that by (intro last_in_set) simp
      then show "s \<noteq> Some a" using that sl dj(2) by (metis disjoint_iff option.distinct(1) option.inject)
    qed
  qed
  show ?thesis
  proof (rule mq_inv_insert_group [OF inv m hi rest])
    show "lseg (\<lambda>a. next_receive (messages (count_up q') a)) (queue_receive (count_up q')) (concat hi @ m # concat rest) None"
      unfolding count_up_sel by (rule R)
    show "lseg (\<lambda>a. next_send (messages (count_up q') a)) (queue_send (count_up q')) (map last hi @ m # map last rest) None"
      unfolding count_up_sel by (rule S)
  qed (simp_all only: count_up_sel q')
qed

lemma mq_inv_extend_group:
  assumes inv: "mq_inv q (hi @ g # rest)" and m: "m \<notin> set (concat (hi @ g # rest))" "m \<in> allocated q"
    and pr: "priority (messages q m) = priority (messages q (last g))"
    and r: "lseg (\<lambda>a. next_receive (messages q' a)) (queue_receive q') ((concat hi @ g) @ m # concat rest) None"
    and s: "lseg (\<lambda>a. next_send (messages q' a)) (queue_send q') (map last hi @ m # map last rest) None"
    and q': "\<And>a. priority (messages q' a) = priority (messages q a)" "allocated q' = allocated q"
      "mq_curmsgs (attr q') = mq_curmsgs (attr q) + 1"
  shows "mq_inv q' (hi @ (g @ [m]) # rest)"
  unfolding mq_inv_def q'
proof (intro conjI)
  show "lseg (\<lambda>a. next_receive (messages q' a)) (queue_receive q') (concat (hi @ (g @ [m]) # rest)) None"
    using r by simp
  show "lseg (\<lambda>a. next_send (messages q' a)) (queue_send q') (map last (hi @ (g @ [m]) # rest)) None"
    using s by simp
  show "sorted_wrt (\<lambda>g h. priority (messages q (last h)) < priority (messages q (last g))) (hi @ (g @ [m]) # rest)"
    using mq_invD(4) [OF inv] pr by (simp add: sorted_wrt_append)
  show "\<forall>h \<in> set (hi @ (g @ [m]) # rest). h \<noteq> [] \<and> (\<forall>a \<in> set h. priority (messages q a) = priority (messages q (last h)))"
  proof
    fix h assume "h \<in> set (hi @ (g @ [m]) # rest)"
    then consider "h \<in> set (hi @ g # rest)" | "h = g @ [m]" by auto
    then show "h \<noteq> [] \<and> (\<forall>a \<in> set h. priority (messages q a) = priority (messages q (last h)))"
    proof cases
      case 1
      then show ?thesis using mq_invD(3) [OF inv] mq_inv_priority [OF inv] by blast
    next
      case 2
      have "priority (messages q a) = priority (messages q (last g))" if "a \<in> set g" for a
        using mq_inv_priority [OF inv, of g a] that by simp
      then show ?thesis using pr unfolding 2 by auto
    qed
  qed
  have "distinct (concat (hi @ g # rest))" by (rule mq_invD(5) [OF inv])
  then show "distinct (concat (hi @ (g @ [m]) # rest))" using m(1) by auto
  have "set (concat (hi @ g # rest)) \<subseteq> allocated q" by (rule mq_invD(6) [OF inv])
  then show "set (concat (hi @ (g @ [m]) # rest)) \<subseteq> allocated q" using m(2) by auto
  have "mq_curmsgs (attr q) = int (length (concat (hi @ g # rest)))" by (rule mq_invD(7) [OF inv])
  then show "mq_curmsgs (attr q) + 1 = int (length (concat (hi @ (g @ [m]) # rest)))" by simp
qed

lemma mq_send_link_same:
  assumes inv: "mq_inv q (hi @ g # rest)" and m: "m \<notin> set (concat (hi @ g # rest))" "m \<in> allocated q"
    and pr: "priority (messages q m) = priority (messages q (last g))"
  defines "s \<equiv> (if hi = [] then None else Some (last (last hi)))"
  defines "q' \<equiv> (mq_send_insert q m s s True)"
  shows "mq_inv (count_up q') (hi @ (g @ [m]) # rest)"
proof -
  let ?x = "last g"
  have g: "g \<noteq> []" using mq_invD(3) [OF inv] by simp
  have d: "distinct (concat (hi @ g # rest))" by (rule mq_invD(5) [OF inv])
  have dl: "distinct (map last (hi @ g # rest))" using d mq_invD(3) [OF inv] by (rule distinct_map_last)
  have lm: "last h \<noteq> m" if "h \<in> set (hi @ g # rest)" for h
    using m(1) mq_inv_groups(3) [OF inv that] by metis
  have sl: "s = (if hi = [] then None else Some (last (map last hi)))" by (simp add: s_def last_map)
  have sm: "s \<noteq> Some m" using lm [of "last hi"] unfolding s_def by simp
  have xm: "?x \<noteq> m" using lm [of g] by simp
  obtain v where v: "lseg (\<lambda>a. next_send (messages q a)) (queue_send q) (map last hi) v"
    "v = Some ?x" "lseg (\<lambda>a. next_send (messages q a)) (next_send (messages q ?x)) (map last rest) None"
    using mq_invD(2) [OF inv] by (auto simp: lseg_append)
  have gv: "get_send q s = Some ?x"
    using lseg_end [OF v(1)] v(2) by (auto simp: s_def get_send_def last_map)
  note q' = mq_send_insert_same [OF sm gv xm, folded q'_def]
  obtain u where u: "lseg (\<lambda>a. next_receive (messages q a)) (queue_receive q) (concat hi @ g) u"
    "lseg (\<lambda>a. next_receive (messages q a)) u (concat rest) None"
    using mq_invD(1) [OF inv] lseg_append [of _ _ "concat hi @ g" "concat rest" None] by auto
  have nu: "next_receive (messages q ?x) = u" using lseg_end [OF u(1)] g by simp
  have mm: "a \<noteq> m" if "a \<in> set (concat (hi @ g # rest))" for a using that m(1) by blast
  have R: "lseg (\<lambda>a. next_receive (messages q' a)) (queue_receive q') ((concat hi @ g) @ m # concat rest) None"
  proof (rule lseg_link [OF u])
    show dj: "distinct (concat hi @ g)" "set (concat hi @ g) \<inter> set (concat rest) = {}" using d by auto
    show "next_receive (messages q' m) = u" using xm nu by (simp add: q')
    show "next_receive (messages q' (last (concat hi @ g))) = Some m" using g by (simp add: q')
    show "queue_receive q' = (if concat hi @ g = [] then Some m else queue_receive q)" using g by (simp add: q')
    show "next_receive (messages q' a) = next_receive (messages q a)"
      if "a \<in> set (concat hi @ g)" "a \<noteq> last (concat hi @ g)" for a
    proof -
      have "a \<noteq> m" using that by (intro mm) auto
      moreover have "a \<noteq> ?x" using that(2) g by simp
      ultimately show ?thesis by (simp add: q')
    qed
    show "next_receive (messages q' a) = next_receive (messages q a)" if "a \<in> set (concat rest)" for a
    proof -
      have "a \<noteq> m" using that by (intro mm) auto
      moreover have "a \<noteq> ?x" using that dj(2) last_in_set [OF g] by auto
      ultimately show ?thesis by (simp add: q')
    qed
  qed
  have S: "lseg (\<lambda>a. next_send (messages q' a)) (queue_send q') (map last hi @ m # map last rest) None"
  proof (rule lseg_link [OF v(1,3)])
    show dj: "distinct (map last hi)" "set (map last hi) \<inter> set (map last rest) = {}" using dl by auto
    show "next_send (messages q' m) = next_send (messages q ?x)" using sm by (simp add: q')
    show "next_send (messages q' (last (map last hi))) = Some m" if "map last hi \<noteq> []"
    proof -
      have "s = Some (last (map last hi))" using sl that by auto
      then show ?thesis by (simp only: q' if_True refl)
    qed
    show "queue_send q' = (if map last hi = [] then Some m else queue_send q)"
      by (simp add: q' s_def)
    show "next_send (messages q' a) = next_send (messages q a)"
      if "a \<in> set (map last hi)" "a \<noteq> last (map last hi)" for a
    proof -
      have "a \<noteq> m" using that(1) lm by auto
      moreover have "s \<noteq> Some a" using that(2) sl by (metis option.distinct(1) option.inject)
      ultimately show ?thesis by (simp add: q')
    qed
    show "next_send (messages q' a) = next_send (messages q a)" if "a \<in> set (map last rest)" for a
    proof -
      have "a \<noteq> m" using that(1) lm by auto
      moreover have "last (map last hi) \<in> set (map last hi)" if "hi \<noteq> []" using that by (intro last_in_set) simp
      then have "s \<noteq> Some a" using that sl dj(2) by (metis disjoint_iff option.distinct(1) option.inject)
      ultimately show ?thesis by (simp add: q')
    qed
  qed
  show ?thesis
  proof (rule mq_inv_extend_group [OF inv m pr])
    show "lseg (\<lambda>a. next_receive (messages (count_up q') a)) (queue_receive (count_up q')) ((concat hi @ g) @ m # concat rest) None"
      unfolding count_up_sel by (rule R)
    show "lseg (\<lambda>a. next_send (messages (count_up q') a)) (queue_send (count_up q')) (map last hi @ m # map last rest) None"
      unfolding count_up_sel by (rule S)
  qed (simp_all only: count_up_sel q')
qed

lemma mq_send_slot_new:
  assumes inv: "mq_inv q gs" and m: "m \<notin> set (concat gs)" and hi: "gs = hi @ rest"
  shows "(if hi = [] then None else Some (last (last hi))) \<noteq> Some m"
proof (cases "hi = []")
  case False
  then have "last hi \<in> set gs" unfolding hi by simp
  then show ?thesis using m mq_inv_groups(3) [OF inv] False by auto
qed simp

lemma mq_send_link_same_slot:
  assumes inv: "mq_inv q (hi @ g # rest)" and m: "m \<notin> set (concat (hi @ g # rest))"
  defines "s \<equiv> (if hi = [] then None else Some (last (last hi)))"
  shows "s \<noteq> Some m" "get_send q s = Some (last g)" "last g \<noteq> m"
proof -
  show "s \<noteq> Some m" unfolding s_def by (rule mq_send_slot_new [OF inv m refl])
  have "last g \<in> set (concat (hi @ g # rest))" by (rule mq_inv_groups(3) [OF inv]) simp
  then show "last g \<noteq> m" using m by metis
  have v: "lseg (\<lambda>a. next_send (messages q a)) (queue_send q) (map last hi) (Some (last g))"
    using mq_invD(2) [OF inv] by (auto simp: lseg_append)
  show "get_send q s = Some (last g)"
    using lseg_end [OF v] by (auto simp: s_def get_send_def last_map)
qed

text \<open>
  The position of the new message: behind all messages of the same or a higher priority.
\<close>

definition enqueue :: "(u8 list \<times> u32) list \<Rightarrow> u8 list \<Rightarrow> u32 \<Rightarrow> (u8 list \<times> u32) list" where
  "enqueue xs msg pr = takeWhile (\<lambda>x. pr \<le> snd x) xs @ (msg, pr) # dropWhile (\<lambda>x. pr \<le> snd x) xs"

lemma enqueue_split:
  assumes "\<forall>x \<in> set as. pr \<le> snd x" "\<forall>x \<in> set bs. snd x < pr"
  shows "enqueue (as @ bs) msg pr = as @ (msg, pr) # bs"
proof -
  have "takeWhile (\<lambda>x. pr \<le> snd x) bs = []" "dropWhile (\<lambda>x. pr \<le> snd x) bs = bs"
    using assms(2) by (cases bs; auto)+
  then show ?thesis using assms(1) by (simp add: enqueue_def)
qed

lemma split_groups:
  fixes P :: "'a \<Rightarrow> 'b :: linorder"
  shows "sorted_wrt (\<lambda>g h. P h < P g) gs \<Longrightarrow> \<exists>hi rest. gs = hi @ rest \<and> (\<forall>g \<in> set hi. pr < P g) \<and>
    (case rest of [] \<Rightarrow> True | g # r \<Rightarrow> P g \<le> pr \<and> (\<forall>h \<in> set r. P h < P g))"
proof (induction gs)
  case (Cons g gs)
  show ?case
  proof (cases "pr < P g")
    case True
    obtain hi rest where hi: "gs = hi @ rest" "\<forall>g \<in> set hi. pr < P g"
      "case rest of [] \<Rightarrow> True | g # r \<Rightarrow> P g \<le> pr \<and> (\<forall>h \<in> set r. P h < P g)"
      using Cons by auto
    then show ?thesis using True by (intro exI [of _ "g # hi"] exI [of _ rest]) simp
  next
    case False
    then show ?thesis using Cons.prems by (intro exI [of _ "[]"] exI [of _ "g # gs"]) (simp add: not_less)
  qed
qed simp

lemma queued_insert:
  assumes c: "\<And>a. contents (messages q' a) = contents (messages q a)"
    "\<And>a. msg_length (messages q' a) = msg_length (messages q a)"
    "\<And>a. priority (messages q' a) = priority (messages q a)"
    and m: "contents (messages q m) = msg" "msg_length (messages q m) = length msg" "priority (messages q m) = pr"
    and g: "concat gs = as @ bs" "concat gs' = as @ m # bs"
    and p: "\<forall>a \<in> set as. pr \<le> priority (messages q a)" "\<forall>a \<in> set bs. priority (messages q a) < pr"
  shows "queued q' gs' = enqueue (queued q gs) msg pr"
proof -
  let ?f = "\<lambda>a. (take (msg_length (messages q a)) (contents (messages q a)), priority (messages q a))"
  have "queued q' gs' = map ?f as @ (msg, pr) # map ?f bs"
    unfolding queued_def c g(2) by (simp add: m)
  also have "\<dots> = enqueue (map ?f as @ map ?f bs) msg pr"
    using p by (intro enqueue_split [symmetric]) auto
  finally show ?thesis unfolding queued_def g(1) by simp
qed

lemma mq_new_sel:
  "contents (messages (mq_new q m msg pr) m) = msg" "msg_length (messages (mq_new q m msg pr) m) = length msg"
  "priority (messages (mq_new q m msg pr) m) = pr" "m \<in> allocated (mq_new q m msg pr)"
  "attr (mq_new q m msg pr) = attr q"
  by (simp_all add: mq_new_def)

lemma mq_inv_concat_priority:
  assumes inv: "mq_inv q gs" and hs: "set hs \<subseteq> set gs" and a: "a \<in> set (concat hs)"
    and P: "\<forall>h \<in> set hs. P (priority (messages q (last h)))"
  shows "P (priority (messages q a))"
proof -
  obtain h where h: "h \<in> set hs" "a \<in> set h" using a by auto
  then have "priority (messages q a) = priority (messages q (last h))"
    using mq_inv_priority [OF inv, of h a] hs by blast
  then show ?thesis using P h by simp
qed

lemma mq_send_post_eq:
  assumes "malloc (allocated q) = Some m"
    and "mq_send_scan (mq_new q m msg pr) pr None None = Some (s, s', same)"
  shows "mq_send_post malloc q msg pr = Some (None, count_up (mq_send_insert (mq_new q m msg pr) m s s' same))"
  using assms unfolding mq_send_post_def mq_new_def count_up_def by (simp add: Let_def)

lemma mq_send_post_ok:
  assumes inv: "mq_inv q gs" and mal: "malloc (allocated q) = Some m" "m \<notin> allocated q"
  shows "\<exists>q' gs'. mq_send_post malloc q msg pr = Some (None, q') \<and> mq_inv q' gs'
    \<and> queued q' gs' = enqueue (queued q gs) msg pr
    \<and> attr q' = (attr q)\<lparr>mq_curmsgs := mq_curmsgs (attr q) + 1\<rparr>"
proof -
  let ?q = "mq_new q m msg pr" and ?P = "\<lambda>g. priority (messages (mq_new q m msg pr) (last g))"
  have I: "mq_inv ?q gs" using inv mal(2) by (rule mq_inv_new)
  have Q: "queued ?q gs = queued q gs" using inv mal(2) by (rule queued_new)
  obtain hi rest where gs: "gs = hi @ rest" and hi: "\<forall>g \<in> set hi. pr < ?P g"
    and rest: "case rest of [] \<Rightarrow> True | g # r \<Rightarrow> ?P g \<le> pr \<and> (\<forall>h \<in> set r. ?P h < ?P g)"
    using split_groups [OF mq_invD(4) [OF I], of pr] by blast
  note I' = I [unfolded gs]
  define s where "s = (if hi = [] then None else Some (last (last hi)))"
  have m: "m \<notin> set (concat (hi @ rest))" using mq_invD(6) [OF inv] mal(2) unfolding gs by blast
  have "lseg (\<lambda>a. next_send (messages ?q a)) (get_send ?q None) (map last (hi @ rest)) None"
    using mq_invD(2) [OF I'] by (simp only: get_send_def option.case)
  from mq_send_scan_slot [OF this hi]
  have sc: "mq_send_scan ?q pr None None = Some (s, s, case rest of [] \<Rightarrow> False | g # _ \<Rightarrow> ?P g = pr)"
    using rest by (cases rest) (simp_all add: s_def Let_def)
  have ph: "\<forall>a \<in> set (concat hi). pr \<le> priority (messages ?q a)"
    using mq_inv_concat_priority [OF I', of hi _ "\<lambda>p. pr \<le> p"] hi by (auto simp: less_imp_le)
  show ?thesis
  proof (cases "\<exists>g r. rest = g # r \<and> ?P g = pr")
    case True
    then obtain g r where r: "rest = g # r" "?P g = pr" by blast
    let ?q' = "count_up (mq_send_insert ?q m s s True)"
    have inv': "mq_inv ?q' (hi @ (g @ [m]) # r)"
      unfolding s_def using I' m r by (intro mq_send_link_same) (simp_all add: mq_new_sel)
    have gsl: "concat gs = (concat hi @ g) @ concat r" "concat (hi @ (g @ [m]) # r) = (concat hi @ g) @ m # concat r"
      by (simp_all add: gs r)
    have "\<forall>a \<in> set g. pr \<le> priority (messages ?q a)"
      using mq_inv_priority [OF I', of g] r by simp
    then have pa: "\<forall>a \<in> set (concat hi @ g). pr \<le> priority (messages ?q a)" using ph by auto
    have pb: "\<forall>a \<in> set (concat r). priority (messages ?q a) < pr"
      using mq_inv_concat_priority [OF I', of r _ "\<lambda>p. p < pr"] rest r by auto
    have sm: "s \<noteq> Some m" "get_send ?q s = Some (last g)" "last g \<noteq> m"
      unfolding s_def using mq_send_link_same_slot [OF I' [unfolded r(1)] m [unfolded r(1)]] by blast+
    note ins = mq_send_insert_same [OF sm]
    have "queued ?q' (hi @ (g @ [m]) # r) = enqueue (queued ?q gs) msg pr"
      by (rule queued_insert [OF _ _ _ _ _ _ gsl pa pb]) (simp_all add: ins mq_new_sel)
    moreover have "mq_send_post malloc q msg pr = Some (None, ?q')"
      using mq_send_post_eq [where malloc = malloc, OF mal(1) sc] r by simp
    moreover have "attr ?q' = (attr q)\<lparr>mq_curmsgs := mq_curmsgs (attr q) + 1\<rparr>"
      by (simp add: count_up_def ins mq_new_sel)
    ultimately show ?thesis using inv' Q by metis
  next
    case False
    let ?q' = "count_up (mq_send_insert ?q m s s False)"
    have rl: "\<forall>g \<in> set rest. ?P g < pr" using rest False by (cases rest) auto
    have inv': "mq_inv ?q' (hi @ [m] # rest)"
      unfolding s_def using I' m hi rl by (intro mq_send_link_new) (simp_all add: mq_new_sel)
    have gsl: "concat gs = concat hi @ concat rest" "concat (hi @ [m] # rest) = concat hi @ m # concat rest"
      by (simp_all add: gs)
    have pb: "\<forall>a \<in> set (concat rest). priority (messages ?q a) < pr"
      using mq_inv_concat_priority [OF I', of rest _ "\<lambda>p. p < pr"] rl by auto
    have sm: "s \<noteq> Some m" unfolding s_def by (rule mq_send_slot_new [OF I' m refl])
    note ins = mq_send_insert_new [OF sm]
    have "queued ?q' (hi @ [m] # rest) = enqueue (queued ?q gs) msg pr"
      by (rule queued_insert [OF _ _ _ _ _ _ gsl ph pb]) (simp_all add: ins mq_new_sel)
    moreover have "mq_send_post malloc q msg pr = Some (None, ?q')"
      using mq_send_post_eq [where malloc = malloc, OF mal(1) sc] False by (cases rest) auto
    moreover have "attr ?q' = (attr q)\<lparr>mq_curmsgs := mq_curmsgs (attr q) + 1\<rparr>"
      by (simp add: count_up_def ins mq_new_sel)
    ultimately show ?thesis using inv' Q by metis
  qed
qed

text \<open>Receiving takes the first message, and frees its node.\<close>

lemma mq_receive_post_ok:
  assumes inv: "mq_inv q gs" and ne: "gs \<noteq> []"
  shows "\<exists>q' gs' x. mq_receive_post q = Some (x, q') \<and> mq_inv q' gs' \<and> queued q gs = x # queued q' gs'
    \<and> attr q' = (attr q)\<lparr>mq_curmsgs := mq_curmsgs (attr q) - 1\<rparr>"
proof -
  obtain g r where gs: "gs = g # r" using ne by (cases gs) auto
  obtain a g' where g: "g = a # g'" using mq_invD(3) [OF inv] gs by (cases g) auto
  define gs' where "gs' = (if g' = [] then r else g' # r)"
  have cc: "concat gs = a # concat gs'" by (simp add: gs g gs'_def)
  note d = mq_invD(5) [OF inv, unfolded cc]
  have R: "queue_receive q = Some a" "lseg (\<lambda>a. next_receive (messages q a)) (next_receive (messages q a)) (concat gs') None"
    using mq_invD(1) [OF inv] unfolding cc by simp_all
  have S0: "queue_send q = Some (last g)" "lseg (\<lambda>a. next_send (messages q a)) (next_send (messages q (last g))) (map last r) None"
    using mq_invD(2) [OF inv] unfolding gs by simp_all
  let ?s = "if queue_send q = Some a then next_send (messages q a) else queue_send q"
  have la: "last g = a \<longleftrightarrow> g' = []" using d unfolding g gs'_def by (cases g' rule: rev_cases) auto
  have S: "lseg (\<lambda>a. next_send (messages q a)) ?s (map last gs') None"
    using S0 la by (cases "g' = []") (simp_all add: gs'_def g)
  define q' where "q' = q\<lparr>queue_receive := next_receive (messages q a), queue_send := ?s,
    attr := (attr q)\<lparr>mq_curmsgs := mq_curmsgs (attr q) - 1\<rparr>, allocated := allocated q - {a}\<rparr>"
  have mq: "messages q' = messages q" by (simp add: q'_def)
  have "mq_inv q' gs'"
    unfolding mq_inv_def
  proof (intro conjI)
    show "lseg (\<lambda>a. next_receive (messages q' a)) (queue_receive q') (concat gs') None" using R by (simp add: q'_def)
    show "lseg (\<lambda>a. next_send (messages q' a)) (queue_send q') (map last gs') None" using S by (simp add: q'_def)
    have "sorted_wrt (\<lambda>g h. priority (messages q (last h)) < priority (messages q (last g))) (g # r)"
      using mq_invD(4) [OF inv] unfolding gs .
    then show "sorted_wrt (\<lambda>g h. priority (messages q' (last h)) < priority (messages q' (last g))) gs'"
      by (cases "g' = []") (simp_all add: q'_def gs'_def g)
    show "\<forall>h \<in> set gs'. h \<noteq> [] \<and> (\<forall>b \<in> set h. priority (messages q' b) = priority (messages q' (last h)))"
    proof
      fix h assume "h \<in> set gs'"
      then consider "h \<in> set gs" | "h = g'" "g' \<noteq> []" unfolding gs'_def gs by (auto split: if_splits)
      then show "h \<noteq> [] \<and> (\<forall>b \<in> set h. priority (messages q' b) = priority (messages q' (last h)))"
      proof cases
        case 1
        then show ?thesis unfolding mq using mq_invD(3) [OF inv] mq_inv_priority [OF inv, of h] by blast
      next
        case 2
        have "priority (messages q b) = priority (messages q (last g'))" if "b \<in> set g'" for b
        proof -
          have "g \<in> set gs" "b \<in> set g" "last g = last g'" using that 2 by (auto simp: gs g)
          then show ?thesis using mq_inv_priority [OF inv] by metis
        qed
        then show ?thesis unfolding mq 2(1) using 2(2) by blast
      qed
    qed
    show "distinct (concat gs')" using d by simp
    show "set (concat gs') \<subseteq> allocated q'" using mq_invD(6) [OF inv] d unfolding cc q'_def by auto
    show "mq_curmsgs (attr q') = int (length (concat gs'))" using mq_invD(7) [OF inv] unfolding cc by (simp add: q'_def)
  qed
  moreover have "mq_receive_post q = Some ((take (msg_length (messages q a)) (contents (messages q a)), priority (messages q a)), q')"
    by (simp add: mq_receive_post_def R Let_def q'_def)
  moreover have "queued q gs = (take (msg_length (messages q a)) (contents (messages q a)), priority (messages q a)) # queued q' gs'"
    unfolding queued_def cc by (simp add: q'_def)
  moreover have "attr q' = (attr q)\<lparr>mq_curmsgs := mq_curmsgs (attr q) - 1\<rparr>" by (simp add: q'_def)
  ultimately show ?thesis by blast
qed

section \<open>Histories of a queue\<close>

declare mq_send_wait.simps [simp del] mq_receive_wait.simps [simp del]

lemma mq_send_wait_ready:
  "mq_send_wait q ws = Inr (Returned q' x) \<Longrightarrow> mq_curmsgs (attr q') < mq_maxmsg (attr q')
     \<and> (q' = q \<or> q' \<in> snd ` set ws)"
proof (induction q ws rule: mq_send_wait.induct)
  case (1 q ws)
  show ?case
  proof (cases "mq_curmsgs (attr q) \<ge> mq_maxmsg (attr q)")
    case True
    then obtain q2 ws' where "ws = (None, q2) # ws'" "mq_send_wait q2 ws' = Inr (Returned q' x)"
      using "1.prems" by (auto simp: mq_send_wait.simps [of q] split: list.splits prod.splits option.splits)
    then show ?thesis using "1.IH" [OF True] by force
  qed (use "1.prems" in \<open>auto simp: mq_send_wait.simps [of q]\<close>)
qed

lemma mq_receive_wait_ready:
  "mq_receive_wait q ws = Inr (Returned q' x) \<Longrightarrow> mq_curmsgs (attr q') > 0 \<and> (q' = q \<or> q' \<in> snd ` set ws)"
proof (induction q ws rule: mq_receive_wait.induct)
  case (1 q ws)
  show ?case
  proof (cases "mq_curmsgs (attr q) \<le> 0")
    case True
    then obtain q2 ws' where "ws = (None, q2) # ws'" "mq_receive_wait q2 ws' = Inr (Returned q' x)"
      using "1.prems" by (auto simp: mq_receive_wait.simps [of q] split: list.splits prod.splits option.splits)
    then show ?thesis using "1.IH" [OF True] by force
  qed (use "1.prems" in \<open>auto simp: mq_receive_wait.simps [of q]\<close>)
qed

text \<open>
  The threads that use a queue. A thread that calls \<open>mq_timedsend()\<close> or \<open>mq_timedreceive()\<close> has the lock
  from the call to the return, or until a wait releases it; then it is blocked, with the state in which
  it made the call and the waits that have returned since. It goes on in the state that the queue has
  when a wait returns, with an error or without, and may find that it has to wait again. \<open>mq_send()\<close> and
  \<open>mq_receive()\<close> are the calls whose waits return without an error.
\<close>

datatype mq_call = Send "u8 list" u32 | Receive nat

datatype mq_reply = Sent "errno option" | Received "errno + u8 list \<times> u32"

definition mq_call_run ::
    "(nat set \<Rightarrow> nat option) \<Rightarrow> mq_call \<Rightarrow> mqd \<Rightarrow> wakeups \<Rightarrow> mq_reply outcome option" where
  "mq_call_run malloc c q ws =
     (case c of
        Send msg msg_prio \<Rightarrow> map_option (map_outcome Sent) (mq_timedsend malloc q msg msg_prio ws)
      | Receive msg_len \<Rightarrow> map_option (map_outcome Received) (mq_timedreceive q msg_len ws))"

record mq_system =
  current :: mqd
  blocked :: "nat \<rightharpoonup> mq_call \<times> mqd \<times> wakeups"

inductive mq_step :: "(nat set \<Rightarrow> nat option) \<Rightarrow> mq_system \<Rightarrow> mq_system \<Rightarrow> bool" for malloc where
  call: "blocked s t = None \<Longrightarrow> mq_call_run malloc c (current s) [] = Some (Returned r q') \<Longrightarrow>
     mq_step malloc s (s\<lparr>current := q'\<rparr>)"
| block: "blocked s t = None \<Longrightarrow> mq_call_run malloc c (current s) [] = Some (Waiting q') \<Longrightarrow>
     mq_step malloc s (s\<lparr>current := q', blocked := (blocked s)(t \<mapsto> (c, current s, []))\<rparr>)"
| wake: "blocked s t = Some (c, q0, ws) \<Longrightarrow>
     mq_call_run malloc c q0 (ws @ [(e, current s)]) = Some (Returned r q') \<Longrightarrow>
     mq_step malloc s (s\<lparr>current := q', blocked := (blocked s)(t := None)\<rparr>)"
| again: "blocked s t = Some (c, q0, ws) \<Longrightarrow>
     mq_call_run malloc c q0 (ws @ [(e, current s)]) = Some (Waiting q') \<Longrightarrow>
     mq_step malloc s (s\<lparr>current := q', blocked := (blocked s)(t \<mapsto> (c, q0, ws @ [(e, current s)]))\<rparr>)"
| setattr: "mq_setattr (current s) a = Inr (old, q') \<Longrightarrow> mq_step malloc s (s\<lparr>current := q'\<rparr>)"

definition mq_system_init :: "mqd \<Rightarrow> mq_system" where
  "mq_system_init q = \<lparr>current = q, blocked = Map.empty\<rparr>"

text \<open>A call is safe if it follows no null pointer and copies no more bytes than fit the buffer.\<close>

fun reply_fits :: "mq_call \<Rightarrow> mq_reply \<Rightarrow> bool" where
  "reply_fits (Receive msg_len) (Received (Inr (msg, _))) \<longleftrightarrow> length msg \<le> msg_len"
| "reply_fits _ _ \<longleftrightarrow> True"

definition mq_call_safe :: "mq_call \<Rightarrow> mq_reply outcome option \<Rightarrow> bool" where
  "mq_call_safe c out \<longleftrightarrow>
     (case out of None \<Rightarrow> False | Some (Waiting q) \<Rightarrow> True | Some (Returned r q) \<Rightarrow> reply_fits c r)"

subsection \<open>A call after its waits\<close>

text \<open>What a call does when its loop tests the queue \<open>q\<close>.\<close>

definition mq_go :: "(nat set \<Rightarrow> nat option) \<Rightarrow> mq_call \<Rightarrow> mqd \<Rightarrow> mq_reply outcome option" where
  "mq_go malloc c q =
     (case c of
        Send msg pr \<Rightarrow>
          (case mq_send_wait q [] of
             Inr (Returned _ _) \<Rightarrow> map_option (\<lambda>(r, q'). Returned (Sent r) q') (mq_send_post malloc q msg pr)
           | _ \<Rightarrow> Some (Waiting q))
      | Receive len \<Rightarrow>
          (case mq_receive_wait q [] of
             Inr (Returned _ _) \<Rightarrow> map_option (\<lambda>(x, q'). Returned (Received (Inr x)) q') (mq_receive_post q)
           | _ \<Rightarrow> Some (Waiting q)))"

definition mq_fail :: "mq_call \<Rightarrow> errno \<Rightarrow> mq_reply" where
  "mq_fail c e = (case c of Send _ _ \<Rightarrow> Sent (Some e) | Receive _ \<Rightarrow> Received (Inl e))"

definition mq_pre :: "mq_call \<Rightarrow> mqd \<Rightarrow> errno option" where
  "mq_pre c q = (case c of Send msg _ \<Rightarrow> mq_send_pre q (length msg) | Receive len \<Rightarrow> mq_receive_pre q len)"

lemma mq_send_wait_append:
  "mq_send_wait q ws = Inr (Waiting qw) \<Longrightarrow>
   mq_send_wait q (ws @ [(e, q')]) = (case e of Some e \<Rightarrow> Inl (e, q') | None \<Rightarrow> mq_send_wait q' [])"
proof (induction q ws rule: mq_send_wait.induct)
  case (1 q ws)
  have full: "mq_curmsgs (attr q) \<ge> mq_maxmsg (attr q)"
    using "1.prems" by (auto simp: mq_send_wait.simps [of q] split: if_splits)
  show ?case
  proof (cases ws)
    case Nil
    then show ?thesis using full by (simp add: mq_send_wait.simps [of q] split: option.split)
  next
    case (Cons w ws')
    then obtain q2 where w: "w = (None, q2)" "mq_send_wait q2 ws' = Inr (Waiting qw)"
      using "1.prems" full by (auto simp: mq_send_wait.simps [of q] split: prod.splits option.splits)
    then show ?thesis using "1.IH" [OF full Cons w(1) [symmetric] refl w(2)] Cons full by (simp add: mq_send_wait.simps [of q])
  qed
qed

lemma mq_receive_wait_append:
  "mq_receive_wait q ws = Inr (Waiting qw) \<Longrightarrow>
   mq_receive_wait q (ws @ [(e, q')]) = (case e of Some e \<Rightarrow> Inl (e, q') | None \<Rightarrow> mq_receive_wait q' [])"
proof (induction q ws rule: mq_receive_wait.induct)
  case (1 q ws)
  have empty: "mq_curmsgs (attr q) \<le> 0"
    using "1.prems" by (auto simp: mq_receive_wait.simps [of q] split: if_splits)
  show ?case
  proof (cases ws)
    case Nil
    then show ?thesis using empty by (simp add: mq_receive_wait.simps [of q] split: option.split)
  next
    case (Cons w ws')
    then obtain q2 where w: "w = (None, q2)" "mq_receive_wait q2 ws' = Inr (Waiting qw)"
      using "1.prems" empty by (auto simp: mq_receive_wait.simps [of q] split: prod.splits option.splits)
    then show ?thesis using "1.IH" [OF empty Cons w(1) [symmetric] refl w(2)] Cons empty by (simp add: mq_receive_wait.simps [of q])
  qed
qed

lemma mq_call_run_call:
  "mq_call_run malloc c q [] = (case mq_pre c q of Some e \<Rightarrow> Some (Returned (mq_fail c e) q) | None \<Rightarrow> mq_go malloc c q)"
  by (auto simp: mq_call_run_def mq_pre_def mq_go_def mq_fail_def mq_timedsend_def mq_timedreceive_def
      mq_send_wait.simps [of q] mq_receive_wait.simps [of q] split: mq_call.split option.split bind_split)

lemma mq_call_run_wake:
  assumes "mq_call_run malloc c q0 ws = Some (Waiting qw)"
  shows "mq_call_run malloc c q0 (ws @ [(e, q)]) =
    (case e of Some e \<Rightarrow> Some (Returned (mq_fail c e) q) | None \<Rightarrow> mq_go malloc c q)"
proof (cases c)
  case (Send msg pr)
  then have w: "mq_send_pre q0 (length msg) = None" "\<exists>qw. mq_send_wait q0 ws = Inr (Waiting qw)"
    using assms by (auto simp: mq_call_run_def mq_timedsend_def split: option.splits sum.splits outcome.splits bind_splits)
  then obtain qw' where "mq_send_wait q0 ws = Inr (Waiting qw')" by blast
  from mq_send_wait_append [OF this, of e q] w(1) Send show ?thesis
    by (auto simp: mq_call_run_def mq_timedsend_def mq_fail_def mq_go_def mq_send_wait.simps [of q]
        split: option.split bind_split)
next
  case (Receive len)
  then have w: "mq_receive_pre q0 len = None" "\<exists>qw. mq_receive_wait q0 ws = Inr (Waiting qw)"
    using assms by (auto simp: mq_call_run_def mq_timedreceive_def split: option.splits sum.splits outcome.splits bind_splits)
  then obtain qw' where "mq_receive_wait q0 ws = Inr (Waiting qw')" by blast
  from mq_receive_wait_append [OF this, of e q] w(1) Receive show ?thesis
    by (auto simp: mq_call_run_def mq_timedreceive_def mq_fail_def mq_go_def mq_receive_wait.simps [of q]
        split: option.split bind_split)
qed

subsection \<open>The invariant of histories\<close>

definition mq_ok :: "mq_attr \<Rightarrow> mqd \<Rightarrow> bool" where
  "mq_ok a q \<longleftrightarrow> 0 \<le> mq_curmsgs (attr q) \<and> mq_curmsgs (attr q) \<le> mq_maxmsg a
     \<and> mq_maxmsg (attr q) = mq_maxmsg a \<and> mq_msgsize (attr q) = mq_msgsize a
     \<and> (\<exists>gs. mq_inv q gs \<and> (\<forall>x \<in> set (queued q gs). int (length (fst x)) \<le> mq_msgsize a))"

definition call_fits :: "mq_attr \<Rightarrow> mq_call \<Rightarrow> bool" where
  "call_fits a c \<longleftrightarrow>
     (case c of Send msg _ \<Rightarrow> int (length msg) \<le> mq_msgsize a | Receive len \<Rightarrow> mq_msgsize a \<le> int len)"

definition system_ok :: "(nat set \<Rightarrow> nat option) \<Rightarrow> mq_attr \<Rightarrow> mq_system \<Rightarrow> bool" where
  "system_ok malloc a s \<longleftrightarrow> mq_ok a (current s)
     \<and> (\<forall>t c q0 ws. blocked s t = Some (c, q0, ws) \<longrightarrow>
          call_fits a c \<and> (\<exists>qw. mq_call_run malloc c q0 ws = Some (Waiting qw)))"

lemma mq_okI:
  "mq_inv q gs \<Longrightarrow> \<forall>x \<in> set (queued q gs). int (length (fst x)) \<le> mq_msgsize a \<Longrightarrow>
   0 \<le> mq_curmsgs (attr q) \<Longrightarrow> mq_curmsgs (attr q) \<le> mq_maxmsg a \<Longrightarrow>
   mq_maxmsg (attr q) = mq_maxmsg a \<Longrightarrow> mq_msgsize (attr q) = mq_msgsize a \<Longrightarrow> mq_ok a q"
  unfolding mq_ok_def by blast

lemma mq_init_ok: "mq_init b1 b2 b3 b4 a = Inr q \<Longrightarrow> mq_inv q [] \<and> mq_ok a q"
  by (auto simp: mq_init_def mq_ok_def mq_inv_def queued_def split: if_splits intro!: exI [of _ "[]"])

lemma mq_inv_attr:
  assumes "mq_inv q gs" "mq_curmsgs a = mq_curmsgs (attr q)"
  shows "mq_inv (q\<lparr>attr := a\<rparr>) gs"
proof -
  have e: "messages (q\<lparr>attr := a\<rparr>) = messages q" "queue_receive (q\<lparr>attr := a\<rparr>) = queue_receive q"
    "queue_send (q\<lparr>attr := a\<rparr>) = queue_send q" "allocated (q\<lparr>attr := a\<rparr>) = allocated q" "attr (q\<lparr>attr := a\<rparr>) = a"
    by simp_all
  show ?thesis using assms(1) unfolding mq_inv_def e assms(2) .
qed

lemma mq_setattr_ok:
  assumes "mq_setattr q x = Inr (old, q')" "mq_ok a q"
  shows "mq_ok a q'"
proof -
  have q': "q' = q\<lparr>attr := (attr q)\<lparr>mq_flags := mq_flags x\<rparr>\<rparr>"
    using assms(1) by (auto simp: mq_setattr_def split: if_splits)
  obtain gs where gs: "mq_inv q gs" "\<forall>x \<in> set (queued q gs). int (length (fst x)) \<le> mq_msgsize a"
    using assms(2) by (auto simp: mq_ok_def)
  have "mq_inv q' gs" unfolding q' using gs(1) by (rule mq_inv_attr) simp
  moreover have "queued q' gs = queued q gs" by (simp add: q' queued_def)
  ultimately show ?thesis using assms(2) gs(2) by (intro mq_okI [of q' gs]) (auto simp: q' mq_ok_def)
qed

lemma set_enqueue: "set (enqueue xs msg pr) = insert (msg, pr) (set xs)"
proof -
  have "set (takeWhile (\<lambda>x. pr \<le> snd x) xs @ dropWhile (\<lambda>x. pr \<le> snd x) xs) = set xs"
    by (simp only: takeWhile_dropWhile_id)
  then have "set (takeWhile (\<lambda>x. pr \<le> snd x) xs) \<union> set (dropWhile (\<lambda>x. pr \<le> snd x) xs) = set xs"
    by (simp only: set_append)
  then show ?thesis unfolding enqueue_def set_append by (simp only: list.set(2) Un_insert_right)
qed

lemma mq_send_post_history:
  assumes ok: "mq_ok a q" and room: "mq_curmsgs (attr q) < mq_maxmsg (attr q)"
    and fits: "int (length msg) \<le> mq_msgsize a" and fresh: "\<And>A m. malloc A = Some m \<Longrightarrow> m \<notin> A"
  shows "\<exists>r q'. mq_send_post malloc q msg pr = Some (r, q') \<and> mq_ok a q'"
proof (cases "malloc (allocated q)")
  case None
  then show ?thesis using ok by (simp add: mq_send_post_def)
next
  case (Some m)
  obtain gs where gs: "mq_inv q gs" "\<forall>x \<in> set (queued q gs). int (length (fst x)) \<le> mq_msgsize a"
    using ok by (auto simp: mq_ok_def)
  from mq_send_post_ok [where malloc = malloc and msg = msg and pr = pr, OF gs(1) Some fresh [OF Some]] obtain q' gs' where q':
    "mq_send_post malloc q msg pr = Some (None, q')" "mq_inv q' gs'" "queued q' gs' = enqueue (queued q gs) msg pr"
    "attr q' = (attr q)\<lparr>mq_curmsgs := mq_curmsgs (attr q) + 1\<rparr>" by blast
  have "\<forall>x \<in> set (queued q' gs'). int (length (fst x)) \<le> mq_msgsize a"
    unfolding q'(3) set_enqueue using gs(2) fits by simp
  then have "mq_ok a q'" using ok room q'(2) by (intro mq_okI [of q' gs']) (auto simp: q'(4) mq_ok_def)
  with q'(1) show ?thesis by blast
qed

lemma mq_receive_post_history:
  assumes ok: "mq_ok a q" and ne: "0 < mq_curmsgs (attr q)" and fits: "mq_msgsize a \<le> int len"
  shows "\<exists>x q'. mq_receive_post q = Some (x, q') \<and> mq_ok a q' \<and> length (fst x) \<le> len"
proof -
  obtain gs where gs: "mq_inv q gs" "\<forall>x \<in> set (queued q gs). int (length (fst x)) \<le> mq_msgsize a"
    using ok by (auto simp: mq_ok_def)
  have "gs \<noteq> []" using ne mq_invD(7) [OF gs(1)] by auto
  from mq_receive_post_ok [OF gs(1) this] obtain x q' gs' where q': "mq_receive_post q = Some (x, q')" "mq_inv q' gs'"
    "queued q gs = x # queued q' gs'" "attr q' = (attr q)\<lparr>mq_curmsgs := mq_curmsgs (attr q) - 1\<rparr>" by blast
  have small: "int (length (fst x)) \<le> mq_msgsize a" "\<forall>x \<in> set (queued q' gs'). int (length (fst x)) \<le> mq_msgsize a"
    using gs(2) unfolding q'(3) by simp_all
  then have "mq_ok a q'" using ok ne q'(2) by (intro mq_okI [of q' gs']) (auto simp: q'(4) mq_ok_def)
  moreover have "length (fst x) \<le> len" using small(1) fits by linarith
  ultimately show ?thesis using q'(1) by blast
qed

text \<open>One round of a call keeps the invariant and is safe.\<close>

lemma mq_go_ok:
  assumes ok: "mq_ok a q" and fits: "call_fits a c" and fresh: "\<And>A m. malloc A = Some m \<Longrightarrow> m \<notin> A"
  shows "mq_go malloc c q = Some (Waiting q)
    \<or> (\<exists>r q'. mq_go malloc c q = Some (Returned r q') \<and> mq_ok a q' \<and> reply_fits c r)"
proof (cases c)
  case (Send msg pr)
  show ?thesis
  proof (cases "mq_curmsgs (attr q) \<ge> mq_maxmsg (attr q)")
    case False
    then show ?thesis
      using mq_send_post_history [where malloc = malloc and msg = msg and pr = pr, OF ok _ _ fresh] fits Send
      by (auto simp: mq_go_def mq_send_wait.simps [of q] call_fits_def)
  qed (simp add: mq_go_def mq_send_wait.simps [of q] Send)
next
  case (Receive len)
  show ?thesis
  proof (cases "mq_curmsgs (attr q) \<le> 0")
    case False
    then obtain x q' where "mq_receive_post q = Some (x, q')" "mq_ok a q'" "length (fst x) \<le> len"
      using mq_receive_post_history [OF ok, of len] fits Receive by (auto simp: call_fits_def)
    then show ?thesis using False Receive by (cases x) (auto simp: mq_go_def mq_receive_wait.simps [of q])
  qed (simp add: mq_go_def mq_receive_wait.simps [of q] Receive)
qed

lemma mq_fail_fits [simp]: "reply_fits c (mq_fail c e)"
  by (cases c) (simp_all add: mq_fail_def)

lemma mq_pre_fits: "mq_ok a q \<Longrightarrow> mq_pre c q = None \<Longrightarrow> call_fits a c"
  by (cases c) (auto simp: mq_pre_def mq_send_pre_def mq_receive_pre_def call_fits_def mq_ok_def split: if_splits)

lemma mq_call_ok:
  assumes ok: "mq_ok a q" and fresh: "\<And>A m. malloc A = Some m \<Longrightarrow> m \<notin> A"
  shows "mq_call_run malloc c q [] = Some (Waiting q) \<and> call_fits a c
    \<or> (\<exists>r q'. mq_call_run malloc c q [] = Some (Returned r q') \<and> mq_ok a q' \<and> reply_fits c r)"
proof (cases "mq_pre c q")
  case None
  then show ?thesis using mq_go_ok [where malloc = malloc, OF ok mq_pre_fits [OF ok None] fresh] mq_pre_fits [OF ok None] by (simp add: mq_call_run_call)
qed (use ok in \<open>simp add: mq_call_run_call\<close>)

lemma mq_wake_ok:
  assumes ok: "mq_ok a q" and fits: "call_fits a c" and fresh: "\<And>A m. malloc A = Some m \<Longrightarrow> m \<notin> A"
    and wait: "mq_call_run malloc c q0 ws = Some (Waiting qw)"
  shows "mq_call_run malloc c q0 (ws @ [(e, q)]) = Some (Waiting q)
    \<or> (\<exists>r q'. mq_call_run malloc c q0 (ws @ [(e, q)]) = Some (Returned r q') \<and> mq_ok a q' \<and> reply_fits c r)"
  using mq_go_ok [where malloc = malloc, OF ok fits fresh] ok by (cases e) (simp_all add: mq_call_run_wake [OF wait])

lemma system_ok_blocked:
  "system_ok malloc a s \<Longrightarrow> blocked s t = Some (c, q0, ws) \<Longrightarrow>
   call_fits a c \<and> (\<exists>qw. mq_call_run malloc c q0 ws = Some (Waiting qw))"
  unfolding system_ok_def by blast

lemma mq_step_ok:
  assumes "mq_step malloc s s'" "system_ok malloc a s" and fresh: "\<And>A m. malloc A = Some m \<Longrightarrow> m \<notin> A"
  shows "system_ok malloc a s'"
proof -
  have ok: "mq_ok a (current s)" using assms(2) by (simp add: system_ok_def)
  show ?thesis
    using assms(1)
  proof cases
    case (call t c r q')
    then show ?thesis using mq_call_ok [where malloc = malloc and c = c, OF ok fresh] assms(2) by (auto simp: system_ok_def)
  next
    case (block t c q')
    then show ?thesis using mq_call_ok [where malloc = malloc and c = c, OF ok fresh] assms(2) by (auto simp: system_ok_def)
  next
    case (wake t c q0 ws e r q')
    from system_ok_blocked [OF assms(2) wake(2)]
    obtain qw where "call_fits a c" "mq_call_run malloc c q0 ws = Some (Waiting qw)" by blast
    from mq_wake_ok [where malloc = malloc and e = e, OF ok this(1) fresh this(2)] wake show ?thesis
      using assms(2) by (auto simp: system_ok_def)
  next
    case (again t c q0 ws e q')
    from system_ok_blocked [OF assms(2) again(2)]
    obtain qw where f: "call_fits a c" "mq_call_run malloc c q0 ws = Some (Waiting qw)" by blast
    from mq_wake_ok [where malloc = malloc and e = e, OF ok f(1) fresh f(2)] again f(1) show ?thesis
      using assms(2) by (auto simp: system_ok_def)
  next
    case (setattr x old q')
    then show ?thesis using mq_setattr_ok [OF setattr(2) ok] assms(2) by (auto simp: system_ok_def)
  qed
qed

lemma mq_steps_ok:
  "(mq_step malloc)\<^sup>*\<^sup>* s s' \<Longrightarrow> system_ok malloc a s \<Longrightarrow> (\<And>A m. malloc A = Some m \<Longrightarrow> m \<notin> A) \<Longrightarrow>
   system_ok malloc a s'"
  by (induction rule: rtranclp_induct) (auto intro: mq_step_ok)

subsection \<open>Examples\<close>

text \<open>A heap with room for eight messages: the first address that is free.\<close>

definition pool_alloc :: "nat set \<Rightarrow> nat option" where
  "pool_alloc A = find (\<lambda>m. m \<notin> A) [0..<8]"

lemma pool_alloc_fresh: "pool_alloc A = Some m \<Longrightarrow> m \<notin> A"
  by (auto simp: pool_alloc_def find_Some_iff)

definition example_attr :: mq_attr where
  "example_attr = \<lparr>mq_flags = 0, mq_maxmsg = 2, mq_msgsize = 8, mq_curmsgs = 0\<rparr>"

definition example_queue :: mqd where
  "example_queue = projr (mq_init True True True True example_attr)"

lemma example_queue: "mq_init True True True True example_attr = Inr example_queue" "mq_inv example_queue []"
  using mq_init_ok [of True True True True example_attr example_queue]
  by (simp_all add: example_queue_def mq_init_def example_attr_def)

lemma example_queue_sel: "allocated example_queue = {}" "attr example_queue = example_attr"
  by (simp_all add: example_queue_def mq_init_def example_attr_def)

lemma example_alloc: "pool_alloc (allocated example_queue) = Some 0" "0 \<notin> allocated example_queue"
  by (simp_all add: example_queue_sel pool_alloc_def upt_rec)

lemma queued_Nil: "queued q [] = []"
  by (simp add: queued_def)

section \<open>Properties\<close>

text \<open>
  C3: sending links the new message into both lists behind all messages of the same or a higher
  priority and keeps the order of the others, so that the queue stays a priority queue that is
  first-in first-out within a priority; the scan of the skip list ends.
\<close>

theorem mq_send_post_enqueues:
  assumes "mq_inv q gs" "malloc (allocated q) = Some m" "m \<notin> allocated q"
  shows "\<exists>q' gs'. mq_send_post malloc q msg pr = Some (None, q') \<and> mq_inv q' gs'
    \<and> queued q' gs' = enqueue (queued q gs) msg pr
    \<and> attr q' = (attr q)\<lparr>mq_curmsgs := mq_curmsgs (attr q) + 1\<rparr>"
  using assms by (rule mq_send_post_ok)

theorem mq_send_post_enqueues_witness:
  "\<exists>q' gs'. mq_send_post pool_alloc example_queue [104, 105] 7 = Some (None, q') \<and> mq_inv q' gs'
    \<and> queued q' gs' = [([104, 105], 7)]"
proof -
  have "enqueue (queued example_queue []) [104, 105] 7 = [([104, 105], 7)]"
    by (simp add: queued_Nil enqueue_def)
  with mq_send_post_enqueues [where malloc = pool_alloc, OF example_queue(2) example_alloc, of "[104, 105]" 7]
  show ?thesis by metis
qed

text \<open>
  C18: receiving from a queue that holds messages returns the first of the queue's order, frees
  its node and leaves the rest of the queue, with both lists intact.
\<close>

theorem mq_receive_post_dequeues:
  assumes "mq_inv q gs" "0 < mq_curmsgs (attr q)"
  shows "\<exists>q' gs' x. mq_receive_post q = Some (x, q') \<and> mq_inv q' gs' \<and> queued q gs = x # queued q' gs'
    \<and> allocated q' \<subset> allocated q"
proof -
  have "gs \<noteq> []" using assms(2) mq_invD(7) [OF assms(1)] by auto
  from mq_receive_post_ok [OF assms(1) this] obtain q' gs' x where
    q': "mq_receive_post q = Some (x, q')" "mq_inv q' gs'" "queued q gs = x # queued q' gs'" by blast
  obtain a where a: "queue_receive q = Some a"
    using q'(1) by (cases "queue_receive q") (simp_all add: mq_receive_post_def)
  obtain cs where "concat gs = a # cs"
    using mq_invD(1) [OF assms(1)] unfolding a by (cases "concat gs") simp_all
  then have "a \<in> allocated q" using mq_invD(6) [OF assms(1)] by (metis list.set_intros(1) subsetD)
  moreover have "allocated (snd (the (mq_receive_post q))) = allocated q - {a}"
    by (simp add: mq_receive_post_def Let_def a)
  then have "allocated q' = allocated q - {a}" unfolding q'(1) by simp
  ultimately have "allocated q' \<subset> allocated q" by blast
  with q' show ?thesis by blast
qed

text \<open>
  C6: whatever calls threads make on a queue, however they interleave, and whenever and with whatever
  result their waits return, the two lists of the queue keep their structure and it holds between zero
  and \<open>mq_maxmsg\<close> messages. Every call that is made, and every blocked call that goes on, is safe: it
  does not follow a null pointer, and a receive copies no more bytes than the caller's buffer has.
\<close>

theorem mq_histories_ok:
  assumes "mq_init b1 b2 b3 b4 a = Inr q" "(mq_step malloc)\<^sup>*\<^sup>* (mq_system_init q) s"
    and "\<And>A m. malloc A = Some m \<Longrightarrow> m \<notin> A"
  shows "(\<exists>gs. mq_inv (current s) gs)
    \<and> 0 \<le> mq_curmsgs (attr (current s)) \<and> mq_curmsgs (attr (current s)) \<le> mq_maxmsg a
    \<and> (\<forall>c. mq_call_safe c (mq_call_run malloc c (current s) []))
    \<and> (\<forall>t c q0 ws e. blocked s t = Some (c, q0, ws) \<longrightarrow>
          mq_call_safe c (mq_call_run malloc c q0 (ws @ [(e, current s)])))"
proof -
  have "system_ok malloc a (mq_system_init q)"
    using mq_init_ok [OF assms(1)] by (simp add: system_ok_def mq_system_init_def)
  with mq_steps_ok [OF assms(2)] assms(3) have ok: "system_ok malloc a s" by blast
  then have q: "mq_ok a (current s)" by (simp add: system_ok_def)
  have "mq_call_safe c (mq_call_run malloc c (current s) [])" for c
    using mq_call_ok [where malloc = malloc and c = c, OF q assms(3)] by (auto simp: mq_call_safe_def)
  moreover have "mq_call_safe c (mq_call_run malloc c q0 (ws @ [(e, current s)]))"
    if "blocked s t = Some (c, q0, ws)" for t c q0 ws e
  proof -
    from system_ok_blocked [OF ok that]
    obtain qw where "call_fits a c" "mq_call_run malloc c q0 ws = Some (Waiting qw)" by blast
    from mq_wake_ok [where malloc = malloc and e = e, OF q this(1) assms(3) this(2)] show ?thesis by (auto simp: mq_call_safe_def)
  qed
  ultimately show ?thesis using q by (auto simp: mq_ok_def)
qed

text \<open>
  A call of \<open>mq_send()\<close> or \<open>mq_timedsend()\<close> that succeeds has enqueued its message in a
  state with room for it: the state it was called in, or one in which a wait returned.
\<close>

theorem mq_timedsend_guarded:
  assumes "mq_timedsend malloc q msg pr ws = Some (Returned None q')"
  shows "\<exists>q0. (q0 = q \<or> q0 \<in> snd ` set ws) \<and> mq_curmsgs (attr q0) < mq_maxmsg (attr q0)
    \<and> mq_send_post malloc q0 msg pr = Some (None, q')"
  using assms mq_send_wait_ready [of q ws]
  by (auto simp: mq_timedsend_def
    split: option.splits sum.splits outcome.splits bind_splits)

theorem mq_receive_post_dequeues_witness:
  "\<exists>q q' x. mq_receive_post q = Some (x, q') \<and> x = ([104], 1)"
proof -
  obtain q1 gs1 where 1: "mq_inv q1 gs1" "queued q1 gs1 = enqueue (queued example_queue []) [104] 1"
    "attr q1 = (attr example_queue)\<lparr>mq_curmsgs := mq_curmsgs (attr example_queue) + 1\<rparr>"
    using mq_send_post_ok [where malloc = pool_alloc, OF example_queue(2) example_alloc, of "[104]" 1] by blast
  have "0 < mq_curmsgs (attr q1)" unfolding 1(3) by (simp add: example_queue_sel example_attr_def)
  from mq_receive_post_dequeues [OF 1(1) this] obtain q' gs' x
    where "mq_receive_post q1 = Some (x, q')" "queued q1 gs1 = x # queued q' gs'" by blast
  then show ?thesis unfolding 1(2) by (simp add: queued_Nil enqueue_def) blast
qed

text \<open>
  A run for the witness: with two messages in a queue of two, a third \<open>mq_send()\<close> has to wait; then a
  receive takes the message of the higher priority, and the blocked call can go on.
\<close>

definition result_queue :: "mq_reply outcome option \<Rightarrow> mqd" where
  "result_queue out = (case out of Some (Waiting q) \<Rightarrow> q | Some (Returned r q) \<Rightarrow> q | None \<Rightarrow> undefined)"

definition reply_of :: "mq_reply outcome option \<Rightarrow> mq_reply option" where
  "reply_of out = (case out of Some (Returned r q) \<Rightarrow> Some r | _ \<Rightarrow> None)"

definition example_1 :: mqd where
  "example_1 = result_queue (mq_call_run pool_alloc (Send [104] 1) example_queue [])"

definition example_2 :: mqd where
  "example_2 = result_queue (mq_call_run pool_alloc (Send [105] 5) example_1 [])"

definition example_3 :: mqd where
  "example_3 = result_queue (mq_call_run pool_alloc (Receive 8) example_2 [])"

declare mq_send_scan.simps [code]

lemma example_replies:
  "reply_of (mq_call_run pool_alloc (Send [104] 1) example_queue []) = Some (Sent None)"
  "reply_of (mq_call_run pool_alloc (Send [105] 5) example_1 []) = Some (Sent None)"
  "reply_of (mq_call_run pool_alloc (Receive 8) example_2 []) = Some (Received (Inr ([105], 5)))"
  "mq_curmsgs (attr example_2) = 2" "mq_maxmsg (attr example_2) = 2" "mq_msgsize (attr example_2) = 8"
  "mq_flags (attr example_2) = 0" "mq_curmsgs (attr example_3) = 1"
  "reply_of (mq_call_run pool_alloc (Send [106] 9) example_2 [(None, example_3)]) = Some (Sent None)"
  by code_simp+

lemma example_blocks: "mq_call_run pool_alloc (Send [106] 9) example_2 [] = Some (Waiting example_2)"
  by (simp add: mq_call_run_call mq_pre_def mq_send_pre_def mq_go_def mq_send_wait.simps example_replies)

lemma reply_of_Some: "reply_of out = Some r \<Longrightarrow> out = Some (Returned r (result_queue out))"
  by (auto simp: reply_of_def result_queue_def split: option.splits outcome.splits)

theorem mq_histories_ok_witness:
  "\<exists>s. (mq_step pool_alloc)\<^sup>*\<^sup>* (mq_system_init example_queue) s
     \<and> mq_curmsgs (attr (current s)) = 1 \<and> mq_curmsgs (attr (current s)) \<le> mq_maxmsg example_attr
     \<and> blocked s 2 = Some (Send [106] 9, example_2, [])
     \<and> mq_call_safe (Send [106] 9) (mq_call_run pool_alloc (Send [106] 9) example_2 [(None, current s)])"
proof -
  let ?sys = "\<lambda>q b. \<lparr>current = q, blocked = b\<rparr>" and ?b = "[2 \<mapsto> (Send [106] 9, example_2, [])]"
  have "mq_step pool_alloc (mq_system_init example_queue) (?sys example_1 Map.empty)"
    using mq_step.call [of "mq_system_init example_queue" 0 pool_alloc "Send [104] 1" "Sent None" example_1]
      reply_of_Some [OF example_replies(1)] by (simp add: mq_system_init_def example_1_def)
  moreover have "mq_step pool_alloc (?sys example_1 Map.empty) (?sys example_2 Map.empty)"
    using mq_step.call [of "?sys example_1 Map.empty" 0 pool_alloc "Send [105] 5" "Sent None" example_2]
      reply_of_Some [OF example_replies(2)] by (simp add: example_2_def)
  moreover have "mq_step pool_alloc (?sys example_2 Map.empty) (?sys example_2 ?b)"
    using mq_step.block [of "?sys example_2 Map.empty" 2 pool_alloc "Send [106] 9" example_2] example_blocks by simp
  moreover have "mq_step pool_alloc (?sys example_2 ?b) (?sys example_3 ?b)"
    using mq_step.call [of "?sys example_2 ?b" 0 pool_alloc "Receive 8" "Received (Inr ([105], 5))" example_3]
      reply_of_Some [OF example_replies(3)] by (simp add: example_3_def)
  ultimately have run: "(mq_step pool_alloc)\<^sup>*\<^sup>* (mq_system_init example_queue) (?sys example_3 ?b)"
    by (meson converse_rtranclp_into_rtranclp rtranclp.rtrancl_refl)
  note ok = mq_histories_ok [OF example_queue(1) run pool_alloc_fresh]
  from ok have max: "mq_curmsgs (attr example_3) \<le> mq_maxmsg example_attr" by simp
  from ok have "\<forall>t c q0 ws. blocked (?sys example_3 ?b) t = Some (c, q0, ws) \<longrightarrow>
      (\<forall>e. mq_call_safe c (mq_call_run pool_alloc c q0 (ws @ [(e, current (?sys example_3 ?b))])))" by blast
  then have safe: "mq_call_safe (Send [106] 9) (mq_call_run pool_alloc (Send [106] 9) example_2 ([] @ [(None, example_3)]))"
    by (elim allE [of _ 2] allE [of _ "Send [106] 9"]) fastforce
  show ?thesis using run max safe example_replies(8) by (intro exI [of _ "?sys example_3 ?b"]) simp
qed

end
