(* ===== verification/Semaphore.thy ===== *)
theory Semaphore
  imports Prelude
begin

text \<open>
  The semaphores of \<^verbatim>\<open>libc/semaphore\<close>. Each operation runs under the semaphore's lock and
  is one transition; a wait loop takes the list of the states that the semaphore is in when its
  waits on the condition variable return, with the error of a wait that timed out. The values of
  the kernel's lock and condition variable words are parameters of \<open>sem_init()\<close>.
\<close>

section \<open>Operations\<close>

record sem_t =
  lock_state :: u32
  lock_write_recursion :: int
  lock_pshared :: int
  cond_waiters :: u32
  cond_clock :: u32
  cond_pshared :: int
  sem_value :: u32


definition INT_MAX :: int where
  "INT_MAX = 0x7fffffff"


definition sem_getvalue :: "sem_t \<Rightarrow> int" where
  "sem_getvalue s = (if uint (sem_value s) > INT_MAX then INT_MAX else uint (sem_value s))"



text \<open>\<open>None\<close>: the call has not returned after the given waits.\<close>

fun sem_timedwait :: "sem_t \<Rightarrow> (errno option \<times> sem_t) list \<Rightarrow> (errno option \<times> sem_t) option" where
  "sem_timedwait s ws =
     (if sem_value s = 0 then
        (case ws of
           [] \<Rightarrow> None
         | (Some e, s') # ws' \<Rightarrow> Some (Some e, s')
         | (None, s') # ws' \<Rightarrow> sem_timedwait s' ws')
      else Some (None, s\<lparr>sem_value := sem_value s - 1\<rparr>))"

fun sem_wait :: "sem_t \<Rightarrow> sem_t list \<Rightarrow> (errno option \<times> sem_t) option" where
  "sem_wait s ws =
     (if sem_value s = 0 then
        (case ws of
           [] \<Rightarrow> None
         | s' # ws' \<Rightarrow> sem_wait s' ws')
      else Some (None, s\<lparr>sem_value := sem_value s - 1\<rparr>))"

declare sem_timedwait.simps [simp del] sem_wait.simps [simp del]

section \<open>Counting\<close>

lemma unat_dec: "(x :: u32) \<noteq> 0 \<Longrightarrow> unat (x - 1) + 1 = unat x"
proof -
  assume "x \<noteq> 0"
  then have "unat x \<noteq> 0" by (simp add: unat_eq_zero)
  then show ?thesis using unat_minus_one [OF \<open>x \<noteq> 0\<close>] by simp
qed




lemma sem_timedwait_success:
  "sem_timedwait s ws = Some (None, s') \<Longrightarrow>
     \<exists>s0. (s0 = s \<or> (None, s0) \<in> set ws) \<and> sem_value s0 \<noteq> 0 \<and> s' = s0\<lparr>sem_value := sem_value s0 - 1\<rparr>"
proof (induction s ws rule: sem_timedwait.induct)
  case (1 s ws)
  show ?case
  proof (cases "sem_value s = 0")
    case True
    then obtain s2 ws' where ws: "ws = (None, s2) # ws'" "sem_timedwait s2 ws' = Some (None, s')"
      using "1.prems" by (auto simp: sem_timedwait.simps [of s] split: list.splits prod.splits option.splits)
    from "1.IH" [OF True ws(1) refl refl ws(2)] show ?thesis unfolding ws(1) by auto
  next
    case False
    then show ?thesis using "1.prems" by (auto simp: sem_timedwait.simps [of s])
  qed
qed

lemma sem_wait_timedwait: "sem_wait s ws = sem_timedwait s (map (Pair None) ws)"
proof (induction s ws rule: sem_wait.induct)
  case (1 s ws)
  then show ?case
    by (cases ws) (simp_all add: sem_wait.simps [of s] sem_timedwait.simps [of s])
qed

section \<open>Properties\<close>



text \<open>
  \<open>sem_wait()\<close> and \<open>sem_timedwait()\<close> succeed only by taking a unit from a semaphore that has
  one, in the state of the call or in one in which a wait returned.
\<close>

theorem sem_wait_takes_unit:
  assumes "sem_wait s ws = Some (r, s')"
  shows "r = None \<and> (\<exists>s0 \<in> set (s # ws). 0 < unat (sem_value s0) \<and> unat (sem_value s') + 1 = unat (sem_value s0))"
proof -
  have "r = None" using assms
  proof (induction s ws rule: sem_wait.induct)
    case (1 s ws)
    show ?case
    proof (cases "sem_value s = 0")
      case True
      then obtain s2 ws' where ws: "ws = s2 # ws'" "sem_wait s2 ws' = Some (r, s')"
        using "1.prems" by (cases ws) (simp_all add: sem_wait.simps [of s])
      show ?thesis by (rule "1.IH" [OF True ws])
    next
      case False
      then show ?thesis using "1.prems" by (simp add: sem_wait.simps [of s])
    qed
  qed
  moreover from this obtain s0 where "s0 = s \<or> s0 \<in> set ws" "sem_value s0 \<noteq> 0" "s' = s0\<lparr>sem_value := sem_value s0 - 1\<rparr>"
    using assms sem_timedwait_success [of s "map (Pair None) ws" s'] by (auto simp: sem_wait_timedwait)
  moreover from this have "unat (sem_value s') + 1 = unat (sem_value s0)"
    using unat_dec [of "sem_value s0"] by simp
  moreover from this have "0 < unat (sem_value s0)" by linarith
  moreover have "s0 \<in> set (s # ws)" using \<open>s0 = s \<or> s0 \<in> set ws\<close> by auto
  ultimately show ?thesis by blast
qed

end
