(* ===== verification/Utf8.thy ===== *)
theory Utf8
  imports Prelude
begin

text \<open>
  The UTF-8 and US-ASCII codecs of \<^verbatim>\<open>libc/locale/ctype\<close> and the conversion state of
  \<^verbatim>\<open>common/mbstate.h\<close>. A decoder takes the bytes of its buffer and the conversion state and
  returns the number of bytes it used with the character, or \<open>- 2\<close> when the bytes end within a
  character (\<open>Partial\<close>), or fails with \<open>EILSEQ\<close>.
\<close>

section \<open>Conversion states\<close>

record mbstate_t =
  surrogate :: u16
  bytesleft :: u32
  partial_char :: u32
  lowerbound :: u32

definition mbstate_init :: mbstate_t where
  "mbstate_init = \<lparr>surrogate = 0, bytesleft = 0, partial_char = 0, lowerbound = 0\<rparr>"

definition mbstate_get_init :: "mbstate_t option \<Rightarrow> bool" where
  "mbstate_get_init mbs =
     (case mbs of
        None \<Rightarrow> True
      | Some s \<Rightarrow> (surrogate s < 0xd800 \<or> surrogate s > 0xdfff) \<and> bytesleft s = 0)"

definition mbstate_set_init :: "mbstate_t option \<Rightarrow> mbstate_t option" where
  "mbstate_set_init mbs = map_option (\<lambda>_. mbstate_init) mbs"

definition mbstate_get_surrogate :: "mbstate_t \<Rightarrow> u16 option" where
  "mbstate_get_surrogate s =
     (if surrogate s < 0xd800 \<or> surrogate s > 0xdfff then None else Some (surrogate s))"

definition mbstate_set_surrogate :: "u16 \<Rightarrow> mbstate_t" where
  "mbstate_set_surrogate c = mbstate_init\<lparr>surrogate := c\<rparr>"

definition mbstate_set_multibyte :: "u32 \<Rightarrow> u32 \<Rightarrow> u32 \<Rightarrow> mbstate_t" where
  "mbstate_set_multibyte n p l = mbstate_init\<lparr>bytesleft := n, partial_char := p, lowerbound := l\<rparr>"

section \<open>UTF-8\<close>

datatype decoded = Char nat u32 mbstate_t | Partial mbstate_t | Illegal mbstate_t

fun utf_8_continue :: "u8 list \<Rightarrow> nat \<Rightarrow> u32 \<Rightarrow> u32 \<Rightarrow> u32 \<Rightarrow> mbstate_t \<Rightarrow> decoded" where
  "utf_8_continue [] used left part lower ps = Partial (mbstate_set_multibyte left part lower)"
| "utf_8_continue (b # bs) used left part lower ps =
     (if b AND 0xc0 \<noteq> 0x80 then Illegal ps
      else
        (let part = push_bit 6 part OR ucast (b AND 0x3f); left = left - 1
         in if left = 0 then
              (if part < lower \<or> (part \<ge> 0xd800 \<and> part \<le> 0xdfff) \<or> part > 0x10ffff then Illegal ps
               else Char (used + 1) part mbstate_init)
            else utf_8_continue bs (used + 1) left part lower ps))"

definition utf_8_mbtoc32 :: "u8 list \<Rightarrow> mbstate_t \<Rightarrow> decoded" where
  "utf_8_mbtoc32 s ps =
     (case s of
        [] \<Rightarrow> Partial ps
      | b # bs \<Rightarrow>
          if bytesleft ps = 0 then
            (if b AND 0x80 = 0 then Char 1 (ucast b) mbstate_init
             else if b AND 0xe0 = 0xc0 then utf_8_continue bs 1 1 (ucast (b AND 0x1f)) 0x80 ps
             else if b AND 0xf0 = 0xe0 then utf_8_continue bs 1 2 (ucast (b AND 0xf)) 0x800 ps
             else if b AND 0xf8 = 0xf0 then utf_8_continue bs 1 3 (ucast (b AND 0x7)) 0x10000 ps
             else Illegal ps)
          else utf_8_continue s 0 (bytesleft ps) (partial_char ps) (lowerbound ps) ps)"

definition utf_8_c32tomb :: "u32 \<Rightarrow> errno + u8 list" where
  "utf_8_c32tomb c32 =
     (if c32 \<le> 0x7f then Inr [ucast c32]
      else if c32 \<le> 0x7ff then
        Inr [0xc0 OR ucast (drop_bit 6 c32), 0x80 OR ucast (c32 AND 0x3f)]
      else if c32 \<le> 0xffff then
        (if c32 \<ge> 0xd800 \<and> c32 \<le> 0xdfff then Inl EILSEQ
         else Inr [0xe0 OR ucast (drop_bit 12 c32), 0x80 OR ucast (drop_bit 6 c32 AND 0x3f),
                   0x80 OR ucast (c32 AND 0x3f)])
      else if c32 \<le> 0x10ffff then
        Inr [0xf0 OR ucast (drop_bit 18 c32), 0x80 OR ucast (drop_bit 12 c32 AND 0x3f),
             0x80 OR ucast (drop_bit 6 c32 AND 0x3f), 0x80 OR ucast (c32 AND 0x3f)]
      else Inl EILSEQ)"

section \<open>US-ASCII\<close>

definition us_ascii_mbtoc32 :: "u8 list \<Rightarrow> mbstate_t \<Rightarrow> decoded" where
  "us_ascii_mbtoc32 s ps =
     (case s of
        [] \<Rightarrow> Partial ps
      | b # bs \<Rightarrow> if b > 127 then Illegal ps else Char 1 (ucast b) mbstate_init)"

definition us_ascii_c32tomb :: "u32 \<Rightarrow> errno + u8 list" where
  "us_ascii_c32tomb c32 = (if c32 > 127 then Inl EILSEQ else Inr [ucast c32])"

section \<open>Bits of encoded characters\<close>

lemma cont_byte:
  fixes w :: u8
  shows "(0x80 OR (w AND 0x3f)) AND 0xc0 = 0x80" "(0x80 OR (w AND 0x3f)) AND 0x3f = w AND 0x3f"
  by (simp_all add: bit.conj_disj_distrib2 and.assoc)

lemma mask_6: "(0x3f :: 'a :: len word) = mask 6"
  by (simp add: mask_eq_exp_minus_1)

lemma ucast_and_3f: "(ucast (x AND 0x3f :: u32) :: u8) = ucast x AND 0x3f"
  unfolding mask_6 by (rule bit_word_eqI) (auto simp: bit_simps)

lemma ucast_ucast_3f: "(ucast (ucast x AND 0x3f :: u8) :: u32) = x AND 0x3f"
  unfolding mask_6 by (rule bit_word_eqI) (auto simp: bit_simps)

lemma join_6: "push_bit 6 (drop_bit 6 x) OR (x AND 0x3f) = (x :: u32)"
  unfolding mask_6 by (rule bit_word_eqI) (auto simp: bit_simps)

lemma continue_byte:
  "utf_8_continue ((0x80 OR ucast (x AND 0x3f)) # bs) used left (drop_bit 6 x) lower ps =
     (if left - 1 = 0 then
        (if x < lower \<or> (x \<ge> 0xd800 \<and> x \<le> 0xdfff) \<or> x > 0x10ffff then Illegal ps
         else Char (used + 1) x mbstate_init)
      else utf_8_continue bs (used + 1) (left - 1) x lower ps)"
  unfolding ucast_and_3f utf_8_continue.simps cont_byte ucast_ucast_3f join_6 by (simp add: Let_def)

lemma small_bits: "uint (w :: u32) < 2 ^ n \<Longrightarrow> take_bit n w = w"
  by (simp add: word_uint_eq_iff unsigned_take_bit_eq take_bit_int_eq_self)

lemma and_disjoint: "(w :: u8) AND v = w \<Longrightarrow> v AND u = 0 \<Longrightarrow> w AND u = 0"
proof -
  assume w: "w AND v = w" and v: "v AND u = 0"
  have "(w AND v) AND u = w AND (v AND u)" by (rule and.assoc)
  then show ?thesis unfolding w v by simp
qed

lemma lead_byte:
  fixes x :: u32
  assumes "take_bit n x = x" "n \<le> 8"
  shows "(ucast x :: u8) AND mask n = ucast x" "ucast (ucast x :: u8) = x"
proof -
  have b: "k < n" if "bit x k" for k using assms(1) that by (metis bit_take_bit_iff)
  show "(ucast x :: u8) AND mask n = ucast x"
    by (rule bit_word_eqI) (auto simp: bit_simps dest: b)
  show "ucast (ucast x :: u8) = x"
    by (rule bit_word_eqI) (use assms(2) in \<open>auto simp: bit_simps dest: b\<close>)
qed

lemma lead2: "(w :: u8) AND 0x1f = w \<Longrightarrow>
    (0xc0 OR w) AND 0x80 \<noteq> 0 \<and> (0xc0 OR w) AND 0xe0 = 0xc0 \<and> (0xc0 OR w) AND 0x1f = w"
proof -
  assume w: "w AND 0x1f = w"
  have "w AND 0xe0 = 0" "w AND 0x80 = 0"
    by (rule and_disjoint [OF w], simp)+
  then show ?thesis using w by (simp add: bit.conj_disj_distrib2)
qed

lemma lead3: "(w :: u8) AND 0xf = w \<Longrightarrow>
    (0xe0 OR w) AND 0x80 \<noteq> 0 \<and> (0xe0 OR w) AND 0xe0 \<noteq> 0xc0 \<and> (0xe0 OR w) AND 0xf0 = 0xe0
      \<and> (0xe0 OR w) AND 0xf = w"
proof -
  assume w: "w AND 0xf = w"
  have "w AND 0xe0 = 0" "w AND 0x80 = 0" "w AND 0xf0 = 0"
    by (rule and_disjoint [OF w], simp)+
  then show ?thesis using w by (simp add: bit.conj_disj_distrib2)
qed

lemma lead4: "(w :: u8) AND 0x7 = w \<Longrightarrow>
    (0xf0 OR w) AND 0x80 \<noteq> 0 \<and> (0xf0 OR w) AND 0xe0 \<noteq> 0xc0 \<and> (0xf0 OR w) AND 0xf0 \<noteq> 0xe0
      \<and> (0xf0 OR w) AND 0xf8 = 0xf0 \<and> (0xf0 OR w) AND 0x7 = w"
proof -
  assume w: "w AND 0x7 = w"
  have "w AND 0xe0 = 0" "w AND 0x80 = 0" "w AND 0xf0 = 0" "w AND 0xf8 = 0"
    by (rule and_disjoint [OF w], simp)+
  then show ?thesis using w by (simp add: bit.conj_disj_distrib2)
qed

lemma take_bit_drop_le:
  assumes "uint (c :: u32) < 2 ^ (k + n)"
  shows "take_bit n (drop_bit k c) = drop_bit k c"
proof -
  have "drop_bit k (take_bit (k + n) c) = take_bit n (drop_bit k c)"
    by (simp add: drop_bit_take_bit)
  then show ?thesis using small_bits [OF assms] by simp
qed

lemma drop_bit_drop_bit_6: "drop_bit 12 c = drop_bit 6 (drop_bit 6 c)" "drop_bit 18 c = drop_bit 6 (drop_bit 12 c)" for c :: u32
  by simp_all

lemma word_between: "\<not> (c :: u32) \<le> a \<Longrightarrow> c \<le> b \<Longrightarrow> uint a < uint c \<and> uint c \<le> uint b"
  by (simp add: word_le_def)

section \<open>Decoding inverts encoding\<close>

lemma utf_8_decode_encode:
  assumes "utf_8_c32tomb c = Inr bs"
  shows "utf_8_mbtoc32 (bs @ rest) mbstate_init = Char (length bs) c mbstate_init"
proof -
  have init: "bytesleft mbstate_init = 0" by (simp add: mbstate_init_def)
  consider "c \<le> 0x7f" | "\<not> c \<le> 0x7f" "c \<le> 0x7ff" | "\<not> c \<le> 0x7ff" "c \<le> 0xffff" "\<not> (c \<ge> 0xd800 \<and> c \<le> 0xdfff)"
    | "\<not> c \<le> 0xffff" "c \<le> 0x10ffff"
    using assms by (auto simp: utf_8_c32tomb_def split: if_splits)
  then show ?thesis
  proof cases
    case 1
    have "uint c < 2 ^ 7" using 1 by (simp add: word_le_def)
    note l = lead_byte [OF small_bits [OF this], simplified]
    have "(ucast c :: u8) AND 0x80 = 0" by (rule and_disjoint [of _ "mask 7"]) (use l in \<open>simp_all add: mask_eq_exp_minus_1\<close>)
    then show ?thesis using 1 assms init l by (auto simp: utf_8_c32tomb_def utf_8_mbtoc32_def)
  next
    case 2
    have "uint c < 2 ^ (6 + 5)" using 2 by (simp add: word_le_def)
    note l = lead_byte [OF take_bit_drop_le [OF this]]
    have w: "(ucast (drop_bit 6 c) :: u8) AND 0x1f = ucast (drop_bit 6 c)" using l(1) by (simp add: mask_eq_exp_minus_1)
    have bs: "bs = [0xc0 OR ucast (drop_bit 6 c), 0x80 OR ucast (c AND 0x3f)]"
      using assms 2 by (auto simp: utf_8_c32tomb_def)
    have "utf_8_mbtoc32 (bs @ rest) mbstate_init
        = utf_8_continue ((0x80 OR ucast (c AND 0x3f)) # rest) 1 1 (drop_bit 6 c) 0x80 mbstate_init"
      using lead2 [OF w] l(2) by (simp add: bs utf_8_mbtoc32_def init del: utf_8_continue.simps)
    also have "\<dots> = Char (length bs) c mbstate_init"
      unfolding continue_byte using word_between [OF 2] by (auto simp: bs word_le_def word_less_def)
    finally show ?thesis .
  next
    case 3
    have "uint c < 2 ^ (12 + 4)" using 3 by (simp add: word_le_def)
    note l = lead_byte [OF take_bit_drop_le [OF this]]
    have w: "(ucast (drop_bit 12 c) :: u8) AND 0xf = ucast (drop_bit 12 c)" using l(1) by (simp add: mask_eq_exp_minus_1)
    have bs: "bs = [0xe0 OR ucast (drop_bit 12 c), 0x80 OR ucast (drop_bit 6 c AND 0x3f), 0x80 OR ucast (c AND 0x3f)]"
    proof -
      have "\<not> c \<le> 0x7f" using 3(1) by (simp add: word_le_def)
      then show ?thesis using assms 3 by (auto simp: utf_8_c32tomb_def split: if_splits)
    qed
    have "utf_8_mbtoc32 (bs @ rest) mbstate_init
        = utf_8_continue ((0x80 OR ucast (drop_bit 6 c AND 0x3f)) # (0x80 OR ucast (c AND 0x3f)) # rest)
            1 2 (drop_bit 6 (drop_bit 6 c)) 0x800 mbstate_init"
      using lead3 [OF w] l(2) by (simp add: bs utf_8_mbtoc32_def init del: utf_8_continue.simps)
    also have "\<dots> = utf_8_continue ((0x80 OR ucast (c AND 0x3f)) # rest) 2 1 (drop_bit 6 c) 0x800 mbstate_init"
      by (subst continue_byte) (simp add: numeral_2_eq_2 del: utf_8_continue.simps)
    also have "\<dots> = Char (length bs) c mbstate_init"
      unfolding continue_byte using word_between [OF 3(1,2)] 3(3) by (auto simp: bs word_le_def word_less_def)
    finally show ?thesis .
  next
    case 4
    have "uint c < 2 ^ (18 + 3)" using 4 by (simp add: word_le_def)
    note l = lead_byte [OF take_bit_drop_le [OF this]]
    have w: "(ucast (drop_bit 18 c) :: u8) AND 0x7 = ucast (drop_bit 18 c)" using l(1) by (simp add: mask_eq_exp_minus_1)
    have bs: "bs = [0xf0 OR ucast (drop_bit 18 c), 0x80 OR ucast (drop_bit 12 c AND 0x3f),
        0x80 OR ucast (drop_bit 6 c AND 0x3f), 0x80 OR ucast (c AND 0x3f)]"
    proof -
      have "\<not> c \<le> 0x7f" "\<not> c \<le> 0x7ff" using 4(1) by (simp_all add: word_le_def)
      then show ?thesis using assms 4 by (auto simp: utf_8_c32tomb_def split: if_splits)
    qed
    have "utf_8_mbtoc32 (bs @ rest) mbstate_init
        = utf_8_continue ((0x80 OR ucast (drop_bit 12 c AND 0x3f)) # (0x80 OR ucast (drop_bit 6 c AND 0x3f))
            # (0x80 OR ucast (c AND 0x3f)) # rest) 1 3 (drop_bit 6 (drop_bit 12 c)) 0x10000 mbstate_init"
      using lead4 [OF w] l(2) by (simp add: bs utf_8_mbtoc32_def init del: utf_8_continue.simps)
    also have "\<dots> = utf_8_continue ((0x80 OR ucast (drop_bit 6 c AND 0x3f)) # (0x80 OR ucast (c AND 0x3f)) # rest)
        2 2 (drop_bit 6 (drop_bit 6 c)) 0x10000 mbstate_init"
      by (subst continue_byte) (simp add: numeral_2_eq_2 del: utf_8_continue.simps)
    also have "\<dots> = utf_8_continue ((0x80 OR ucast (c AND 0x3f)) # rest) 3 1 (drop_bit 6 c) 0x10000 mbstate_init"
      by (subst continue_byte) (simp add: numeral_3_eq_3 numeral_2_eq_2 del: utf_8_continue.simps)
    also have "\<dots> = Char (length bs) c mbstate_init"
      unfolding continue_byte using word_between [OF 4] by (auto simp: bs word_le_def word_less_def)
    finally show ?thesis .
  qed
qed


text \<open>
  C23: decoding inverts encoding: the bytes that \<open>utf_8_c32tomb()\<close> writes for a character are
  decoded to that character by \<open>utf_8_mbtoc32()\<close>, whatever follows them, using all of them and
  leaving the initial state.
\<close>

theorem utf_8_roundtrip:
  assumes "utf_8_c32tomb c = Inr bs"
  shows "utf_8_mbtoc32 (bs @ rest) mbstate_init = Char (length bs) c mbstate_init"
  using assms by (rule utf_8_decode_encode)

theorem utf_8_roundtrip_witness:
  "utf_8_mbtoc32 ([0xe2, 0x82, 0xac] @ [0x41]) mbstate_init = Char 3 0x20ac mbstate_init"
  using utf_8_roundtrip [of "0x20ac" "[0xe2, 0x82, 0xac]" "[0x41]"] by (simp add: utf_8_c32tomb_def)

section \<open>Restarting the decoder\<close>

lemma continue_used:
  "utf_8_continue bs (k + used) left part lower ps = Char n c q \<longleftrightarrow>
     (\<exists>m. n = k + m \<and> utf_8_continue bs used left part lower ps = Char m c q)"
  by (induction bs used left part lower ps rule: utf_8_continue.induct) (auto simp: Let_def add.assoc)

lemma continue_Partial:
  "utf_8_continue xs used left part lower ps = Partial q \<Longrightarrow> left \<noteq> 0 \<Longrightarrow>
     bytesleft q \<noteq> 0 \<and> (\<forall>ys. utf_8_continue (xs @ ys) used left part lower ps =
       utf_8_continue ys (length xs + used) (bytesleft q) (partial_char q) (lowerbound q) ps)"
  by (induction xs used left part lower ps rule: utf_8_continue.induct)
    (auto simp: Let_def mbstate_set_multibyte_def mbstate_init_def split: if_splits)

lemma continue_state:
  "utf_8_continue bs used left part lower ps = Char n c q \<Longrightarrow>
     utf_8_continue bs used left part lower ps' = Char n c q"
  by (induction bs used left part lower ps rule: utf_8_continue.induct) (auto simp: Let_def split: if_splits)

lemma mbtoc32_continues:
  "bytesleft ps \<noteq> 0 \<Longrightarrow> ys \<noteq> [] \<Longrightarrow>
     utf_8_mbtoc32 ys ps = utf_8_continue ys 0 (bytesleft ps) (partial_char ps) (lowerbound ps) ps"
  by (cases ys) (simp_all add: utf_8_mbtoc32_def)

lemma mbtoc32_Partial_cont:
  assumes "utf_8_mbtoc32 xs ps = Partial q" "xs \<noteq> []"
  shows "bytesleft q \<noteq> 0 \<and> (\<forall>ys. utf_8_mbtoc32 (xs @ ys) ps =
    utf_8_continue ys (length xs) (bytesleft q) (partial_char q) (lowerbound q) ps)"
proof (cases xs)
  case (Cons b bs)
  show ?thesis
  proof (cases "bytesleft ps = 0")
    case True
    then show ?thesis using assms Cons
      by (auto simp: utf_8_mbtoc32_def dest!: continue_Partial split: if_splits)
  next
    case False
    then show ?thesis using assms continue_Partial [of xs 0 "bytesleft ps" "partial_char ps" "lowerbound ps" ps q]
      mbtoc32_continues [of ps xs] mbtoc32_continues [of ps "xs @ _"] by simp
  qed
qed (use assms in simp)

text \<open>
  C38: the UTF-8 decoder is restartable: when the bytes \<open>xs\<close> end within a character, decoding the
  bytes \<open>ys\<close> that follow from the state it left gives a character exactly when decoding \<open>xs @ ys\<close>
  at once gives it, and the two count the same bytes.
\<close>

theorem utf_8_restart:
  assumes "utf_8_mbtoc32 xs ps = Partial q" "xs \<noteq> []" "ys \<noteq> []"
  shows "utf_8_mbtoc32 ys q = Char n c r \<longleftrightarrow> utf_8_mbtoc32 (xs @ ys) ps = Char (length xs + n) c r"
proof -
  note p = mbtoc32_Partial_cont [OF assms(1,2)]
  have "utf_8_mbtoc32 (xs @ ys) ps = Char (length xs + n) c r \<longleftrightarrow>
      utf_8_continue ys 0 (bytesleft q) (partial_char q) (lowerbound q) ps = Char n c r"
    using p continue_used [of ys "length xs" 0] by auto
  also have "\<dots> \<longleftrightarrow> utf_8_mbtoc32 ys q = Char n c r"
    unfolding mbtoc32_continues [OF conjunct1 [OF p] assms(3)] by (blast intro: continue_state)
  finally show ?thesis by blast
qed

theorem utf_8_restart_witness:
  "utf_8_mbtoc32 [0xac] \<lparr>surrogate = 0, bytesleft = 1, partial_char = 0x82, lowerbound = 0x800\<rparr> = Char 1 0x20ac mbstate_init
   \<longleftrightarrow> utf_8_mbtoc32 ([0xe2, 0x82] @ [0xac]) mbstate_init = Char (length [0xe2, 0x82 :: u8] + 1) 0x20ac mbstate_init"
  by (rule utf_8_restart) (simp_all add: utf_8_mbtoc32_def mbstate_init_def mbstate_set_multibyte_def)

end
