(* ===== verification/Codec.thy ===== *)
theory Codec
  imports Utf8
begin

text \<open>
  The single-byte codecs of \<^verbatim>\<open>libc/locale/ctype\<close>, the string conversions that the macros
  \<open>GENERATE_MBSTOC32S\<close> and \<open>GENERATE_C32STOMBS\<close> of \<^verbatim>\<open>common/locale.h\<close> generate from a codec, and
  the functions of \<^verbatim>\<open>libc/uchar\<close> and \<^verbatim>\<open>libc/wchar\<close> that call a codec through \<open>struct lc_ctype\<close>.
  The locale \<open>codec\<close> is the contract of a codec. The buffers of the C functions are lists: \<open>nmc\<close>
  bytes at \<open>*src\<close>, and the list of what is stored from \<open>dst\<close> on; a \<open>NULL\<close> destination is \<open>None\<close>,
  as is \<open>*src\<close> after the terminating null has been converted.
\<close>

section \<open>Single-byte codecs\<close>

definition iso_8859_1_mbtoc32 :: "u8 list \<Rightarrow> mbstate_t \<Rightarrow> decoded" where
  "iso_8859_1_mbtoc32 s ps =
     (case s of [] \<Rightarrow> Partial ps | b # bs \<Rightarrow> Char 1 (ucast b) mbstate_init)"

definition iso_8859_1_c32tomb :: "u32 \<Rightarrow> errno + u8 list" where
  "iso_8859_1_c32tomb c32 = (if c32 > 255 then Inl EILSEQ else Inr [ucast c32])"

text \<open>IBM037, a permutation of ISO-8859-1 given by the table \<open>map\<close> of each direction.\<close>

definition ibm037_mbtoc32_map :: "u8 list" where
  "ibm037_mbtoc32_map =
     [0, 1, 0x02, 0x03, 0x9c, 0x09, 0x86, 0x7f, 0x97, 0x8d, 0x8e, 0x0b, 0x0c, 0x0d, 0x0e, 0x0f,
      0x10, 0x11, 0x12, 0x13, 0x9d, 0x85, 0x08, 0x87, 0x18, 0x19, 0x92, 0x8f, 0x1c, 0x1d, 0x1e,
      0x1f, 0x80, 0x81, 0x82, 0x83, 0x84, 0x0a, 0x17, 0x1b, 0x88, 0x89, 0x8a, 0x8b, 0x8c, 0x05,
      0x06, 0x07, 0x90, 0x91, 0x16, 0x93, 0x94, 0x95, 0x96, 0x04, 0x98, 0x99, 0x9a, 0x9b, 0x14,
      0x15, 0x9e, 0x1a, 0x20, 0xa0, 0xe2, 0xe4, 0xe0, 0xe1, 0xe3, 0xe5, 0xe7, 0xf1, 0xa2, 0x2e,
      0x3c, 0x28, 0x2b, 0x7c, 0x26, 0xe9, 0xea, 0xeb, 0xe8, 0xed, 0xee, 0xef, 0xec, 0xdf, 0x21,
      0x24, 0x2a, 0x29, 0x3b, 0xac, 0x2d, 0x2f, 0xc2, 0xc4, 0xc0, 0xc1, 0xc3, 0xc5, 0xc7, 0xd1,
      0xa6, 0x2c, 0x25, 0x5f, 0x3e, 0x3f, 0xf8, 0xc9, 0xca, 0xcb, 0xc8, 0xcd, 0xce, 0xcf, 0xcc,
      0x60, 0x3a, 0x23, 0x40, 0x27, 0x3d, 0x22, 0xd8, 0x61, 0x62, 0x63, 0x64, 0x65, 0x66, 0x67,
      0x68, 0x69, 0xab, 0xbb, 0xf0, 0xfd, 0xfe, 0xb1, 0xb0, 0x6a, 0x6b, 0x6c, 0x6d, 0x6e, 0x6f,
      0x70, 0x71, 0x72, 0xaa, 0xba, 0xe6, 0xb8, 0xc6, 0xa4, 0xb5, 0x7e, 0x73, 0x74, 0x75, 0x76,
      0x77, 0x78, 0x79, 0x7a, 0xa1, 0xbf, 0xd0, 0xdd, 0xde, 0xae, 0x5e, 0xa3, 0xa5, 0xb7, 0xa9,
      0xa7, 0xb6, 0xbc, 0xbd, 0xbe, 0x5b, 0x5d, 0xaf, 0xa8, 0xb4, 0xd7, 0x7b, 0x41, 0x42, 0x43,
      0x44, 0x45, 0x46, 0x47, 0x48, 0x49, 0xad, 0xf4, 0xf6, 0xf2, 0xf3, 0xf5, 0x7d, 0x4a, 0x4b,
      0x4c, 0x4d, 0x4e, 0x4f, 0x50, 0x51, 0x52, 0xb9, 0xfb, 0xfc, 0xf9, 0xfa, 0xff, 0x5c, 0xf7,
      0x53, 0x54, 0x55, 0x56, 0x57, 0x58, 0x59, 0x5a, 0xb2, 0xd4, 0xd6, 0xd2, 0xd3, 0xd5, 0x30,
      0x31, 0x32, 0x33, 0x34, 0x35, 0x36, 0x37, 0x38, 0x39, 0xb3, 0xdb, 0xdc, 0xd9, 0xda, 0x9f]"

definition ibm037_mbtoc32 :: "u8 list \<Rightarrow> mbstate_t \<Rightarrow> decoded" where
  "ibm037_mbtoc32 s ps =
     (case s of
        [] \<Rightarrow> Partial ps
      | b # bs \<Rightarrow> Char 1 (ucast (ibm037_mbtoc32_map ! unat b)) mbstate_init)"

definition ibm037_c32tomb_map :: "u8 list" where
  "ibm037_c32tomb_map =
     [0, 1, 0x02, 0x03, 0x37, 0x2d, 0x2e, 0x2f, 0x16, 0x05, 0x25, 0x0b, 0x0c, 0x0d, 0x0e, 0x0f,
      0x10, 0x11, 0x12, 0x13, 0x3c, 0x3d, 0x32, 0x26, 0x18, 0x19, 0x3f, 0x27, 0x1c, 0x1d, 0x1e,
      0x1f, 0x40, 0x5a, 0x7f, 0x7b, 0x5b, 0x6c, 0x50, 0x7d, 0x4d, 0x5d, 0x5c, 0x4e, 0x6b, 0x60,
      0x4b, 0x61, 0xf0, 0xf1, 0xf2, 0xf3, 0xf4, 0xf5, 0xf6, 0xf7, 0xf8, 0xf9, 0x7a, 0x5e, 0x4c,
      0x7e, 0x6e, 0x6f, 0x7c, 0xc1, 0xc2, 0xc3, 0xc4, 0xc5, 0xc6, 0xc7, 0xc8, 0xc9, 0xd1, 0xd2,
      0xd3, 0xd4, 0xd5, 0xd6, 0xd7, 0xd8, 0xd9, 0xe2, 0xe3, 0xe4, 0xe5, 0xe6, 0xe7, 0xe8, 0xe9,
      0xba, 0xe0, 0xbb, 0xb0, 0x6d, 0x79, 0x81, 0x82, 0x83, 0x84, 0x85, 0x86, 0x87, 0x88, 0x89,
      0x91, 0x92, 0x93, 0x94, 0x95, 0x96, 0x97, 0x98, 0x99, 0xa2, 0xa3, 0xa4, 0xa5, 0xa6, 0xa7,
      0xa8, 0xa9, 0xc0, 0x4f, 0xd0, 0xa1, 0x07, 0x20, 0x21, 0x22, 0x23, 0x24, 0x15, 0x06, 0x17,
      0x28, 0x29, 0x2a, 0x2b, 0x2c, 0x09, 0x0a, 0x1b, 0x30, 0x31, 0x1a, 0x33, 0x34, 0x35, 0x36,
      0x08, 0x38, 0x39, 0x3a, 0x3b, 0x04, 0x14, 0x3e, 0xff, 0x41, 0xaa, 0x4a, 0xb1, 0x9f, 0xb2,
      0x6a, 0xb5, 0xbd, 0xb4, 0x9a, 0x8a, 0x5f, 0xca, 0xaf, 0xbc, 0x90, 0x8f, 0xea, 0xfa, 0xbe,
      0xa0, 0xb6, 0xb3, 0x9d, 0xda, 0x9b, 0x8b, 0xb7, 0xb8, 0xb9, 0xab, 0x64, 0x65, 0x62, 0x66,
      0x63, 0x67, 0x9e, 0x68, 0x74, 0x71, 0x72, 0x73, 0x78, 0x75, 0x76, 0x77, 0xac, 0x69, 0xed,
      0xee, 0xeb, 0xef, 0xec, 0xbf, 0x80, 0xfd, 0xfe, 0xfb, 0xfc, 0xad, 0xae, 0x59, 0x44, 0x45,
      0x42, 0x46, 0x43, 0x47, 0x9c, 0x48, 0x54, 0x51, 0x52, 0x53, 0x58, 0x55, 0x56, 0x57, 0x8c,
      0x49, 0xcd, 0xce, 0xcb, 0xcf, 0xcc, 0xe1, 0x70, 0xdd, 0xde, 0xdb, 0xdc, 0x8d, 0x8e, 0xdf]"

definition ibm037_c32tomb :: "u32 \<Rightarrow> errno + u8 list" where
  "ibm037_c32tomb c32 =
     (if c32 > 255 then Inl EILSEQ else Inr [ibm037_c32tomb_map ! unat c32])"

text \<open>ISO-8859-15: the table that replaces the code points from \<open>0xa4\<close> on. A read outside of the
  table, which is undefined behaviour in C, is \<open>None\<close>.\<close>

definition iso_8859_15_replacements :: "u16 list" where
  "iso_8859_15_replacements =
     [0x20ac, 0xa5, 0x160, 0xa7, 0x161, 0xa9, 0xaa, 0xab, 0xac,
      0xad, 0xae, 0xaf, 0xb0, 0xb1, 0xb2, 0xb3, 0x17d, 0xb5,
      0xb6, 0xb7, 0x17e, 0xb9, 0xba, 0xbb, 0x152, 0x153, 0x178]"

definition ISO_8859_15_REPLACEMENTS_BASE :: int where
  "ISO_8859_15_REPLACEMENTS_BASE = 0xa4"

definition iso_8859_15_replacement :: "int \<Rightarrow> u16 option" where
  "iso_8859_15_replacement i =
     (if 0 \<le> i \<and> i < int (length iso_8859_15_replacements)
      then Some (iso_8859_15_replacements ! nat i) else None)"

definition iso_8859_15_mbtoc32 :: "u8 list \<Rightarrow> mbstate_t \<Rightarrow> decoded option" where
  "iso_8859_15_mbtoc32 s ps =
     (case s of
        [] \<Rightarrow> Some (Partial ps)
      | b # bs \<Rightarrow>
          (let ch = uint b in
           if ch \<ge> ISO_8859_15_REPLACEMENTS_BASE
              \<or> ch < ISO_8859_15_REPLACEMENTS_BASE + int (length iso_8859_15_replacements)
           then map_option (\<lambda>c16. Char 1 (ucast c16) mbstate_init)
                  (iso_8859_15_replacement (ch - ISO_8859_15_REPLACEMENTS_BASE))
           else Some (Char 1 (of_int ch) mbstate_init)))"

definition iso_8859_15_c32tomb :: "u32 \<Rightarrow> errno + u8 list" where
  "iso_8859_15_c32tomb c32 =
     (let c = uint c32; base = ISO_8859_15_REPLACEMENTS_BASE; n = length iso_8859_15_replacements in
      if c < base
         \<or> (c \<le> 255
            \<and> (c \<ge> base + int n
               \<or> map_option ucast (iso_8859_15_replacement (c - base)) = Some c32))
      then Inr [ucast c32]
      else (case find (\<lambda>i. ucast (iso_8859_15_replacements ! i) = c32) [0..<n] of
              Some i \<Rightarrow> Inr [of_nat i + of_int base]
            | None \<Rightarrow> Inl EILSEQ))"

text \<open>Code pages that extend ASCII, by tables of 128 entries, so that the first test of the
  \<open>do\<close> loop of the binary search always holds.\<close>

record asciiplus =
  mbtoc16 :: "u16 list"
  c16tomb_c16 :: "u16 list"
  c16tomb_b :: "u8 list"

definition asciiplus_mbtoc32 :: "asciiplus \<Rightarrow> u8 list \<Rightarrow> mbstate_t \<Rightarrow> decoded" where
  "asciiplus_mbtoc32 ap s ps =
     (case s of
        [] \<Rightarrow> Partial ps
      | ch # bs \<Rightarrow>
          if ch < 128 then Char 1 (ucast ch) mbstate_init
          else
            (let c16 = mbtoc16 ap ! (unat ch - 128) in
             if c16 = 0 then Illegal ps else Char 1 (ucast c16) mbstate_init))"

function asciiplus_search :: "u16 list \<Rightarrow> u32 \<Rightarrow> nat \<Rightarrow> nat \<Rightarrow> nat" where
  "asciiplus_search t c32 lo hi =
     (if lo < hi then
        (let mid = (lo + hi + 1) div 2 in
         if c32 < ucast (t ! mid) then asciiplus_search t c32 lo (mid - 1)
         else asciiplus_search t c32 mid hi)
      else lo)"
  by auto
termination by (relation "measure (\<lambda>(t, c32, lo, hi). hi - lo)") auto

declare asciiplus_search.simps [simp del]

definition asciiplus_c32tomb :: "asciiplus \<Rightarrow> u32 \<Rightarrow> errno + u8 list" where
  "asciiplus_c32tomb ap c32 =
     (if c32 < 128 then Inr [ucast c32]
      else
        (let i = asciiplus_search (c16tomb_c16 ap) c32 0 (length (c16tomb_c16 ap) - 1) in
         if c32 \<noteq> ucast (c16tomb_c16 ap ! i) then Inl EILSEQ else Inr [c16tomb_b ap ! i]))"

section \<open>String conversions\<close>

text \<open>\<open>GENERATE_MBSTOC32S\<close>, without and with a destination.\<close>

partial_function (option) mbstoc32s_count ::
    "(u8 list \<Rightarrow> mbstate_t \<Rightarrow> decoded) \<Rightarrow> u8 list \<Rightarrow> mbstate_t \<Rightarrow> bool \<Rightarrow> nat
     \<Rightarrow> ((errno + nat) \<times> mbstate_t) option" where
  "mbstoc32s_count mbtoc32 sb ps allow_null ret =
     (case mbtoc32 sb ps of
        Illegal p \<Rightarrow> Some (Inl EILSEQ, p)
      | Partial p \<Rightarrow> Some (Inr ret, p)
      | Char l c32 p \<Rightarrow>
          if c32 = 0 \<and> \<not> allow_null then Some (Inr ret, p)
          else mbstoc32s_count mbtoc32 (drop l sb) p allow_null (ret + 1))"

fun mbstoc32s_store ::
    "(u8 list \<Rightarrow> mbstate_t \<Rightarrow> decoded) \<Rightarrow> nat \<Rightarrow> u8 list \<Rightarrow> mbstate_t \<Rightarrow> bool \<Rightarrow> u32 list
     \<Rightarrow> (errno + nat) \<times> u32 list \<times> u8 list option \<times> mbstate_t" where
  "mbstoc32s_store mbtoc32 0 sb ps allow_null db = (Inr (length db), db, Some sb, ps)"
| "mbstoc32s_store mbtoc32 (Suc len) sb ps allow_null db =
     (case mbtoc32 sb ps of
        Illegal p \<Rightarrow> (Inl EILSEQ, db, Some sb, p)
      | Partial p \<Rightarrow> (Inr (length db), db, Some [], p)
      | Char l c32 p \<Rightarrow>
          if c32 = 0 \<and> \<not> allow_null then (Inr (length db), db @ [c32], None, p)
          else mbstoc32s_store mbtoc32 len (drop l sb) p allow_null (db @ [c32]))"

definition mbstoc32s ::
    "(u8 list \<Rightarrow> mbstate_t \<Rightarrow> decoded) \<Rightarrow> nat option \<Rightarrow> u8 list \<Rightarrow> mbstate_t \<Rightarrow> bool
     \<Rightarrow> ((errno + nat) \<times> u32 list \<times> u8 list option \<times> mbstate_t) option" where
  "mbstoc32s mbtoc32 dst src ps allow_null =
     (case dst of
        None \<Rightarrow> map_option (\<lambda>(r, p). (r, [], Some src, p)) (mbstoc32s_count mbtoc32 src ps allow_null 0)
      | Some len \<Rightarrow> Some (mbstoc32s_store mbtoc32 len src ps allow_null []))"

text \<open>\<open>GENERATE_C32STOMBS\<close>, without and with a destination.\<close>

fun c32stombs_count :: "(u32 \<Rightarrow> errno + u8 list) \<Rightarrow> u32 list \<Rightarrow> nat \<Rightarrow> errno + nat" where
  "c32stombs_count c32tomb [] ret = Inr ret"
| "c32stombs_count c32tomb (c # sb) ret =
     (case c32tomb c of
        Inl e \<Rightarrow> Inl e
      | Inr buf \<Rightarrow>
          if c = 0 then Inr (ret + length buf - 1)
          else c32stombs_count c32tomb sb (ret + length buf))"

fun c32stombs_store ::
    "(u32 \<Rightarrow> errno + u8 list) \<Rightarrow> u32 list \<Rightarrow> nat \<Rightarrow> u8 list
     \<Rightarrow> (errno + nat) \<times> u8 list \<times> u32 list option" where
  "c32stombs_store c32tomb [] len db = (Inr (length db), db, Some [])"
| "c32stombs_store c32tomb (c # src) len db =
     (if len = 0 then (Inr (length db), db, Some (c # src))
      else
        (case c32tomb c of
           Inl e \<Rightarrow> (Inl e, db, Some (c # src))
         | Inr buf \<Rightarrow>
             if length buf > len then (Inr (length db), db, Some (c # src))
             else if c = 0 then (Inr (length db), db @ buf, None)
             else c32stombs_store c32tomb src (len - length buf) (db @ buf)))"

definition c32stombs ::
    "(u32 \<Rightarrow> errno + u8 list) \<Rightarrow> nat option \<Rightarrow> u32 list
     \<Rightarrow> (errno + nat) \<times> u8 list \<times> u32 list option" where
  "c32stombs c32tomb dst src =
     (case dst of
        None \<Rightarrow> (c32stombs_count c32tomb src 0, [], Some src)
      | Some len \<Rightarrow> c32stombs_store c32tomb src len [])"

section \<open>Conversions by locale\<close>

record lc_ctype =
  mbtoc32 :: "u8 list \<Rightarrow> mbstate_t \<Rightarrow> decoded"
  c32tomb :: "u32 \<Rightarrow> errno + u8 list"

definition ctype_us_ascii :: lc_ctype where
  "ctype_us_ascii = \<lparr>mbtoc32 = us_ascii_mbtoc32, c32tomb = us_ascii_c32tomb\<rparr>"

definition ctype_utf_8 :: lc_ctype where
  "ctype_utf_8 = \<lparr>mbtoc32 = utf_8_mbtoc32, c32tomb = utf_8_c32tomb\<rparr>"

definition ctype_iso_8859_1 :: lc_ctype where
  "ctype_iso_8859_1 = \<lparr>mbtoc32 = iso_8859_1_mbtoc32, c32tomb = iso_8859_1_c32tomb\<rparr>"

definition ctype_ibm037 :: lc_ctype where
  "ctype_ibm037 = \<lparr>mbtoc32 = ibm037_mbtoc32, c32tomb = ibm037_c32tomb\<rparr>"

definition ctype_asciiplus :: "asciiplus \<Rightarrow> lc_ctype" where
  "ctype_asciiplus data = \<lparr>mbtoc32 = asciiplus_mbtoc32 data, c32tomb = asciiplus_c32tomb data\<rparr>"

text \<open>The results \<open>(size_t)-1\<close>, \<open>(size_t)-2\<close> and \<open>(size_t)-3\<close> are \<open>Invalid\<close>, \<open>Incomplete\<close> and
  \<open>Pending\<close>.\<close>

datatype 'c mbresult =
  Converted nat 'c mbstate_t
| Incomplete mbstate_t
| Pending 'c mbstate_t
| Invalid mbstate_t

definition mbrtoc32_l :: "u8 list option \<Rightarrow> mbstate_t \<Rightarrow> lc_ctype \<Rightarrow> u32 mbresult" where
  "mbrtoc32_l s ps ctype =
     (case mbtoc32 ctype (case s of None \<Rightarrow> [0] | Some bs \<Rightarrow> bs) ps of
        Char l c32 p \<Rightarrow> Converted (if c32 = 0 then 0 else l) c32 p
      | Partial p \<Rightarrow> Incomplete p
      | Illegal p \<Rightarrow> Invalid p)"

definition mbrlen_l :: "u8 list \<Rightarrow> mbstate_t \<Rightarrow> lc_ctype \<Rightarrow> unit mbresult" where
  "mbrlen_l s ps ctype =
     (case mbtoc32 ctype s ps of
        Char l c32 p \<Rightarrow> Converted (if c32 = 0 then 0 else l) () p
      | Partial p \<Rightarrow> Incomplete p
      | Illegal p \<Rightarrow> Invalid p)"

definition mbrtoc16_l :: "u8 list option \<Rightarrow> mbstate_t \<Rightarrow> lc_ctype \<Rightarrow> u16 mbresult" where
  "mbrtoc16_l s ps ctype =
     (case mbstate_get_surrogate ps of
        Some trail \<Rightarrow> Pending trail mbstate_init
      | None \<Rightarrow>
          (case mbtoc32 ctype (case s of None \<Rightarrow> [0] | Some bs \<Rightarrow> bs) ps of
             Char l c32 p \<Rightarrow>
               if c32 < 0x10000 then
                 (let c16 = ucast c32 in Converted (if c16 = 0 then 0 else l) c16 p)
               else
                 (let c = c32 - 0x10000; c16 = ucast (0xd800 OR drop_bit 10 c) in
                  Converted (if c16 = 0 then 0 else l) c16
                    (mbstate_set_surrogate (ucast (0xdc00 OR (c AND 0x3ff)))))
           | Partial p \<Rightarrow> Incomplete p
           | Illegal p \<Rightarrow> Invalid p))"

definition c32rtomb_l :: "bool \<Rightarrow> u32 \<Rightarrow> mbstate_t \<Rightarrow> lc_ctype \<Rightarrow> (errno + u8 list) \<times> mbstate_t" where
  "c32rtomb_l has_buf c32 ps ctype =
     (case c32tomb ctype (if has_buf then c32 else 0) of
        Inl e \<Rightarrow> (Inl e, ps)
      | Inr bs \<Rightarrow> (Inr bs, mbstate_init))"

definition c16rtomb_l :: "bool \<Rightarrow> u16 \<Rightarrow> mbstate_t \<Rightarrow> lc_ctype \<Rightarrow> (errno + u8 list) \<times> mbstate_t" where
  "c16rtomb_l has_buf c ps ctype =
     (let c16 = if has_buf then c else 0;
          convert = (\<lambda>c32. case c32tomb ctype c32 of
                             Inl e \<Rightarrow> (Inl e, ps) | Inr bs \<Rightarrow> (Inr bs, mbstate_init))
      in case mbstate_get_surrogate ps of
           Some lead \<Rightarrow>
             if c16 < 0xdc00 \<or> c16 > 0xdfff then (Inl EILSEQ, ps)
             else convert (0x10000 + (push_bit 10 (ucast (lead AND 0x3ff)) OR ucast (c16 AND 0x3ff)))
         | None \<Rightarrow>
             if c16 \<ge> 0xd800 \<and> c16 \<le> 0xdbff then (Inr [], mbstate_set_surrogate c16)
             else convert (ucast c16))"

definition mbsinit :: "mbstate_t option \<Rightarrow> bool" where
  "mbsinit ps = mbstate_get_init ps"

definition mbsnrtowcs_l ::
    "nat option \<Rightarrow> u8 list \<Rightarrow> mbstate_t \<Rightarrow> lc_ctype
     \<Rightarrow> ((errno + nat) \<times> u32 list \<times> u8 list option \<times> mbstate_t) option" where
  "mbsnrtowcs_l dst src ps ctype = mbstoc32s (mbtoc32 ctype) dst src ps False"

definition wcsnrtombs_l ::
    "nat option \<Rightarrow> u32 list \<Rightarrow> mbstate_t \<Rightarrow> lc_ctype
     \<Rightarrow> ((errno + nat) \<times> u8 list \<times> u32 list option) \<times> mbstate_t" where
  "wcsnrtombs_l dst src ps ctype =
     (let r = c32stombs (c32tomb ctype) dst src
      in (r, case fst r of Inr _ \<Rightarrow> mbstate_init | Inl _ \<Rightarrow> ps))"

end
