(* ===== verification/CodecCorrect.thy ===== *)
theory CodecCorrect
  imports Codec
begin

text \<open>
  The contract of a codec, as the locale \<open>ctype_codec\<close>: decoding inverts encoding. The string
  conversions that are generated from a codec are shown to invert each other from that contract
  alone, and the contract is discharged for the codecs of the library.
\<close>

section \<open>The contract of a codec\<close>

primrec encode_all :: "(u32 \<Rightarrow> errno + u8 list) \<Rightarrow> u32 list \<Rightarrow> errno + u8 list" where
  "encode_all enc [] = Inr []"
| "encode_all enc (c # cs) =
     (case enc c of Inl e \<Rightarrow> Inl e | Inr bs \<Rightarrow> map_sum id (\<lambda>r. bs @ r) (encode_all enc cs))"

lemma encode_all_Cons:
  "encode_all enc (c # cs) = Inr bs \<longleftrightarrow> (\<exists>b r. enc c = Inr b \<and> encode_all enc cs = Inr r \<and> bs = b @ r)"
  by (cases "enc c"; cases "encode_all enc cs") auto

locale ctype_codec =
  fixes dec :: "u8 list \<Rightarrow> mbstate_t \<Rightarrow> decoded"
    and enc :: "u32 \<Rightarrow> errno + u8 list"
  assumes dec_enc: "enc c = Inr bs \<Longrightarrow> dec (bs @ rest) mbstate_init = Char (length bs) c mbstate_init"
    and enc_null: "enc 0 = Inr [0]"
    and enc_error: "enc c = Inl e \<Longrightarrow> e = EILSEQ"
begin

lemma dec_null: "dec (0 # rest) mbstate_init = Char 1 0 mbstate_init"
  using dec_enc [OF enc_null] by simp

lemma c32stombs_count_eq:
  "0 \<notin> set cs \<Longrightarrow> c32stombs_count enc (cs @ [0]) k = Inr n \<longleftrightarrow>
     (\<exists>bs. encode_all enc cs = Inr bs \<and> n = k + length bs)"
proof (induction cs arbitrary: k)
  case (Cons c cs)
  then show ?case by (cases "enc c"; cases "encode_all enc cs") (auto simp: add.assoc)
qed (auto simp: enc_null)

lemma c32stombs_store_eq:
  "0 \<notin> set cs \<Longrightarrow> encode_all enc cs = Inr bs \<Longrightarrow> length bs < len \<Longrightarrow>
     c32stombs_store enc (cs @ [0]) len db = (Inr (length db + length bs), db @ bs @ [0], None)"
proof (induction cs arbitrary: bs len db)
  case (Cons c cs)
  from Cons.prems(2) obtain b r where b: "enc c = Inr b" "encode_all enc cs = Inr r" "bs = b @ r"
    unfolding encode_all_Cons by blast
  then show ?case using Cons.prems Cons.IH [of r "len - length b" "db @ b"] by auto
qed (auto simp: enc_null)

lemma mbstoc32s_store_eq:
  "0 \<notin> set cs \<Longrightarrow> encode_all enc cs = Inr bs \<Longrightarrow> length cs < len \<Longrightarrow>
     mbstoc32s_store dec len (bs @ 0 # rest) mbstate_init False db
       = (Inr (length db + length cs), db @ cs @ [0], None, mbstate_init)"
proof (induction cs arbitrary: bs len db)
  case (Cons c cs)
  from Cons.prems(2) obtain b r where b: "enc c = Inr b" "encode_all enc cs = Inr r" "bs = b @ r"
    unfolding encode_all_Cons by blast
  obtain len' where len: "len = Suc len'" using Cons.prems(3) by (cases len) auto
  show ?case
    using Cons.prems Cons.IH [of r len' "db @ [c]"] b dec_enc [OF b(1), of "r @ 0 # rest"]
    by (auto simp: len)
next
  case Nil
  then show ?case by (cases len) (auto simp: dec_null)
qed

lemma mbstoc32s_count_eq:
  "0 \<notin> set cs \<Longrightarrow> encode_all enc cs = Inr bs \<Longrightarrow>
     mbstoc32s_count dec (bs @ 0 # rest) mbstate_init False k = Some (Inr (k + length cs), mbstate_init)"
proof (induction cs arbitrary: bs k)
  case (Cons c cs)
  from Cons.prems(2) obtain b r where b: "enc c = Inr b" "encode_all enc cs = Inr r" "bs = b @ r"
    unfolding encode_all_Cons by blast
  show ?case
    using Cons.prems Cons.IH [of r "k + 1"] b dec_enc [OF b(1), of "r @ 0 # rest"]
    by (subst mbstoc32s_count.simps) auto
next
  case Nil
  then show ?case by (subst mbstoc32s_count.simps) (auto simp: dec_null)
qed

lemma string_roundtrip:
  assumes "0 \<notin> set cs" "c32stombs enc None (cs @ [0]) = (Inr n, [], Some (cs @ [0]))"
  shows "\<exists>bs. c32stombs enc (Some (Suc n)) (cs @ [0]) = (Inr n, bs @ [0], None)
      \<and> mbstoc32s dec None (bs @ [0]) mbstate_init False
          = Some (Inr (length cs), [], Some (bs @ [0]), mbstate_init)
      \<and> mbstoc32s dec (Some (Suc (length cs))) (bs @ [0]) mbstate_init False
          = Some (Inr (length cs), cs @ [0], None, mbstate_init)"
proof -
  from assms obtain bs where bs: "encode_all enc cs = Inr bs" "n = length bs"
    by (auto simp: c32stombs_def c32stombs_count_eq)
  then show ?thesis
    using assms(1) c32stombs_store_eq [OF assms(1) bs(1), of "Suc n" "[]"]
      mbstoc32s_store_eq [OF assms(1) bs(1), of "Suc (length cs)" "[]" "[]"]
      mbstoc32s_count_eq [OF assms(1) bs(1), of "[]" 0]
    by (auto simp: c32stombs_def mbstoc32s_def)
qed

end

section \<open>The codecs meet the contract\<close>

lemma ucast_small:
  "uint (c :: u32) < 256 \<Longrightarrow> ucast (ucast c :: u8) = c"
  using lead_byte(2) [OF small_bits, of c 8] by simp

lemma utf_8_codec: "ctype_codec utf_8_mbtoc32 utf_8_c32tomb"
proof
  show "utf_8_mbtoc32 (bs @ rest) mbstate_init = Char (length bs) c mbstate_init"
    if "utf_8_c32tomb c = Inr bs" for c bs rest
    using that by (rule utf_8_decode_encode)
qed (auto simp: utf_8_c32tomb_def split: if_splits)

interpretation utf_8: ctype_codec utf_8_mbtoc32 utf_8_c32tomb
  by (rule utf_8_codec)

lemma us_ascii_codec: "ctype_codec us_ascii_mbtoc32 us_ascii_c32tomb"
proof
  show "us_ascii_mbtoc32 (bs @ rest) mbstate_init = Char (length bs) c mbstate_init"
    if "us_ascii_c32tomb c = Inr bs" for c bs rest
  proof -
    have c: "uint c \<le> 127" and bs: "bs = [ucast c]"
      using that by (auto simp: us_ascii_c32tomb_def word_less_def split: if_splits)
    have "(ucast (ucast c :: u8) :: u32) = c" using c by (simp add: ucast_small)
    moreover have "\<not> (ucast c :: u8) > 127"
      using c by (simp add: word_less_def unsigned_ucast_eq take_bit_int_eq_self)
    ultimately show ?thesis by (simp add: bs us_ascii_mbtoc32_def)
  qed
qed (auto simp: us_ascii_c32tomb_def split: if_splits)

interpretation us_ascii: ctype_codec us_ascii_mbtoc32 us_ascii_c32tomb
  by (rule us_ascii_codec)

lemma iso_8859_1_codec: "ctype_codec iso_8859_1_mbtoc32 iso_8859_1_c32tomb"
  by unfold_locales
    (auto simp: iso_8859_1_c32tomb_def iso_8859_1_mbtoc32_def ucast_small word_less_def split: if_splits)

interpretation iso_8859_1: ctype_codec iso_8859_1_mbtoc32 iso_8859_1_c32tomb
  by (rule iso_8859_1_codec)

section \<open>Code pages\<close>

definition asciiplus_ok :: "asciiplus \<Rightarrow> bool" where
  "asciiplus_ok ap \<longleftrightarrow>
     length (mbtoc16 ap) = 128 \<and> length (c16tomb_c16 ap) = 128 \<and> length (c16tomb_b ap) = 128
     \<and> successively (\<le>) (c16tomb_c16 ap)
     \<and> successively (<) (filter (\<lambda>c. 128 \<le> c) (c16tomb_c16 ap))
     \<and> list_all (\<lambda>c. c = 0 \<or> 128 \<le> c) (mbtoc16 ap)
     \<and> list_all2 (\<lambda>c b. c < 128 \<or> 128 \<le> b \<and> mbtoc16 ap ! (unat b - 128) = c) (c16tomb_c16 ap) (c16tomb_b ap)
     \<and> length (filter (\<lambda>c. 128 \<le> c) (c16tomb_c16 ap)) = length (filter (\<lambda>c. c \<noteq> 0) (mbtoc16 ap))"


lemma successively_sorted: "successively (\<le>) (t :: u16 list) \<longleftrightarrow> sorted t"
  by (simp add: successively_conv_sorted_wrt transp_on_le)

lemma successively_distinct: "successively (<) (t :: u16 list) \<Longrightarrow> distinct t"
  by (simp add: successively_conv_sorted_wrt transp_on_less strict_sorted_iff)

lemma distinct_filter_nth:
  "distinct (filter P t) \<Longrightarrow> i < length t \<Longrightarrow> j < length t \<Longrightarrow> P (t ! i) \<Longrightarrow> t ! i = t ! j \<Longrightarrow> i = j"
proof (induction t arbitrary: i j)
  case (Cons a t)
  then show ?case
    by (cases i; cases j) (auto split: if_splits dest: nth_mem)
qed simp

lemma uint_ucast_16: "uint (ucast (a :: u16) :: u32) = uint a"
  by (rule uint_up_ucast) (simp add: is_up)

lemma ucast_le_mono: "(ucast (a :: u16) :: u32) \<le> ucast b \<longleftrightarrow> a \<le> b"
  by (simp add: word_le_def uint_ucast_16)

lemma ucast_inj: "(ucast (a :: u16) :: u32) = ucast b \<longleftrightarrow> a = b"
  using ucast_le_mono [of a b] ucast_le_mono [of b a] by (auto intro: antisym)

lemma asciiplus_search_range:
  "lo \<le> hi \<Longrightarrow> lo \<le> asciiplus_search t c lo hi \<and> asciiplus_search t c lo hi \<le> hi"
proof (induction t c lo hi rule: asciiplus_search.induct)
  case (1 t c lo hi)
  show ?case
  proof (cases "lo < hi")
    case True
    let ?mid = "(lo + hi + 1) div 2"
    have mid: "lo \<le> ?mid - 1" "?mid - 1 \<le> hi" "lo \<le> ?mid" "?mid \<le> hi" using True by auto
    show ?thesis
    proof (cases "c < ucast (t ! ?mid)")
      case less: True
      then have "asciiplus_search t c lo hi = asciiplus_search t c lo (?mid - 1)"
        unfolding asciiplus_search.simps [of t c lo hi] using True by (simp add: Let_def)
      then show ?thesis using 1(1) [OF True refl less mid(1)] mid(2) by linarith
    next
      case ge: False
      then have "asciiplus_search t c lo hi = asciiplus_search t c ?mid hi"
        unfolding asciiplus_search.simps [of t c lo hi] using True by (simp add: Let_def)
      then show ?thesis using 1(2) [OF True refl ge mid(4)] mid(3) by linarith
    qed
  qed (use 1 in \<open>simp add: asciiplus_search.simps\<close>)
qed

lemma asciiplus_search_finds:
  "sorted t \<Longrightarrow> hi < length t \<Longrightarrow> lo \<le> j \<Longrightarrow> j \<le> hi \<Longrightarrow> c = ucast (t ! j) \<Longrightarrow>
     ucast (t ! asciiplus_search t c lo hi) = c"
proof (induction t c lo hi arbitrary: j rule: asciiplus_search.induct)
  case (1 t c lo hi)
  show ?case
  proof (cases "lo < hi")
    case True
    let ?mid = "(lo + hi + 1) div 2"
    have mid: "lo < ?mid" "?mid \<le> hi" using True by auto
    show ?thesis
    proof (cases "c < ucast (t ! ?mid)")
      case less: True
      then have "\<not> t ! ?mid \<le> t ! j" using 1(7) by (simp add: ucast_le_mono [symmetric])
      then have "j \<le> ?mid - 1" using sorted_nth_mono [OF 1(3), of ?mid j] 1(4,6) by (cases "?mid \<le> j") auto
      then show ?thesis using 1(1) [OF True refl less 1(3) _ 1(5) _ 1(7)] mid True less 1(4)
        by (auto simp: asciiplus_search.simps [of t c lo hi] Let_def)
    next
      case ge: False
      obtain j' where "?mid \<le> j'" "j' \<le> hi" "c = ucast (t ! j')"
      proof (cases "?mid \<le> j")
        case False
        then have "t ! j \<le> t ! ?mid" using sorted_nth_mono [OF 1(3), of j ?mid] mid 1(4) by auto
        then have "c = ucast (t ! ?mid)" using ge 1(7) by (simp add: ucast_le_mono not_less ucast_inj)
        then show ?thesis using that [of ?mid] mid by blast
      qed (use 1 that in blast)
      then have "ucast (t ! asciiplus_search t c ?mid hi) = c"
        using 1(2) [OF True refl ge 1(3,4)] by blast
      then show ?thesis unfolding asciiplus_search.simps [of t c lo hi] using True ge
        by (simp add: Let_def)
    qed
  next
    case False
    then have "j = lo" "hi = lo" using 1 by auto
    then show ?thesis using 1 by (simp add: asciiplus_search.simps)
  qed
qed

lemma unat_u8: "unat (b :: u8) < 256"
proof -
  have "(unsigned b :: nat) < 2 ^ LENGTH(8)" by (rule unsigned_less)
  then show ?thesis by simp
qed

lemma ucast_ucast_u8: "ucast (ucast (b :: u8) :: u32) = b"
  by (rule bit_word_eqI) (auto simp: bit_simps)

lemma asciiplus_search_127: "asciiplus_search t c 0 127 < 128"
  using asciiplus_search_range [of 0 127 t c] by linarith

lemma asciiplus_bytes:
  assumes ok: "asciiplus_ok ap" and j: "j < 128" "mbtoc16 ap ! j \<noteq> 0"
  shows "\<exists>i < 128. c16tomb_c16 ap ! i = mbtoc16 ap ! j \<and> unat (c16tomb_b ap ! i) = j + 128"
proof -
  let ?t = "c16tomb_c16 ap" and ?m = "mbtoc16 ap"
  define U where "U = {i. i < 128 \<and> 128 \<le> ?t ! i}"
  define V where "V = {j. j < 128 \<and> ?m ! j \<noteq> 0}"
  define f where "f i = unat (c16tomb_b ap ! i) - 128" for i
  note ok' = ok [unfolded asciiplus_ok_def]
  have d: "distinct (filter (\<lambda>c. 128 \<le> c) ?t)" using ok' successively_distinct by blast
  have len: "length ?t = 128" using ok' by simp
  have f: "?m ! f i = ?t ! i" "f i < 128" "unat (c16tomb_b ap ! i) = f i + 128" if i: "i \<in> U" for i
  proof -
    have "?t ! i < 128 \<or> 128 \<le> c16tomb_b ap ! i \<and> ?m ! (unat (c16tomb_b ap ! i) - 128) = ?t ! i"
      by (rule list_all2_nthD [where xs = ?t]) (use ok' i in \<open>simp_all add: U_def\<close>)
    moreover have "\<not> ?t ! i < 128" using i by (simp add: U_def not_less)
    ultimately have "128 \<le> c16tomb_b ap ! i" "?m ! f i = ?t ! i" by (simp_all add: f_def)
    then show "?m ! f i = ?t ! i" "f i < 128" "unat (c16tomb_b ap ! i) = f i + 128"
      using unat_u8 [of "c16tomb_b ap ! i"] by (auto simp: f_def word_le_nat_alt)
  qed
  have "inj_on f U"
  proof (rule inj_onI)
    show "i = i'" if u: "i \<in> U" "i' \<in> U" "f i = f i'" for i i'
    proof (rule distinct_filter_nth [OF d])
      show "?t ! i = ?t ! i'" using f(1) [OF u(1)] f(1) [OF u(2)] u(3) by metis
    qed (use u len in \<open>simp_all add: U_def\<close>)
  qed
  then have "card (f ` U) = card V"
    using ok' by (auto simp: card_image U_def V_def length_filter_conv_card)
  moreover have "f ` U \<subseteq> V"
  proof (rule image_subsetI)
    show "f i \<in> V" if i: "i \<in> U" for i
    proof -
      have "\<not> ?t ! i < 128" using i by (simp add: U_def not_less)
      then have "?t ! i \<noteq> 0" by auto
      then show ?thesis using f [OF i] by (simp add: V_def)
    qed
  qed
  ultimately have "f ` U = V"
    by (intro card_subset_eq) (simp_all add: V_def)
  moreover have "j \<in> V" using j by (simp add: V_def)
  ultimately obtain i where "i \<in> U" "f i = j" by blast
  then show ?thesis using f [of i] by (auto simp: U_def)
qed

lemma asciiplus_search_index:
  assumes ok: "asciiplus_ok ap" and i: "i < 128" "128 \<le> c16tomb_c16 ap ! i"
  shows "asciiplus_search (c16tomb_c16 ap) (ucast (c16tomb_c16 ap ! i)) 0 127 = i"
proof -
  let ?t = "c16tomb_c16 ap" let ?k = "asciiplus_search ?t (ucast (?t ! i)) 0 127"
  note ok' = ok [unfolded asciiplus_ok_def successively_sorted]
  have k: "?k < 128" by (rule asciiplus_search_127)
  have "(ucast (?t ! ?k) :: u32) = ucast (?t ! i)"
    by (rule asciiplus_search_finds [where j = i]) (use ok' i in auto)
  then have "?t ! ?k = ?t ! i" by (simp add: ucast_inj)
  moreover have "distinct (filter (\<lambda>c. 128 \<le> c) ?t)" using ok' successively_distinct by blast
  ultimately show ?thesis using distinct_filter_nth [of _ ?t i ?k] i ok' k by fastforce
qed

lemma ucast_8_128: "(ucast (b :: u8) :: u32) < 128 \<longleftrightarrow> b < 128"
  by (simp add: word_less_def uint_up_ucast is_up)

lemma ucast_16_128: "(ucast (b :: u16) :: u32) < 128 \<longleftrightarrow> b < 128"
  by (simp add: word_less_def uint_up_ucast is_up)

lemma asciiplus_codec_iff:
  assumes ok: "asciiplus_ok ap"
  shows "asciiplus_c32tomb ap c = Inr bs \<longleftrightarrow>
    (\<exists>b. bs = [b] \<and> asciiplus_mbtoc32 ap [b] ps = Char 1 c mbstate_init)"
proof (cases "c < 128")
  case True
  have small: "uint c < 128" using True by (simp add: word_less_def)
  then have c: "ucast (ucast c :: u8) = c" by (simp add: ucast_small)
  have "asciiplus_mbtoc32 ap [b] ps = Char 1 c mbstate_init \<longleftrightarrow> b = ucast c" for b
  proof
    assume d: "asciiplus_mbtoc32 ap [b] ps = Char 1 c mbstate_init"
    show "b = ucast c"
    proof (cases "b < 128")
      case True
      then have "c = ucast b" using d by (simp add: asciiplus_mbtoc32_def)
      then show ?thesis by (simp add: ucast_ucast_u8)
    next
      case False
      let ?w = "mbtoc16 ap ! (unat b - 128)"
      have "c = ucast ?w" "?w \<noteq> 0" using d False by (auto simp: asciiplus_mbtoc32_def Let_def split: if_splits)
      moreover have "unat b - 128 < 128" using unat_u8 [of b] by simp
      ultimately have "128 \<le> ?w" using ok by (auto simp: asciiplus_ok_def list_all_length)
      then have False using True \<open>c = ucast ?w\<close> by (simp add: ucast_16_128)
      then show ?thesis ..
    qed
  next
    assume b: "b = ucast c"
    have "b < 128" using True c b ucast_8_128 [of b] by simp
    then show "asciiplus_mbtoc32 ap [b] ps = Char 1 c mbstate_init" using b c by (simp add: asciiplus_mbtoc32_def)
  qed
  then show ?thesis using True by (auto simp: asciiplus_c32tomb_def)
next
  case False
  let ?t = "c16tomb_c16 ap" let ?k = "asciiplus_search ?t c 0 127"
  note ok' = ok [unfolded asciiplus_ok_def]
  have len: "length ?t = 128" using ok' by simp
  have k: "?k < 128" by (rule asciiplus_search_127)
  have "asciiplus_mbtoc32 ap [b] ps = Char 1 c mbstate_init \<longleftrightarrow> ucast (?t ! ?k) = c \<and> b = c16tomb_b ap ! ?k" for b
  proof
    assume d: "asciiplus_mbtoc32 ap [b] ps = Char 1 c mbstate_init"
    let ?w = "mbtoc16 ap ! (unat b - 128)"
    have b: "\<not> b < 128" using d False by (auto simp: asciiplus_mbtoc32_def ucast_8_128 split: if_splits)
    then have w: "c = ucast ?w" "?w \<noteq> 0" using d by (auto simp: asciiplus_mbtoc32_def Let_def split: if_splits)
    have "unat b - 128 < 128" using unat_u8 [of b] by simp
    from asciiplus_bytes [OF ok this w(2)] obtain i where
      i: "i < 128" "?t ! i = ?w" "unat (c16tomb_b ap ! i) = unat b - 128 + 128" by blast
    have "c16tomb_b ap ! i = b" using i(3) b by (simp add: word_less_nat_alt word_unat_eq_iff)
    moreover have "128 \<le> ?t ! i" using False w i ucast_16_128 [of ?w] by (simp add: not_less)
    then have "?k = i" using asciiplus_search_index [OF ok i(1)] w i by simp
    ultimately show "ucast (?t ! ?k) = c \<and> b = c16tomb_b ap ! ?k" using w i by simp
  next
    assume b: "ucast (?t ! ?k) = c \<and> b = c16tomb_b ap ! ?k"
    then have "\<not> ?t ! ?k < 128" using False ucast_16_128 by metis
    moreover have "?t ! ?k < 128 \<or> 128 \<le> b \<and> mbtoc16 ap ! (unat b - 128) = ?t ! ?k"
      unfolding conjunct2 [OF b] by (rule list_all2_nthD [where xs = ?t]) (use ok' k in simp_all)
    moreover have "?t ! ?k \<noteq> 0" using calculation(1) by auto
    ultimately have "128 \<le> b" "mbtoc16 ap ! (unat b - 128) = ?t ! ?k" "?t ! ?k \<noteq> 0" by simp_all
    then show "asciiplus_mbtoc32 ap [b] ps = Char 1 c mbstate_init"
      using b by (simp add: asciiplus_mbtoc32_def Let_def leD)
  qed
  then show ?thesis using False by (auto simp: asciiplus_c32tomb_def Let_def len)
qed

lemma asciiplus_rest: "asciiplus_mbtoc32 ap (b # rest) ps = asciiplus_mbtoc32 ap [b] ps"
  by (simp add: asciiplus_mbtoc32_def)

lemma asciiplus_codec:
  assumes ok: "asciiplus_ok ap"
  shows "ctype_codec (asciiplus_mbtoc32 ap) (asciiplus_c32tomb ap)"
proof
  show "asciiplus_mbtoc32 ap (bs @ rest) mbstate_init = Char (length bs) c mbstate_init"
    if "asciiplus_c32tomb ap c = Inr bs" for c bs rest
    using that unfolding asciiplus_codec_iff [OF ok, where ps = mbstate_init]
    by (auto simp: asciiplus_rest [of ap _ rest])
qed (auto simp: asciiplus_c32tomb_def Let_def split: if_splits)

section \<open>IBM037\<close>

lemma ibm037_length: "length ibm037_c32tomb_map = 256"
  by code_simp

lemma ibm037_inverse:
  "list_all (\<lambda>i. unat (ibm037_mbtoc32_map ! unat (ibm037_c32tomb_map ! i)) = i) [0..<256]"
  by code_simp

lemma ibm037_codec: "ctype_codec ibm037_mbtoc32 ibm037_c32tomb"
proof
  show "ibm037_mbtoc32 (bs @ rest) mbstate_init = Char (length bs) c mbstate_init"
    if "ibm037_c32tomb c = Inr bs" for c bs rest
  proof -
    have c: "unat c < 256" and bs: "bs = [ibm037_c32tomb_map ! unat c]"
      using that by (auto simp: ibm037_c32tomb_def word_less_nat_alt split: if_splits)
    let ?b = "ibm037_mbtoc32_map ! unat (ibm037_c32tomb_map ! unat c)"
    have "unat ?b = unat c"
      using ibm037_inverse c by (simp add: list_all_iff)
    then have "ucast ?b = c"
      using c by (simp add: word_unat_eq_iff unsigned_ucast_eq take_bit_nat_eq_self)
    then show ?thesis by (simp add: bs ibm037_mbtoc32_def)
  qed
qed (auto simp: ibm037_c32tomb_def ibm037_c32tomb_map_def split: if_splits)

interpretation ibm037: ctype_codec ibm037_mbtoc32 ibm037_c32tomb
  by (rule ibm037_codec)

end
