(* ===== verification/Surrogate.thy ===== *)
theory Surrogate
  imports CodecCorrect
begin

text \<open>
  The conversions between multibyte characters and UTF-16 of \<^verbatim>\<open>libc/uchar\<close>: characters outside of
  the basic plane become two surrogates, the second of which is kept in the conversion state.
\<close>

section \<open>Splitting and joining surrogate pairs\<close>

lemma mask_10: "(0x3ff :: 'a :: len word) = mask 10"
  by (simp add: mask_eq_exp_minus_1)

lemma ucast_or_16: "(ucast (a OR b :: u32) :: u16) = ucast a OR ucast b"
  by (rule bit_word_eqI) (auto simp: bit_simps)

lemma surrogate_bits:
  fixes d :: u32
  assumes "uint d < 2 ^ 20"
  shows "ucast ((0xd800 OR ucast (drop_bit 10 d) :: u16) AND 0x3ff) = drop_bit 10 d"
    and "ucast ((0xdc00 OR ucast (d AND 0x3ff) :: u16) AND 0x3ff) = d AND 0x3ff"
proof -
  have b: "k < 20" if "bit d k" for k
    using small_bits [OF assms] that by (metis bit_take_bit_iff)
  have "(0xd800 OR ucast (drop_bit 10 d) :: u16) AND 0x3ff = ucast (drop_bit 10 d) AND 0x3ff"
    by (simp add: bit.conj_disj_distrib2)
  also have "ucast \<dots> = drop_bit 10 d"
    unfolding mask_10 by (rule bit_word_eqI) (auto simp: bit_simps dest: b)
  finally show "ucast ((0xd800 OR ucast (drop_bit 10 d) :: u16) AND 0x3ff) = drop_bit 10 d" .
  have "(0xdc00 OR ucast (d AND 0x3ff) :: u16) AND 0x3ff = ucast (d AND 0x3ff) AND 0x3ff"
    by (simp add: bit.conj_disj_distrib2)
  also have "ucast \<dots> = d AND 0x3ff"
    unfolding mask_10 by (rule bit_word_eqI) (auto simp: bit_simps)
  finally show "ucast ((0xdc00 OR ucast (d AND 0x3ff) :: u16) AND 0x3ff) = d AND 0x3ff" .
qed

lemma join_10: "push_bit 10 (drop_bit 10 d) OR (d AND 0x3ff) = (d :: u32)"
  unfolding mask_10 by (rule bit_word_eqI) (auto simp: bit_simps)

lemma or_disjoint_range:
  fixes w :: u16
  assumes w: "w AND 0x3ff = w" and h: "h AND 0x3ff = 0"
  shows "uint (h OR w) = uint h + uint w"
proof -
  have "h AND w = h AND 0x3ff AND w" using w by (metis and.commute)
  also have "\<dots> = 0" using h by (simp add: and.assoc [symmetric])
  finally have z: "uint h AND uint w = 0" by (simp add: uint_and [symmetric])
  have "uint (h OR w) = uint h OR uint w" by (simp add: uint_or)
  then show ?thesis using disjunctive_add_eq_or [OF z] by simp
qed

lemma and_3ff_less: "(w :: u16) AND 0x3ff = w \<Longrightarrow> uint w < 0x400"
proof -
  assume "w AND 0x3ff = w"
  then have "take_bit 10 w = w" unfolding mask_10 by (simp add: take_bit_eq_mask)
  then have "uint w = take_bit 10 (uint w)" by (metis unsigned_take_bit_eq)
  then show ?thesis using take_bit_int_less_exp [of 10 "uint w"] by simp
qed

lemma ucast_and_3ff: "uint d < 2 ^ 20 \<Longrightarrow> (ucast (drop_bit 10 d) :: u16) AND 0x3ff = ucast (drop_bit 10 d)"
  "(ucast (d AND 0x3ff) :: u16) AND 0x3ff = ucast (d AND 0x3ff)" for d :: u32
proof -
  show "(ucast (d AND 0x3ff) :: u16) AND 0x3ff = ucast (d AND 0x3ff)"
    unfolding mask_10 by (rule bit_word_eqI) (auto simp: bit_simps)
  assume "uint d < 2 ^ 20"
  then have b: "k < 20" if "bit d k" for k
    using small_bits [of d 20] that by (metis bit_take_bit_iff)
  show "(ucast (drop_bit 10 d) :: u16) AND 0x3ff = ucast (drop_bit 10 d)"
    unfolding mask_10 by (rule bit_word_eqI) (auto simp: bit_simps dest: b)
qed

lemma lead_range:
  assumes "uint (d :: u32) < 2 ^ 20"
  shows "0xd800 \<le> (0xd800 OR ucast (drop_bit 10 d) :: u16)" "(0xd800 OR ucast (drop_bit 10 d) :: u16) \<le> 0xdbff"
  using or_disjoint_range [OF ucast_and_3ff(1) [OF assms], of "0xd800"] and_3ff_less [OF ucast_and_3ff(1) [OF assms]]
  by (simp_all add: word_le_def)

lemma trail_range:
  "0xdc00 \<le> (0xdc00 OR ucast (d AND 0x3ff :: u32) :: u16)" "(0xdc00 OR ucast (d AND 0x3ff :: u32) :: u16) \<le> 0xdfff"
  using or_disjoint_range [OF ucast_and_3ff(2) [of d], of "0xdc00"] and_3ff_less [OF ucast_and_3ff(2) [of d]]
  by (simp_all add: word_le_def)

section \<open>Properties\<close>

text \<open>
  C39: a character outside of the basic plane survives the way through UTF-16: \<open>mbrtoc16_l()\<close>
  returns a lead surrogate for its UTF-8 bytes and then, without using bytes, the trail surrogate;
  \<open>c16rtomb_l()\<close> writes nothing for the lead surrogate and the same bytes for the trail surrogate.
  Both conversions end in the initial state.
\<close>

theorem utf_16_roundtrip:
  assumes "utf_8_c32tomb c = Inr bs" "0x10000 \<le> c"
  shows "\<exists>lead trail p q.
      mbrtoc16_l (Some (bs @ rest)) mbstate_init ctype_utf_8 = Converted (length bs) lead p
    \<and> mbrtoc16_l (Some rest) p ctype_utf_8 = Pending trail mbstate_init
    \<and> c16rtomb_l True lead mbstate_init ctype_utf_8 = (Inr [], q)
    \<and> c16rtomb_l True trail q ctype_utf_8 = (Inr bs, mbstate_init)"
proof -
  define d where "d = c - 0x10000"
  have "c \<le> 0x10ffff" using assms by (auto simp: utf_8_c32tomb_def word_le_def split: if_splits)
  then have d: "uint d < 2 ^ 20" "c = 0x10000 + d"
    using assms(2) by (simp_all add: d_def word_le_def uint_word_ariths)
  define lead :: u16 where "lead = 0xd800 OR ucast (drop_bit 10 d)"
  define trail :: u16 where "trail = 0xdc00 OR ucast (d AND 0x3ff)"
  have lead: "0xd800 \<le> lead" "lead \<le> 0xdbff" "lead \<noteq> 0" and trail: "0xdc00 \<le> trail" "trail \<le> 0xdfff"
    using lead_range [OF d(1)] trail_range [of d] by (auto simp: lead_def trail_def word_le_def)
  have joined: "0x10000 + (push_bit 10 (ucast (lead AND 0x3ff)) OR ucast (trail AND 0x3ff)) = c"
    unfolding lead_def trail_def surrogate_bits [OF d(1)] join_10 d(2) ..
  have conv: "ucast (0xd800 OR drop_bit 10 (c - 0x10000)) = lead" "ucast (0xdc00 OR ((c - 0x10000) AND 0x3ff)) = trail"
    by (simp_all add: lead_def trail_def ucast_or_16 d_def)
  have init: "mbstate_get_surrogate mbstate_init = None"
    by (simp add: mbstate_get_surrogate_def mbstate_init_def)
  have sur: "mbstate_get_surrogate (mbstate_set_surrogate lead) = Some lead"
      "mbstate_get_surrogate (mbstate_set_surrogate trail) = Some trail"
    using lead trail by (auto simp: mbstate_get_surrogate_def mbstate_set_surrogate_def word_le_def word_less_def)
  have "\<not> c < 0x10000" using assms(2) by (simp add: not_less)
  then have "mbrtoc16_l (Some (bs @ rest)) mbstate_init ctype_utf_8
      = Converted (length bs) lead (mbstate_set_surrogate trail)"
    using utf_8_decode_encode [OF assms(1), of rest] conv lead(3)
    by (simp add: mbrtoc16_l_def init ctype_utf_8_def Let_def)
  moreover have "mbrtoc16_l (Some rest) (mbstate_set_surrogate trail) ctype_utf_8 = Pending trail mbstate_init"
    by (simp add: mbrtoc16_l_def sur)
  moreover have "c16rtomb_l True lead mbstate_init ctype_utf_8 = (Inr [], mbstate_set_surrogate lead)"
    using lead by (simp add: c16rtomb_l_def init)
  moreover have "c16rtomb_l True trail (mbstate_set_surrogate lead) ctype_utf_8 = (Inr bs, mbstate_init)"
    using trail joined assms(1) by (simp add: not_less c16rtomb_l_def sur ctype_utf_8_def)
  ultimately show ?thesis by blast
qed

theorem utf_16_roundtrip_witness:
  "\<exists>lead trail p q.
      mbrtoc16_l (Some ([0xf0, 0x9f, 0x98, 0x80] @ [0x41])) mbstate_init ctype_utf_8
        = Converted (length [0xf0, 0x9f, 0x98, 0x80 :: u8]) lead p
    \<and> mbrtoc16_l (Some [0x41]) p ctype_utf_8 = Pending trail mbstate_init
    \<and> c16rtomb_l True lead mbstate_init ctype_utf_8 = (Inr [], q)
    \<and> c16rtomb_l True trail q ctype_utf_8 = (Inr [0xf0, 0x9f, 0x98, 0x80], mbstate_init)"
  by (rule utf_16_roundtrip [of "0x1f600"]) (simp_all add: utf_8_c32tomb_def)

end
