(* ===== verification/Argdata.thy ===== *)
theory Argdata
  imports Prelude
begin

text \<open>
  The values of \<^verbatim>\<open>contrib/argdata-0.5\<close> and their binary form. An \<open>argdata_t\<close> keeps the member of its
  union and the field \<open>length\<close>, the size of its binary form; a pointer to bytes is the list of the
  bytes it points to, and \<open>convert_fd\<close> with its argument is one function, \<open>None\<close> for \<open>NULL\<close>. What a function writes
  through a \<open>uint8_t **\<close> is the list it returns; \<open>encode_subfield()\<close> advances its pointer by
  \<open>length\<close>, which is the number of bytes written by \<open>encode_length\<close> of ArgdataCorrect. Memory for
  the objects is taken from \<open>malloc()\<close>, whose failure is the boolean parameter \<open>oom\<close> of the
  functions that create values.
\<close>

section \<open>Values\<close>

datatype argdata_t =
  AD_BUFFER "u8 list" "(nat \<Rightarrow> int) option" nat
| AD_BINARY "u8 list" nat
| AD_MAP "argdata_t list" "argdata_t list" nat
| AD_SEQ "argdata_t list" nat
| AD_STR "u8 list" nat

primrec ad_length :: "argdata_t \<Rightarrow> nat" where
  "ad_length (AD_BUFFER buffer convert_fd n) = n"
| "ad_length (AD_BINARY binary n) = n"
| "ad_length (AD_MAP keys values n) = n"
| "ad_length (AD_SEQ entries n) = n"
| "ad_length (AD_STR str n) = n"

definition ADT_BINARY :: u8 where "ADT_BINARY = 1"
definition ADT_BOOL :: u8 where "ADT_BOOL = 2"
definition ADT_FD :: u8 where "ADT_FD = 3"
definition ADT_FLOAT :: u8 where "ADT_FLOAT = 4"
definition ADT_INT :: u8 where "ADT_INT = 5"
definition ADT_MAP :: u8 where "ADT_MAP = 6"
definition ADT_SEQ :: u8 where "ADT_SEQ = 7"
definition ADT_STR :: u8 where "ADT_STR = 8"
definition ADT_TIMESTAMP :: u8 where "ADT_TIMESTAMP = 9"

lemmas ADT_defs = ADT_BINARY_def ADT_BOOL_def ADT_FD_def ADT_FLOAT_def ADT_INT_def ADT_MAP_def
  ADT_SEQ_def ADT_STR_def ADT_TIMESTAMP_def

definition argdata_init_buffer :: "u8 list \<Rightarrow> (nat \<Rightarrow> int) option \<Rightarrow> argdata_t" where
  "argdata_init_buffer buffer convert_fd = AD_BUFFER buffer convert_fd (length buffer)"

section \<open>Fields\<close>

fun parse_reclen :: "u64 \<Rightarrow> u8 list \<Rightarrow> (u64 \<times> u8 list) option" where
  "parse_reclen reclen [] = None"
| "parse_reclen reclen (c # buf) =
     (if drop_bit 57 reclen \<noteq> 0 then None
      else if c AND 0x80 \<noteq> 0 then Some (push_bit 7 reclen OR ucast (c AND 0x7f), buf)
      else parse_reclen (push_bit 7 reclen OR ucast c) buf)"

definition parse_subfield :: "u8 list \<Rightarrow> errno + u8 list \<times> u8 list" where
  "parse_subfield buf =
     (if buf = [] \<or> hd buf = 0 then Inl EINVAL
      else
        (case parse_reclen 0 buf of
           None \<Rightarrow> Inl EINVAL
         | Some (reclen, rest) \<Rightarrow>
             if unat reclen > length rest then Inl EINVAL
             else Inr (take (unat reclen) rest, drop (unat reclen) rest)))"

lemma unat_drop_bit_7: "unat (drop_bit 7 w) = unat w div 128" for w :: u64
  unfolding unat_drop_bit_eq by (simp add: drop_bit_eq_div)

lemma drop_bit_7_less: "w \<noteq> 0 \<Longrightarrow> unat (drop_bit 7 w) < unat w" for w :: u64
  by (simp add: unat_drop_bit_7 unat_gt_0)

function subfield_digits :: "u64 \<Rightarrow> nat" where
  "subfield_digits field = (if drop_bit 7 field = 0 then 1 else 1 + subfield_digits (drop_bit 7 field))"
  by auto
termination
proof (relation "measure unat")
  show "(drop_bit 7 field, field) \<in> measure unat" if "drop_bit 7 field \<noteq> 0" for field :: u64
    using that by (cases "field = 0") (auto simp: drop_bit_7_less)
qed simp

declare subfield_digits.simps [simp del]

text \<open>Sizes are \<open>size_t\<close>: they wrap around at \<open>2 ^ 64\<close>.\<close>

definition get_subfield_length :: "argdata_t \<Rightarrow> nat" where
  "get_subfield_length ad = (ad_length ad + subfield_digits (of_nat (ad_length ad))) mod 2 ^ 64"

function encode_digits :: "u64 \<Rightarrow> u8 list \<Rightarrow> u8 list" where
  "encode_digits len digits =
     (if len = 0 then digits else encode_digits (drop_bit 7 len) (ucast (len AND 0x7f) # digits))"
  by auto
termination by (relation "measure (\<lambda>(len, digits). unat len)") (auto simp: drop_bit_7_less)

declare encode_digits.simps [simp del]

definition encode_subfield_length :: "nat \<Rightarrow> u8 list" where
  "encode_subfield_length n =
     (let len = of_nat n :: u64 in encode_digits (drop_bit 7 len) [ucast len OR 0x80])"

definition parse_type :: "u8 \<Rightarrow> u8 list \<Rightarrow> errno + u8 list" where
  "parse_type type buf =
     (case buf of [] \<Rightarrow> Inl EINVAL | b # rest \<Rightarrow> if b \<noteq> type then Inl EINVAL else Inr rest)"

definition parse_fd :: "u8 list \<Rightarrow> errno + u32" where
  "parse_fd buf =
     (case buf of
        [b0, b1, b2, b3] \<Rightarrow>
          Inr (push_bit 24 (ucast b0) OR push_bit 16 (ucast b1) OR push_bit 8 (ucast b2) OR ucast b3)
      | _ \<Rightarrow> Inl EINVAL)"

definition encode_fd :: "u32 \<Rightarrow> u8 list" where
  "encode_fd value = [ucast (drop_bit 24 value), ucast (drop_bit 16 value), ucast (drop_bit 8 value), ucast value]"

section \<open>Serialization\<close>

text \<open>The table of file descriptors is \<open>None\<close> when \<open>fds\<close> is \<open>NULL\<close>.\<close>

definition map_fd :: "int \<Rightarrow> int list \<Rightarrow> nat \<times> int list" where
  "map_fd fd fds =
     (case find (\<lambda>i. fds ! i = fd) [0..<length fds] of
        Some i \<Rightarrow> (i, fds)
      | None \<Rightarrow> (length fds, fds @ [fd]))"

definition encode_raw_fd :: "int \<Rightarrow> int list option \<Rightarrow> u8 list \<times> int list option" where
  "encode_raw_fd fd fds =
     (if fd < 0 then (encode_fd 0xffffffff, fds)
      else
        (case fds of
           None \<Rightarrow> (encode_fd (of_int fd), None)
         | Some table \<Rightarrow> (let (i, table') = map_fd fd table in (encode_fd (of_nat i), Some table'))))"

lemma parse_reclen_length: "parse_reclen r buf = Some (w, rest) \<Longrightarrow> length rest < length buf"
  by (induction r buf rule: parse_reclen.induct) (auto split: if_splits)

lemma parse_subfield_length:
  "parse_subfield buf = Inr (field, rest) \<Longrightarrow> length field + length rest < length buf"
  by (auto simp: parse_subfield_def dest!: parse_reclen_length split: if_splits option.splits)

function encode_buffer :: "u8 list \<Rightarrow> (nat \<Rightarrow> int) option \<Rightarrow> int list option \<Rightarrow> u8 list \<times> int list option"
  and encode_fields :: "u8 list \<Rightarrow> (nat \<Rightarrow> int) option \<Rightarrow> int list option \<Rightarrow> u8 list \<times> int list option" where
  "encode_buffer buffer convert_fd fds =
     (case buffer of
        [] \<Rightarrow> ([], fds)
      | t # ibuf \<Rightarrow>
          if t = ADT_MAP \<or> t = ADT_SEQ then
            (let (out, fds') = encode_fields ibuf convert_fd fds in (t # out, fds'))
          else if t = ADT_FD then
            (case parse_fd ibuf of
               Inr raw_fd \<Rightarrow>
                 (let (out, fds') = encode_raw_fd (the convert_fd (unat raw_fd)) fds in (t # out, fds'))
             | Inl e \<Rightarrow> (t # ibuf, fds))
          else (t # ibuf, fds))"
| "encode_fields ibuf convert_fd fds =
     (case parse_subfield ibuf of
        Inl e \<Rightarrow> (ibuf, fds)
      | Inr (field, rest) \<Rightarrow>
          (let (out, fds1) = encode_buffer field convert_fd fds;
               (outs, fds2) = encode_fields rest convert_fd fds1
           in (encode_subfield_length (length field) @ out @ outs, fds2)))"
  by pat_completeness auto
termination
  by (relation "measure (\<lambda>x. case x of Inl (buf, _) \<Rightarrow> 2 * length buf | Inr (buf, _) \<Rightarrow> 2 * length buf + 1)")
    (auto dest: parse_subfield_length)

declare encode_buffer.simps [simp del] encode_fields.simps [simp del]

function (sequential) encode :: "argdata_t \<Rightarrow> int list option \<Rightarrow> u8 list \<times> int list option"
  and encode_seq :: "argdata_t list \<Rightarrow> int list option \<Rightarrow> u8 list \<times> int list option"
  and encode_map :: "argdata_t list \<Rightarrow> argdata_t list \<Rightarrow> int list option \<Rightarrow> u8 list \<times> int list option" where
  "encode (AD_BUFFER buffer convert_fd n) fds = encode_buffer (take n buffer) convert_fd fds"
| "encode (AD_BINARY binary n) fds =
     (if n = 0 then ([], fds) else (ADT_BINARY # take (n - 1) binary, fds))"
| "encode (AD_MAP keys values n) fds =
     (if n = 0 then ([], fds)
      else (let (out, fds') = encode_map keys values fds in (ADT_MAP # out, fds')))"
| "encode (AD_SEQ entries n) fds =
     (if n = 0 then ([], fds)
      else (let (out, fds') = encode_seq entries fds in (ADT_SEQ # out, fds')))"
| "encode (AD_STR str n) fds =
     (if n = 0 then ([], fds) else (ADT_STR # take (n - 2) str @ [0], fds))"
| "encode_seq [] fds = ([], fds)"
| "encode_seq (e # es) fds =
     (let (out, fds1) = encode e fds; (outs, fds2) = encode_seq es fds1
      in (encode_subfield_length (ad_length e) @ out @ outs, fds2))"
| "encode_map (k # ks) (v # vs) fds =
     (let (out, fds1) = encode k fds; (out', fds2) = encode v fds1; (outs, fds3) = encode_map ks vs fds2
      in (encode_subfield_length (ad_length k) @ out @ encode_subfield_length (ad_length v) @ out' @ outs, fds3))"
| "encode_map _ _ fds = ([], fds)"
  by pat_completeness auto
termination
  by (relation "measure (case_sum (\<lambda>(ad, _). size ad)
      (case_sum (\<lambda>(es, _). size_list size es) (\<lambda>(ks, vs, _). size_list size ks + size_list size vs)))") auto

definition encode_subfield :: "argdata_t \<Rightarrow> int list option \<Rightarrow> u8 list \<times> int list option" where
  "encode_subfield ad fds =
     (let (out, fds') = encode ad fds in (encode_subfield_length (ad_length ad) @ out, fds'))"

definition argdata_serialize :: "argdata_t \<Rightarrow> bool \<Rightarrow> u8 list \<times> int list option" where
  "argdata_serialize ad has_fds = encode ad (if has_fds then Some [] else None)"

function countfds_buffer :: "u8 list \<Rightarrow> nat" and countfds_fields :: "u8 list \<Rightarrow> nat" where
  "countfds_buffer buffer =
     (case buffer of
        [] \<Rightarrow> 0
      | t # ibuf \<Rightarrow>
          if t = ADT_MAP \<or> t = ADT_SEQ then countfds_fields ibuf
          else if t = ADT_FD then (case parse_fd ibuf of Inr fd \<Rightarrow> 1 | Inl e \<Rightarrow> 0)
          else 0)"
| "countfds_fields ibuf =
     (case parse_subfield ibuf of
        Inl e \<Rightarrow> 0
      | Inr (field, rest) \<Rightarrow> countfds_buffer field + countfds_fields rest)"
  by pat_completeness auto
termination
  by (relation "measure (\<lambda>x. case x of Inl buf \<Rightarrow> 2 * length buf | Inr buf \<Rightarrow> 2 * length buf + 1)")
    (auto dest: parse_subfield_length)

declare countfds_buffer.simps [simp del] countfds_fields.simps [simp del]

function (sequential) countfds :: "argdata_t \<Rightarrow> nat"
  and countfds_seq :: "argdata_t list \<Rightarrow> nat"
  and countfds_map :: "argdata_t list \<Rightarrow> argdata_t list \<Rightarrow> nat" where
  "countfds (AD_BUFFER buffer convert_fd n) = countfds_buffer (take n buffer)"
| "countfds (AD_MAP keys values n) = (if n = 0 then 0 else countfds_map keys values)"
| "countfds (AD_SEQ entries n) = (if n = 0 then 0 else countfds_seq entries)"
| "countfds (AD_BINARY binary n) = 0"
| "countfds (AD_STR str n) = 0"
| "countfds_seq [] = 0"
| "countfds_seq (e # es) = countfds e + countfds_seq es"
| "countfds_map (k # ks) (v # vs) = countfds k + countfds v + countfds_map ks vs"
| "countfds_map _ _ = 0"
  by pat_completeness auto
termination
  by (relation "measure (case_sum size
      (case_sum (size_list size) (\<lambda>(ks, vs). size_list size ks + size_list size vs)))") auto

definition argdata_serialized_length :: "argdata_t \<Rightarrow> nat \<times> nat" where
  "argdata_serialized_length ad = (ad_length ad, countfds ad)"

end
