(* ===== verification/ArgdataValues.thy ===== *)
theory ArgdataValues
  imports Argdata
begin

text \<open>
  Creating and reading the scalar values, the sequences and the maps of \<^verbatim>\<open>contrib/argdata-0.5\<close>. The
  result of a creating function is an error or the value; the result of a reading function is an
  error or what it stores. A pointer with a length is the list of the bytes from the pointer on and
  the length. A \<open>double\<close> is the 64-bit word of its representation.
\<close>

section \<open>Strings\<close>

function validate_cont :: "u8 \<Rightarrow> u32 \<Rightarrow> nat \<Rightarrow> u8 list \<Rightarrow> errno + u32 \<times> nat \<times> u8 list" where
  "validate_cont b codepoint n buf =
     (if push_bit 1 b AND 0x80 \<noteq> 0 then
        (case buf of
           [] \<Rightarrow> Inl EILSEQ
         | c # rest \<Rightarrow>
             if n + 1 > 3 \<or> c AND 0xc0 \<noteq> 0x80 then Inl EILSEQ
             else validate_cont (push_bit 1 b) (push_bit 6 codepoint OR ucast (c AND 0x3f)) (n + 1) rest)
      else Inr (codepoint, n, buf))"
  by pat_completeness auto
termination by (relation "measure (\<lambda>(b, codepoint, n, buf). length buf)") auto

declare validate_cont.simps [simp del]

definition validate_mask :: "u32 list" where
  "validate_mask = [0x7f, 0x7ff, 0xffff, 0x1fffff]"

lemma validate_cont_length:
  "validate_cont b codepoint n buf = Inr (c, m, rest) \<Longrightarrow> length rest \<le> length buf"
proof (induction b codepoint n buf rule: validate_cont.induct)
  case (1 b codepoint n buf)
  then show ?case
    by (subst (asm) (2) validate_cont.simps) (auto split: if_splits list.splits)
qed

function validate_string :: "u8 list \<Rightarrow> errno option" where
  "validate_string buf =
     (case buf of
        [] \<Rightarrow> None
      | b # rest \<Rightarrow>
          if b AND 0x80 = 0 then validate_string rest
          else
            (case validate_cont b (ucast b) 0 rest of
               Inl e \<Rightarrow> Some e
             | Inr (cp, n, rest') \<Rightarrow>
                 (let codepoint = cp AND validate_mask ! n in
                  if n = 0 \<or> codepoint \<le> validate_mask ! (n - 1)
                     \<or> (codepoint \<ge> 0xd800 \<and> codepoint \<le> 0xdfff) \<or> codepoint > 0x10ffff
                  then Some EILSEQ
                  else validate_string rest')))"
  by pat_completeness auto
termination
  by (relation "measure length") (auto dest!: validate_cont_length)

declare validate_string.simps [simp del]

definition argdata_create_str :: "bool \<Rightarrow> u8 list \<Rightarrow> nat \<Rightarrow> errno + argdata_t" where
  "argdata_create_str oom buf len =
     (case validate_string (take len buf) of
        Some error \<Rightarrow> Inl error
      | None \<Rightarrow> if oom then Inl ENOMEM else Inr (AD_STR buf ((len + 2) mod 2 ^ 64)))"

definition argdata_create_str_c :: "bool \<Rightarrow> u8 list \<Rightarrow> errno + argdata_t" where
  "argdata_create_str_c oom value = argdata_create_str oom value (length (takeWhile (\<lambda>b. b \<noteq> 0) value))"

definition argdata_get_str :: "argdata_t \<Rightarrow> errno + u8 list \<times> nat" where
  "argdata_get_str ad =
     (case ad of
        AD_BUFFER buffer convert_fd n \<Rightarrow>
          (case parse_type ADT_STR (take n buffer) of
             Inl error \<Rightarrow> Inl error
           | Inr buf \<Rightarrow>
               if buf = [] \<or> last buf \<noteq> 0 then Inl EINVAL
               else
                 (case validate_string (butlast buf) of
                    Some error \<Rightarrow> Inl error
                  | None \<Rightarrow> Inr (buf, length buf - 1)))
      | AD_STR str n \<Rightarrow> Inr (str, n - 2)
      | _ \<Rightarrow> Inl EINVAL)"

definition argdata_get_str_c :: "argdata_t \<Rightarrow> errno + u8 list" where
  "argdata_get_str_c ad =
     (case argdata_get_str ad of
        Inl error \<Rightarrow> Inl error
      | Inr (str, len) \<Rightarrow>
          if length (takeWhile (\<lambda>b. b \<noteq> 0) (take (len + 1) str)) \<noteq> len then Inl EILSEQ else Inr str)"

section \<open>Binary data, Booleans and file descriptors\<close>

definition argdata_create_binary :: "bool \<Rightarrow> u8 list \<Rightarrow> nat \<Rightarrow> errno + argdata_t" where
  "argdata_create_binary oom buf len =
     (if oom then Inl ENOMEM else Inr (AD_BINARY buf ((len + 1) mod 2 ^ 64)))"

definition argdata_get_binary :: "argdata_t \<Rightarrow> errno + u8 list \<times> nat" where
  "argdata_get_binary ad =
     (case ad of
        AD_BUFFER buffer convert_fd n \<Rightarrow>
          (case parse_type ADT_BINARY (take n buffer) of
             Inl error \<Rightarrow> Inl error
           | Inr buf \<Rightarrow> Inr (buf, length buf))
      | AD_BINARY binary n \<Rightarrow> Inr (binary, n - 1)
      | _ \<Rightarrow> Inl EINVAL)"

definition argdata_null :: argdata_t where "argdata_null = AD_BUFFER [] None 0"

definition argdata_true :: argdata_t where "argdata_true = AD_BUFFER [ADT_BOOL, 1] None 2"

definition argdata_false :: argdata_t where "argdata_false = AD_BUFFER [ADT_BOOL] None 1"

definition argdata_get_bool :: "argdata_t \<Rightarrow> errno + bool" where
  "argdata_get_bool ad =
     (case ad of
        AD_BUFFER buffer convert_fd n \<Rightarrow>
          (case parse_type ADT_BOOL (take n buffer) of
             Inl error \<Rightarrow> Inl error
           | Inr buf \<Rightarrow> if buf = [] then Inr False else if buf = [1] then Inr True else Inl EINVAL)
      | _ \<Rightarrow> Inl EINVAL)"

definition fixed_fd :: "int \<Rightarrow> nat \<Rightarrow> int" where
  "fixed_fd arg fd = arg"

definition buf_fd :: "u8 list" where
  "buf_fd = [ADT_FD, 0, 0, 0, 0]"

definition argdata_create_fd :: "bool \<Rightarrow> int \<Rightarrow> errno + argdata_t" where
  "argdata_create_fd oom value =
     (if value < 0 then Inl EBADF
      else if oom then Inl ENOMEM
      else Inr (argdata_init_buffer buf_fd (Some (fixed_fd value))))"

definition argdata_get_fd :: "argdata_t \<Rightarrow> errno + int" where
  "argdata_get_fd ad =
     (case ad of
        AD_BUFFER buffer convert_fd n \<Rightarrow>
          (case parse_type ADT_FD (take n buffer) of
             Inl error \<Rightarrow> Inl error
           | Inr buf \<Rightarrow>
               (case parse_fd buf of
                  Inl error \<Rightarrow> Inl error
                | Inr raw_fd \<Rightarrow>
                    (let fd = the convert_fd (unat raw_fd) in if fd < 0 then Inl EBADF else Inr fd)))
      | _ \<Rightarrow> Inl EINVAL)"

definition disallow_fd_access :: "nat \<Rightarrow> int" where
  "disallow_fd_access fd = - 1"

definition argdata_from_buffer :: "bool \<Rightarrow> u8 list \<Rightarrow> nat \<Rightarrow> (nat \<Rightarrow> int) option \<Rightarrow> errno + argdata_t" where
  "argdata_from_buffer oom buf len convert_fd =
     (if oom then Inl ENOMEM
      else Inr (AD_BUFFER buf (Some (case convert_fd of Some f \<Rightarrow> f | None \<Rightarrow> disallow_fd_access)) len))"

section \<open>Numbers\<close>

lemma unat_drop_bit_8: "unat (drop_bit 8 w) = unat w div 256" for w :: u64
  unfolding unat_drop_bit_eq by (simp add: drop_bit_eq_div)

function int_digits_u :: "u64 \<Rightarrow> u8 list \<Rightarrow> u8 list" where
  "int_digits_u value buf =
     (if value = 0 then buf else int_digits_u (drop_bit 8 value) (ucast value # buf))"
  by auto
termination
  by (relation "measure (\<lambda>(value, buf). unat value)") (auto simp: unat_drop_bit_8 unat_gt_0)

declare int_digits_u.simps [simp del]

definition argdata_create_int_u :: "bool \<Rightarrow> u64 \<Rightarrow> errno + argdata_t" where
  "argdata_create_int_u oom value =
     (if oom then Inl ENOMEM
      else
        (let digits = int_digits_u value [];
             buf = (if digits \<noteq> [] \<and> hd digits AND 0x80 \<noteq> 0 then 0 # digits else digits)
         in Inr (argdata_init_buffer (ADT_INT # buf) None)))"

partial_function (option) int_digits_s :: "int \<Rightarrow> u8 list \<Rightarrow> u8 list option" where
  "int_digits_s value buf =
     (let b = word_of_int value; v = value div 256
      in if v \<noteq> - 1 \<or> b AND 0x80 = 0 then int_digits_s v (b # buf) else Some (b # buf))"

definition argdata_create_int_s :: "bool \<Rightarrow> int \<Rightarrow> (errno + argdata_t) option" where
  "argdata_create_int_s oom value =
     (if value \<ge> 0 then Some (argdata_create_int_u oom (word_of_int value))
      else if oom then Some (Inl ENOMEM)
      else map_option (\<lambda>buf. Inr (argdata_init_buffer (ADT_INT # buf) None)) (int_digits_s value []))"

definition argdata_get_int_u :: "argdata_t \<Rightarrow> u64 \<Rightarrow> errno + u64" where
  "argdata_get_int_u ad maxv =
     (case ad of
        AD_BUFFER buffer convert_fd n \<Rightarrow>
          (case parse_type ADT_INT (take n buffer) of
             Inl error \<Rightarrow> Inl error
           | Inr buf \<Rightarrow>
               if buf = [] then Inr 0
               else if hd buf AND 0x80 \<noteq> 0 then Inl ERANGE
               else if length buf > 8 \<and> (length buf \<noteq> 9 \<or> hd buf \<noteq> 0) then Inl ERANGE
               else
                 (let res = foldl (\<lambda>res b. push_bit 8 res OR ucast b) 0 buf
                  in if res > maxv then Inl ERANGE else Inr res))
      | _ \<Rightarrow> Inl EINVAL)"

fun int_add_digits :: "u8 list \<Rightarrow> nat \<Rightarrow> u64 \<Rightarrow> nat \<times> u64" where
  "int_add_digits [] shift res = (shift, res)"
| "int_add_digits (b # buf) shift res =
     (let res' = res OR push_bit shift (ucast b)
      in if buf = [] then (shift, res') else int_add_digits buf (shift - 8) res')"

definition argdata_get_int_s :: "argdata_t \<Rightarrow> int \<Rightarrow> int \<Rightarrow> errno + int" where
  "argdata_get_int_s ad minv maxv =
     (case ad of
        AD_BUFFER buffer convert_fd n \<Rightarrow>
          (case parse_type ADT_INT (take n buffer) of
             Inl error \<Rightarrow> Inl error
           | Inr buf \<Rightarrow>
               if buf = [] then Inr 0
               else if length buf > 8 then Inl ERANGE
               else
                 (let (shift, digits) = int_add_digits buf 56 0;
                      res = sint (signed_drop_bit shift digits)
                  in if res < minv \<or> res > maxv then Inl ERANGE else Inr res))
      | _ \<Rightarrow> Inl EINVAL)"

definition argdata_create_float :: "bool \<Rightarrow> u64 \<Rightarrow> errno + argdata_t" where
  "argdata_create_float oom bits =
     (if oom then Inl ENOMEM
      else Inr (argdata_init_buffer (ADT_FLOAT # map (\<lambda>i. ucast (drop_bit (8 * (8 - i)) bits)) [1..<9]) None))"

definition argdata_get_float :: "argdata_t \<Rightarrow> errno + u64" where
  "argdata_get_float ad =
     (case ad of
        AD_BUFFER buffer convert_fd n \<Rightarrow>
          (case parse_type ADT_FLOAT (take n buffer) of
             Inl error \<Rightarrow> Inl error
           | Inr buf \<Rightarrow>
               if length buf \<noteq> 8 then Inl EINVAL
               else Inr (foldl (\<lambda>bits b. push_bit 8 bits OR ucast b) 0 buf))
      | _ \<Rightarrow> Inl EINVAL)"

section \<open>Timestamps\<close>

text \<open>The seconds are a 64-bit integer; the intermediate values stay within 64 bits, which the proofs
  show where it matters. The conversions to bytes truncate.\<close>

fun trim_zero :: "u8 list \<Rightarrow> u8 list" where
  "trim_zero (b # c # buf) = (if b = 0 \<and> c AND 0x80 = 0 then trim_zero (c # buf) else b # c # buf)"
| "trim_zero buf = buf"

fun trim_ones :: "u8 list \<Rightarrow> u8 list" where
  "trim_ones (b # c # buf) = (if b = 0xff \<and> c AND 0x80 = 0x80 then trim_ones (c # buf) else b # c # buf)"
| "trim_ones buf = buf"

definition argdata_create_timestamp :: "bool \<Rightarrow> int \<Rightarrow> int \<Rightarrow> errno + argdata_t" where
  "argdata_create_timestamp oom tv_sec tv_nsec =
     (if tv_nsec < 0 \<or> tv_nsec \<ge> 1000000000 then Inl EINVAL
      else if oom then Inl ENOMEM
      else
        (let low = (tv_sec mod 2 ^ 32) * 1000000000 + tv_nsec;
             high = (tv_sec div 2 ^ 32) * 1000000000 + low div 2 ^ 32;
             buf = map (\<lambda>i. word_of_int (high div 2 ^ (8 * (7 - i)))) [0..<8]
                   @ map (\<lambda>i. word_of_int (low div 2 ^ (8 * (3 - i)))) [0..<4];
             buf = trim_ones (trim_zero buf);
             buf = (if buf = [0] then [] else buf)
         in Inr (argdata_init_buffer (ADT_TIMESTAMP # buf) None)))"

definition argdata_get_timestamp :: "argdata_t \<Rightarrow> errno + int \<times> int" where
  "argdata_get_timestamp ad =
     (case ad of
        AD_BUFFER buffer convert_fd n \<Rightarrow>
          (case parse_type ADT_TIMESTAMP (take n buffer) of
             Inl error \<Rightarrow> Inl error
           | Inr buf \<Rightarrow>
               if length buf > 12 then Inl ERANGE
               else
                 (let pad = (if buf \<noteq> [] \<and> hd buf AND 0x80 \<noteq> 0 then 0xff else 0);
                      payload = replicate (12 - length buf) pad @ buf;
                      high = sint (foldl (\<lambda>h b. push_bit 8 h OR ucast b) (0 :: u64) (take 8 payload));
                      low = uint (foldl (\<lambda>l b. push_bit 8 l OR ucast b) (0 :: u64) (drop 8 payload));
                      high_rem = cmod high 1000000000;
                      high = cdiv high 1000000000;
                      (high_rem, high) = (if high_rem < 0 then (high_rem + 1000000000, high - 1) else (high_rem, high))
                  in if high < - (2 ^ 31) \<or> high > 2 ^ 31 - 1 then Inl ERANGE
                     else
                       (let low = low + high_rem * 2 ^ 32;
                            nsec = low mod 1000000000;
                            low = low div 1000000000
                        in if low > 2 ^ 63 - 1 \<or> high * 2 ^ 32 > 2 ^ 63 - 1 - low then Inl ERANGE
                           else Inr (low + high * 2 ^ 32, nsec))))
      | _ \<Rightarrow> Inl EINVAL)"

section \<open>Sequences and maps\<close>

definition argdata_create_seq :: "bool \<Rightarrow> argdata_t list \<Rightarrow> errno + argdata_t" where
  "argdata_create_seq oom entries =
     (if oom then Inl ENOMEM
      else Inr (AD_SEQ entries
             (foldl (\<lambda>n e. (n + get_subfield_length e) mod 2 ^ 64) 1 entries)))"

definition argdata_create_map :: "bool \<Rightarrow> argdata_t list \<Rightarrow> argdata_t list \<Rightarrow> errno + argdata_t" where
  "argdata_create_map oom keys values =
     (if oom then Inl ENOMEM
      else Inr (AD_MAP keys values
             (foldl (\<lambda>n (k, v). ((n + get_subfield_length k) mod 2 ^ 64 + get_subfield_length v) mod 2 ^ 64)
                1 (zip keys values))))"

end
