(* ===== verification/ArgdataCorrect.thy ===== *)
theory ArgdataCorrect
  imports ArgdataValues
begin

text \<open>
  Correctness of serialization: the length prefix and its parser invert each other, a well-formed
  value is written in exactly the number of bytes its \<open>length\<close> announces, the table of file
  descriptors never outgrows the number that \<open>argdata_serialized_length()\<close> announces, and the
  fields of what is written are the written entries.
\<close>

section \<open>The length prefix\<close>

lemma mask_7: "(0x7f :: 'a :: len word) = mask 7"
  by (simp add: mask_eq_exp_minus_1)

lemma bit_80: "bit (0x80 :: int) k \<longleftrightarrow> k = 7"
proof -
  have "bit (2 ^ 7 :: int) k \<longleftrightarrow> k = 7" by (auto simp only: bit_exp_iff possible_bit_int)
  then show ?thesis by simp
qed

lemma digit_ucast: "ucast (ucast (len AND 0x7f :: u64) :: u8) = len AND (0x7f :: u64)"
  unfolding mask_7 by (rule bit_word_eqI) (auto simp: bit_simps)

lemma digit_no_stop: "(ucast (len AND 0x7f :: u64) :: u8) AND 0x80 = 0"
  by (rule bit_word_eqI) (unfold mask_7, auto simp: bit_simps bit_80)

lemma digit_join: "push_bit 7 (drop_bit 7 len) OR (len AND 0x7f) = (len :: u64)"
  unfolding mask_7 by (rule bit_word_eqI) (auto simp: bit_simps)

lemma drop_57_7: "drop_bit 57 (drop_bit 7 (len :: u64)) = 0"
  by (rule bit_word_eqI) (auto simp: bit_simps)

lemma last_digit:
  "(ucast (len :: u64) OR 0x80 :: u8) AND 0x80 \<noteq> 0"
  "ucast ((ucast (len :: u64) OR 0x80 :: u8) AND 0x7f) = len AND 0x7f"
proof -
  have "bit ((ucast (len :: u64) OR 0x80 :: u8) AND 0x80) 7" by (simp add: bit_simps bit_80)
  then show "(ucast (len :: u64) OR 0x80 :: u8) AND 0x80 \<noteq> 0" by (metis bit_0_eq bot_apply bot_bool_def)
  show "ucast ((ucast (len :: u64) OR 0x80 :: u8) AND 0x7f) = len AND 0x7f"
    unfolding mask_7 by (rule bit_word_eqI) (auto simp: bit_simps bit_80)
qed

lemma parse_encode_digits:
  "parse_reclen 0 (encode_digits len buf) = parse_reclen len buf"
proof (induction len buf rule: encode_digits.induct)
  case (1 len buf)
  show ?case
  proof (cases "len = 0")
    case False
    have "parse_reclen 0 (encode_digits len buf) = parse_reclen (drop_bit 7 len) (ucast (len AND 0x7f) # buf)"
      unfolding encode_digits.simps [of len buf] using False 1 by simp
    also have "\<dots> = parse_reclen len buf"
      unfolding parse_reclen.simps drop_57_7 digit_no_stop digit_ucast digit_join by simp
    finally show ?thesis .
  qed (simp add: encode_digits.simps)
qed

lemma encode_digits_hd:
  "(len = 0 \<Longrightarrow> hd buf \<noteq> 0) \<Longrightarrow> hd (encode_digits len buf) \<noteq> 0"
proof (induction len buf rule: encode_digits.induct)
  case (1 len buf)
  have "(ucast (len AND 0x7f) :: u8) \<noteq> 0" if "drop_bit 7 len = 0" "len \<noteq> 0"
  proof
    assume "(ucast (len AND 0x7f) :: u8) = 0"
    then have "len AND 0x7f = 0" using digit_ucast [of len] by simp
    then show False using digit_join [of len] that by simp
  qed
  then show ?case using 1 by (cases "len = 0") (simp_all add: encode_digits.simps [of len buf] encode_digits.simps [of 0 buf])
qed

lemma encode_digits_append: "encode_digits len (buf @ rest) = encode_digits len buf @ rest"
  by (induction len buf rule: encode_digits.induct)
    (subst encode_digits.simps, subst (2) encode_digits.simps, simp)

lemma encode_digits_nonempty: "buf \<noteq> [] \<Longrightarrow> encode_digits len buf \<noteq> []"
  by (induction len buf rule: encode_digits.induct) (subst encode_digits.simps, simp)

lemma parse_encode_length:
  assumes "length field < 2 ^ 64"
  shows "parse_subfield (encode_subfield_length (length field) @ field @ rest) = Inr (field, rest)"
proof -
  let ?w = "of_nat (length field) :: u64"
  have w: "unat ?w = length field" using assms by (simp add: unat_of_nat take_bit_nat_eq_self)
  have e: "encode_subfield_length (length field) @ field @ rest
      = encode_digits (drop_bit 7 ?w) ((ucast ?w OR 0x80) # field @ rest)"
    by (simp add: encode_subfield_length_def Let_def encode_digits_append [symmetric])
  have "parse_reclen (drop_bit 7 ?w) ((ucast ?w OR 0x80) # field @ rest) = Some (?w, field @ rest)"
    unfolding parse_reclen.simps drop_57_7 using last_digit [of ?w] by (simp add: digit_join)
  moreover have "hd (encode_digits (drop_bit 7 ?w) ((ucast ?w OR 0x80) # field @ rest)) \<noteq> 0"
    by (rule encode_digits_hd) (use last_digit(1) [of ?w] in \<open>auto simp only: list.sel zero_and_eq\<close>)
  moreover have "encode_digits (drop_bit 7 ?w) ((ucast ?w OR 0x80) # field @ rest) \<noteq> []"
    by (rule encode_digits_nonempty) simp
  ultimately show ?thesis unfolding e by (simp add: parse_subfield_def parse_encode_digits w)
qed

text \<open>The parser accepts no other prefix.\<close>

lemma digit_cons:
  assumes "drop_bit 57 (r :: u64) = 0" "(c :: u8) AND 0x80 = 0"
  shows "drop_bit 7 (push_bit 7 r OR ucast c) = r" "ucast ((push_bit 7 r OR ucast c) AND 0x7f) = c"
    "r \<noteq> 0 \<or> c \<noteq> 0 \<Longrightarrow> push_bit 7 r OR ucast c \<noteq> 0"
proof -
  have r: "\<not> bit r k" if "57 \<le> k" for k
  proof -
    have "\<not> bit (drop_bit 57 r) (k - 57)" using assms(1) by simp
    then show ?thesis using that by (simp add: bit_simps)
  qed
  have c: "\<not> bit c 7"
  proof -
    have "\<not> bit (c AND 0x80) 7" using assms(2) by simp
    then show ?thesis by (simp add: bit_simps bit_80)
  qed
  have c': "k < 7" if "bit c k" for k
    using that c bit_imp_le_length [OF that] by (cases "k = 7") auto
  show d: "drop_bit 7 (push_bit 7 r OR ucast c) = r"
    by (rule bit_word_eqI) (use r not_less in \<open>auto simp: bit_simps dest: c'\<close>)
  show m: "ucast ((push_bit 7 r OR ucast c) AND 0x7f) = c"
    unfolding mask_7 by (rule bit_word_eqI) (auto simp: bit_simps dest: c')
  show "push_bit 7 r OR ucast c \<noteq> 0" if "r \<noteq> 0 \<or> c \<noteq> 0"
    using d m that by auto
qed

lemma stop_digit:
  assumes "drop_bit 57 (r :: u64) = 0" "(c :: u8) AND 0x80 \<noteq> 0"
  shows "drop_bit 7 (push_bit 7 r OR ucast (c AND 0x7f)) = r"
    "ucast (push_bit 7 r OR ucast (c AND 0x7f)) OR 0x80 = c"
proof -
  have "(c AND 0x7f) AND 0x80 = 0" by (simp add: and.assoc)
  note d = digit_cons [OF assms(1) this]
  show "drop_bit 7 (push_bit 7 r OR ucast (c AND 0x7f)) = r" by (rule d)
  have "bit c 7"
  proof (rule ccontr)
    assume "\<not> bit c 7"
    then have "c AND 0x80 = 0" by (intro bit_word_eqI) (auto simp: bit_simps bit_80)
    then show False using assms(2) by simp
  qed
  show "ucast (push_bit 7 r OR ucast (c AND 0x7f)) OR 0x80 = c"
  proof (rule bit_word_eqI)
    fix n assume "n < LENGTH(8)"
    then have "n = 7 \<or> n < 7" by auto
    then show "bit (ucast (push_bit 7 r OR ucast (c AND 0x7f)) OR 0x80 :: u8) n = bit c n"
      unfolding mask_7 using \<open>bit c 7\<close> by (auto simp: bit_simps bit_80)
  qed
qed

lemma parse_reclen_canonical:
  "parse_reclen r buf = Some (w, rest) \<Longrightarrow> r \<noteq> 0 \<or> hd buf \<noteq> 0 \<Longrightarrow>
     \<exists>ds. buf = ds @ rest \<and> encode_digits (drop_bit 7 w) [ucast w OR 0x80] = encode_digits r ds"
proof (induction r buf rule: parse_reclen.induct)
  case (2 r c buf)
  show ?case
  proof (cases "c AND 0x80 \<noteq> 0")
    case True
    then have w: "w = push_bit 7 r OR ucast (c AND 0x7f)" "rest = buf" "drop_bit 57 r = 0"
      using 2(2) by (auto split: if_splits)
    then show ?thesis using stop_digit [OF w(3) True] by (intro exI [of _ "[c]"]) simp
  next
    case False
    then have w: "parse_reclen (push_bit 7 r OR ucast c) buf = Some (w, rest)" "drop_bit 57 r = 0"
      using 2(2) by (auto split: if_splits)
    note d = digit_cons [OF w(2), of c, OF False [simplified]]
    have nz: "push_bit 7 r OR ucast c \<noteq> 0" using d(3) 2(3) by simp
    from 2(1) [OF _ _ w(1)] w(2) False nz obtain ds where ds: "buf = ds @ rest"
        "encode_digits (drop_bit 7 w) [ucast w OR 0x80] = encode_digits (push_bit 7 r OR ucast c) ds"
      by auto
    have "encode_digits (push_bit 7 r OR ucast c) ds = encode_digits r (c # ds)"
      unfolding encode_digits.simps [of "push_bit 7 r OR ucast c"] d(1,2) using nz by simp
    then show ?thesis using ds by (intro exI [of _ "c # ds"]) simp
  qed
qed simp

lemma parse_subfield_canonical:
  assumes "parse_subfield buf = Inr (field, rest)"
  shows "buf = encode_subfield_length (length field) @ field @ rest" "length field < 2 ^ 64"
proof -
  from assms obtain w r where w: "parse_reclen 0 buf = Some (w, r)" "hd buf \<noteq> 0"
      "unat w \<le> length r" "field = take (unat w) r" "rest = drop (unat w) r"
    by (auto simp: parse_subfield_def split: if_splits option.splits)
  from parse_reclen_canonical [OF w(1)] w(2) obtain ds where
    ds: "buf = ds @ r" "encode_digits (drop_bit 7 w) [ucast w OR 0x80] = ds"
    by (auto simp: encode_digits.simps [of 0])
  have len: "length field = unat w" using w by simp
  then show "buf = encode_subfield_length (length field) @ field @ rest"
    using ds w by (simp add: encode_subfield_length_def Let_def)
  have "(unsigned w :: nat) < 2 ^ LENGTH(64)" by (rule unsigned_less)
  then show "length field < 2 ^ 64" using len by simp
qed

lemma subfield_digits_eq:
  "length (encode_digits len buf) = (if len = 0 then 0 else subfield_digits len) + length buf"
proof (induction len buf rule: encode_digits.induct)
  case (1 len buf)
  then show ?case
    by (cases "len = 0") (simp_all add: encode_digits.simps [of len buf] encode_digits.simps [of 0 buf] subfield_digits.simps [of len])
qed

lemma encode_subfield_length_size:
  "length (encode_subfield_length n) = subfield_digits (of_nat n)"
  by (simp add: encode_subfield_length_def Let_def subfield_digits_eq subfield_digits.simps [of "of_nat n"])

section \<open>Buffers\<close>

lemma length_encode_fd [simp]: "length (encode_fd v) = 4"
  by (simp add: encode_fd_def)

lemma parse_fd_length: "parse_fd buf = Inr v \<Longrightarrow> length buf = 4"
  by (auto simp: parse_fd_def split: list.splits)

lemma length_encode_raw_fd: "length (fst (encode_raw_fd fd fds)) = 4"
  by (auto simp: encode_raw_fd_def split: option.splits prod.splits)

lemma encode_buffer_length:
  "length (fst (encode_buffer buf conv fds)) = length buf"
  "length (fst (encode_fields ibuf conv fds)) = length ibuf"
proof (induction buf conv fds and ibuf conv fds rule: encode_buffer_encode_fields.induct)
  case (1 buf conv fds)
  then show ?case
    by (auto simp: encode_buffer.simps [of buf] length_encode_raw_fd parse_fd_length
        split: list.splits sum.splits prod.splits dest!: parse_fd_length)
      (metis length_encode_raw_fd fst_conv)
next
  case (2 ibuf conv fds)
  show ?case
  proof (cases "parse_subfield ibuf")
    case (Inr p)
    obtain f r where p: "p = (f, r)" by (cases p)
    note ps = Inr [unfolded p]
    obtain out fds1 where e: "encode_buffer f conv fds = (out, fds1)" by (cases "encode_buffer f conv fds")
    obtain outs fds2 where e2: "encode_fields r conv fds1 = (outs, fds2)" by (cases "encode_fields r conv fds1")
    have "length out = length f" using 2(1) [OF ps refl] e by simp
    moreover have "length outs = length r" using 2(2) [OF ps refl e [symmetric] refl] e e2 by simp
    moreover have "length ibuf = length (encode_subfield_length (length f)) + length f + length r"
      by (subst parse_subfield_canonical(1) [OF ps]) simp
    ultimately show ?thesis unfolding encode_fields.simps [of ibuf] ps by (simp add: e e2)
  qed (simp add: encode_fields.simps [of ibuf])
qed

lemma map_fd_cases:
  obtains (found) i where "i < length t" "t ! i = fd" "map_fd fd t = (i, t)"
    | (new) "fd \<notin> set t" "map_fd fd t = (length t, t @ [fd])"
proof (cases "find (\<lambda>i. t ! i = fd) [0..<length t]")
  case None
  then have "fd \<notin> set t" by (auto simp: find_None_iff in_set_conv_nth)
  then show ?thesis using None new by (simp add: map_fd_def)
next
  case (Some i)
  then have "i < length t" "t ! i = fd" by (auto simp: find_Some_iff)
  then show ?thesis using Some found by (simp add: map_fd_def)
qed

text \<open>How a table of file descriptors may grow by at most \<open>k\<close> entries.\<close>

definition fds_grow :: "nat \<Rightarrow> int list option \<Rightarrow> int list option \<Rightarrow> bool" where
  "fds_grow k fds fds' \<longleftrightarrow>
     (case fds of
        None \<Rightarrow> fds' = None
      | Some t \<Rightarrow>
          \<exists>u. fds' = Some (t @ u) \<and> length u \<le> k \<and> (\<forall>fd \<in> set u. 0 \<le> fd)
            \<and> (distinct t \<longrightarrow> distinct (t @ u)))"

lemma fds_grow_refl: "fds_grow k fds fds"
  by (auto simp: fds_grow_def split: option.splits)

lemma fds_grow_trans: "fds_grow j a b \<Longrightarrow> fds_grow k b c \<Longrightarrow> fds_grow (j + k) a c"
proof (cases a)
  case (Some t)
  assume "fds_grow j a b" "fds_grow k b c"
  moreover from this obtain u v where "b = Some (t @ u)" "c = Some ((t @ u) @ v)"
    using Some by (auto simp: fds_grow_def)
  ultimately show ?thesis using Some by (auto simp: fds_grow_def)
qed (auto simp: fds_grow_def)

lemma encode_raw_fd_grow: "fds_grow 1 fds (snd (encode_raw_fd fd fds))"
proof (cases fds)
  case (Some t)
  then show ?thesis
    by (cases rule: map_fd_cases [of t fd]) (auto simp: encode_raw_fd_def fds_grow_def)
qed (simp add: encode_raw_fd_def fds_grow_def)

lemma encode_buffer_grow:
  "fds_grow (countfds_buffer buf) fds (snd (encode_buffer buf conv fds))"
  "fds_grow (countfds_fields ibuf) fds (snd (encode_fields ibuf conv fds))"
proof (induction buf conv fds and ibuf conv fds rule: encode_buffer_encode_fields.induct)
  case (1 buf conv fds)
  then show ?case
    using encode_raw_fd_grow [of fds]
    by (auto simp: encode_buffer.simps [of buf] countfds_buffer.simps [of buf] fds_grow_refl
        split: list.splits sum.splits prod.splits) (metis snd_conv One_nat_def)
next
  case (2 ibuf conv fds)
  show ?case
  proof (cases "parse_subfield ibuf")
    case (Inr p)
    obtain f r where p: "p = (f, r)" by (cases p)
    note ps = Inr [unfolded p]
    obtain out fds1 where e: "encode_buffer f conv fds = (out, fds1)" by (cases "encode_buffer f conv fds")
    obtain outs fds2 where e2: "encode_fields r conv fds1 = (outs, fds2)" by (cases "encode_fields r conv fds1")
    have "fds_grow (countfds_buffer f) fds fds1" using 2(1) [OF ps refl] e by simp
    moreover have "fds_grow (countfds_fields r) fds1 fds2"
      using 2(2) [OF ps refl e [symmetric] refl] e e2 by simp
    ultimately show ?thesis
      unfolding encode_fields.simps [of ibuf] countfds_fields.simps [of ibuf] ps
      by (auto simp: e e2 intro: fds_grow_trans)
  qed (simp add: encode_fields.simps [of ibuf] fds_grow_refl)
qed

section \<open>Well-formed values\<close>

definition subfield_size :: "nat \<Rightarrow> nat" where
  "subfield_size n = n + subfield_digits (of_nat n)"

fun argdata_wf :: "argdata_t \<Rightarrow> bool" where
  "argdata_wf (AD_BUFFER buffer conv n) \<longleftrightarrow> n \<le> length buffer \<and> n < 2 ^ 64"
| "argdata_wf (AD_BINARY binary n) \<longleftrightarrow> 1 \<le> n \<and> n - 1 \<le> length binary \<and> n < 2 ^ 64"
| "argdata_wf (AD_STR str n) \<longleftrightarrow>
     2 \<le> n \<and> n - 2 \<le> length str \<and> n < 2 ^ 64 \<and> validate_string (take (n - 2) str) = None"
| "argdata_wf (AD_SEQ entries n) \<longleftrightarrow>
     n = 1 + (\<Sum>e \<leftarrow> entries. subfield_size (ad_length e)) \<and> n < 2 ^ 64 \<and> (\<forall>e \<in> set entries. argdata_wf e)"
| "argdata_wf (AD_MAP keys values n) \<longleftrightarrow>
     n = 1 + (\<Sum>e \<leftarrow> keys. subfield_size (ad_length e)) + (\<Sum>e \<leftarrow> values. subfield_size (ad_length e))
     \<and> n < 2 ^ 64 \<and> length keys = length values
     \<and> (\<forall>e \<in> set keys. argdata_wf e) \<and> (\<forall>e \<in> set values. argdata_wf e)"

lemma encode_size:
  "argdata_wf ad \<Longrightarrow> length (fst (encode ad fds)) = ad_length ad"
  "\<forall>e \<in> set es. argdata_wf e \<Longrightarrow>
     length (fst (encode_seq es fds)) = (\<Sum>e \<leftarrow> es. subfield_size (ad_length e))"
  "\<forall>e \<in> set ks. argdata_wf e \<Longrightarrow> \<forall>e \<in> set vs. argdata_wf e \<Longrightarrow> length ks = length vs \<Longrightarrow>
     length (fst (encode_map ks vs fds))
       = (\<Sum>e \<leftarrow> ks. subfield_size (ad_length e)) + (\<Sum>e \<leftarrow> vs. subfield_size (ad_length e))"
  by (induction ad fds and es fds and ks vs fds rule: encode_encode_seq_encode_map.induct)
    (auto simp: encode_buffer_length subfield_size_def encode_subfield_length_size split: prod.splits)

lemma encode_grow:
  "fds_grow (countfds ad) fds (snd (encode ad fds))"
  "fds_grow (countfds_seq es) fds (snd (encode_seq es fds))"
  "fds_grow (countfds_map ks vs) fds (snd (encode_map ks vs fds))"
  by (induction ad fds and es fds and ks vs fds rule: encode_encode_seq_encode_map.induct)
    (auto simp: encode_buffer_grow fds_grow_refl split: prod.splits intro: fds_grow_trans, metis fds_grow_trans)

end
