(* ===== verification/ArgdataFds.thy ===== *)
theory ArgdataFds
  imports ArgdataCorrect
begin

text \<open>
  Serialization keeps the file descriptors: reading the bytes with the table that
  \<open>argdata_serialize()\<close> returned gives, at every position, the file descriptor that the value held
  there.
\<close>

section \<open>The file descriptors of a value\<close>

function buffer_fds :: "(nat \<Rightarrow> int) \<Rightarrow> u8 list \<Rightarrow> int list"
  and fields_fds :: "(nat \<Rightarrow> int) \<Rightarrow> u8 list \<Rightarrow> int list" where
  "buffer_fds conv buffer =
     (case buffer of
        [] \<Rightarrow> []
      | t # ibuf \<Rightarrow>
          if t = ADT_MAP \<or> t = ADT_SEQ then fields_fds conv ibuf
          else if t = ADT_FD then (case parse_fd ibuf of Inr fd \<Rightarrow> [conv (unat fd)] | Inl e \<Rightarrow> [])
          else [])"
| "fields_fds conv ibuf =
     (case parse_subfield ibuf of
        Inl e \<Rightarrow> []
      | Inr (field, rest) \<Rightarrow> buffer_fds conv field @ fields_fds conv rest)"
  by pat_completeness auto
termination
  by (relation "measure (\<lambda>x. case x of Inl (_, buf) \<Rightarrow> 2 * length buf | Inr (_, buf) \<Rightarrow> 2 * length buf + 1)")
    (auto dest: parse_subfield_length)

declare buffer_fds.simps [simp del] fields_fds.simps [simp del]

function (sequential) ad_fds :: "argdata_t \<Rightarrow> int list"
  and ad_fds_seq :: "argdata_t list \<Rightarrow> int list"
  and ad_fds_map :: "argdata_t list \<Rightarrow> argdata_t list \<Rightarrow> int list" where
  "ad_fds (AD_BUFFER buffer conv n) = buffer_fds (the conv) (take n buffer)"
| "ad_fds (AD_MAP keys values n) = ad_fds_map keys values"
| "ad_fds (AD_SEQ entries n) = ad_fds_seq entries"
| "ad_fds (AD_BINARY binary n) = []"
| "ad_fds (AD_STR str n) = []"
| "ad_fds_seq [] = []"
| "ad_fds_seq (e # es) = ad_fds e @ ad_fds_seq es"
| "ad_fds_map (k # ks) (v # vs) = ad_fds k @ ad_fds v @ ad_fds_map ks vs"
| "ad_fds_map _ _ = []"
  by pat_completeness auto
termination
  by (relation "measure (case_sum size
      (case_sum (size_list size) (\<lambda>(ks, vs). size_list size ks + size_list size vs)))") auto

text \<open>A table as a conversion function, and an invalid descriptor as it appears after reading.\<close>

definition table_fd :: "int list \<Rightarrow> nat \<Rightarrow> int" where
  "table_fd t i = (if i < length t then t ! i else - 1)"

definition norm_fd :: "int \<Rightarrow> int" where
  "norm_fd fd = (if fd < 0 then - 1 else fd)"

section \<open>Encoding keeps the descriptors\<close>

lemma parse_encode_fd: "parse_fd (encode_fd v) = Inr v"
proof -
  have "push_bit 24 (ucast (ucast (drop_bit 24 v) :: u8)) OR push_bit 16 (ucast (ucast (drop_bit 16 v) :: u8))
      OR push_bit 8 (ucast (ucast (drop_bit 8 v) :: u8)) OR ucast (ucast v :: u8) = v" (is "?w = v")
  proof (rule bit_word_eqI)
    fix n assume n: "n < LENGTH(32)"
    have h: "16 + (n - 16) = (if 16 \<le> n then n else 16)" "24 + (n - 24) = (if 24 \<le> n then n else 24)" by simp_all
    show "bit ?w n = bit v n" using n by (auto simp: bit_simps h split: if_splits)
  qed
  then show ?thesis by (simp add: parse_fd_def encode_fd_def)
qed

lemma encode_raw_fd_table:
  assumes "encode_raw_fd fd (Some t) = (out, Some t')" "length (t' @ x) < 2 ^ 32"
  shows "parse_fd out = Inr v \<Longrightarrow> table_fd (t' @ x) (unat v) = norm_fd fd"
proof -
  assume p: "parse_fd out = Inr v"
  show ?thesis
  proof (cases "fd < 0")
    case True
    then have "v = 0xffffffff" using assms(1) p by (auto simp: encode_raw_fd_def parse_encode_fd)
    then show ?thesis using True assms(2) by (simp add: table_fd_def norm_fd_def)
  next
    case False
    obtain i where i: "map_fd fd t = (i, t')" "out = encode_fd (of_nat i)"
      using assms(1) False by (auto simp: encode_raw_fd_def split: prod.splits)
    have m: "i < length t'" "t' ! i = fd"
      using i(1) by (cases rule: map_fd_cases [of t fd]; auto)+
    have "v = of_nat i" using p i(2) by (simp add: parse_encode_fd)
    then have "unat v = i" using m(1) assms(2) by (simp add: unat_of_nat take_bit_nat_eq_self)
    then show ?thesis using m False by (simp add: table_fd_def norm_fd_def nth_append)
  qed
qed

lemma encode_buffer_Some:
  "\<exists>out u. encode_buffer buf conv (Some t) = (out, Some (t @ u))"
  "\<exists>out u. encode_fields buf conv (Some t) = (out, Some (t @ u))"
  using encode_buffer_grow(1) [of buf "Some t" conv] encode_buffer_grow(2) [of buf "Some t" conv]
  by (cases "encode_buffer buf conv (Some t)"; cases "encode_fields buf conv (Some t)"; auto simp: fds_grow_def)+

lemma parse_raw_fd: "\<exists>v. parse_fd (fst (encode_raw_fd fd fds)) = Inr v"
  by (auto simp: encode_raw_fd_def parse_encode_fd split: option.splits prod.splits)

lemma encode_buffer_fds:
  "fds = Some t \<Longrightarrow> encode_buffer buf conv fds = (out, Some t') \<Longrightarrow> length (t' @ x) < 2 ^ 32 \<Longrightarrow>
     length buf < 2 ^ 64 \<Longrightarrow>
     buffer_fds (table_fd (t' @ x)) out = map norm_fd (buffer_fds (the conv) buf)"
  "fds = Some t \<Longrightarrow> encode_fields ibuf conv fds = (out, Some t') \<Longrightarrow> length (t' @ x) < 2 ^ 32 \<Longrightarrow>
     length ibuf < 2 ^ 64 \<Longrightarrow>
     fields_fds (table_fd (t' @ x)) out = map norm_fd (fields_fds (the conv) ibuf)"
proof (induction buf conv fds and ibuf conv fds arbitrary: t out t' x and t out t' x
    rule: encode_buffer_encode_fields.induct)
  case (1 buf conv fds)
  show ?case
  proof (cases buf)
    case Nil
    then show ?thesis using 1(3) by (simp add: encode_buffer.simps buffer_fds.simps)
  next
    case (Cons b ibuf)
    consider (fields) "b = ADT_MAP \<or> b = ADT_SEQ"
      | (fd) raw where "b = ADT_FD" "\<not> (b = ADT_MAP \<or> b = ADT_SEQ)" "parse_fd ibuf = Inr raw"
      | (other) "\<not> (b = ADT_MAP \<or> b = ADT_SEQ)" "b = ADT_FD \<longrightarrow> (\<exists>e. parse_fd ibuf = Inl e)"
      by (cases "parse_fd ibuf") (auto simp: ADT_defs)
    then show ?thesis
    proof cases
      case fields
      then obtain o2 where o2: "encode_fields ibuf conv fds = (o2, Some t')" "out = b # o2"
        using 1(3) unfolding Cons encode_buffer.simps [of "b # ibuf"] by (auto split: prod.splits)
      from 1(1) [OF Cons fields 1(2) o2(1) 1(4)] 1(5) show ?thesis
        using fields Cons o2 by (simp add: buffer_fds.simps)
    next
      case fd
      obtain o2 where o2: "encode_raw_fd (the conv (unat raw)) (Some t) = (o2, Some t')" "out = b # o2"
        using 1(2,3) fd unfolding Cons encode_buffer.simps [of "b # ibuf"] by (auto split: prod.splits)
      obtain v where v: "parse_fd o2 = Inr v"
        using parse_raw_fd [of "the conv (unat raw)" "Some t"] o2 by auto
      then show ?thesis
        using encode_raw_fd_table [OF o2(1) 1(4) v] fd Cons o2 by (simp add: buffer_fds.simps)
    next
      case other
      then have "out = buf" "t' = t" using 1(2,3) unfolding Cons encode_buffer.simps [of "b # ibuf"] by (auto split: sum.splits if_splits)
      then show ?thesis using other Cons by (auto simp: buffer_fds.simps split: sum.splits)
    qed
  qed
next
  case (2 ibuf conv fds)
  show ?case
  proof (cases "parse_subfield ibuf")
    case (Inl e)
    then have "out = ibuf" using 2(4) by (simp add: encode_fields.simps [of ibuf])
    then show ?thesis using Inl by (simp add: fields_fds.simps)
  next
    case (Inr p)
    obtain f r where p: "p = (f, r)" by (cases p)
    note ps = Inr [unfolded p]
    obtain o1 u1 where e: "encode_buffer f conv fds = (o1, Some (t @ u1))"
      using encode_buffer_Some(1) [of f conv t] 2(3) by auto
    obtain o2 u2 where e2: "encode_fields r conv (Some (t @ u1)) = (o2, Some ((t @ u1) @ u2))"
      using encode_buffer_Some(2) [of r conv "t @ u1"] by auto
    have o: "out = encode_subfield_length (length f) @ o1 @ o2" "t' = (t @ u1) @ u2"
      using 2(4) ps e e2 by (simp_all add: encode_fields.simps [of ibuf])
    have len: "length o1 = length f" "length f < 2 ^ 64" "length f + length r < length ibuf"
      using encode_buffer_length(1) [of f conv fds] e parse_subfield_length [OF ps]
        parse_subfield_canonical(2) [OF ps] by auto
    have parse: "parse_subfield out = Inr (o1, o2)"
      unfolding o using parse_encode_length [of o1 o2] len by simp
    have "buffer_fds (table_fd ((t @ u1) @ (u2 @ x))) o1 = map norm_fd (buffer_fds (the conv) f)"
      by (rule 2(1) [OF ps refl 2(3) e]) (use 2(5) o len in simp_all)
    moreover have "fields_fds (table_fd (t' @ x)) o2 = map norm_fd (fields_fds (the conv) r)"
      by (rule 2(2) [OF ps refl e [symmetric] refl refl]) (use e2 o 2(5,6) len in simp_all)
    ultimately show ?thesis
      unfolding fields_fds.simps [of _ out] fields_fds.simps [of _ ibuf] parse ps by (simp add: o)
  qed
qed

lemma encode_Some:
  "\<exists>out u. encode ad (Some t) = (out, Some (t @ u))"
  "\<exists>out u. encode_seq es (Some t) = (out, Some (t @ u))"
  "\<exists>out u. encode_map ks vs (Some t) = (out, Some (t @ u))"
  using encode_grow(1) [of ad "Some t"] encode_grow(2) [of es "Some t"] encode_grow(3) [of ks vs "Some t"]
  by (cases "encode ad (Some t)"; cases "encode_seq es (Some t)"; cases "encode_map ks vs (Some t)";
      auto simp: fds_grow_def)+

lemma argdata_wf_length: "argdata_wf ad \<Longrightarrow> ad_length ad < 2 ^ 64"
  by (cases ad) auto

lemma fields_fds_Cons:
  assumes "argdata_wf ad" "encode ad fds = (out, fds')"
  shows "fields_fds conv (encode_subfield_length (ad_length ad) @ out @ rest)
    = buffer_fds conv out @ fields_fds conv rest"
proof -
  have "length out = ad_length ad" using encode_size(1) [OF assms(1), of fds] assms(2) by simp
  then have "parse_subfield (encode_subfield_length (ad_length ad) @ out @ rest) = Inr (out, rest)"
    using parse_encode_length [of out rest] argdata_wf_length [OF assms(1)] by simp
  then show ?thesis by (simp add: fields_fds.simps [of conv "_ @ _"])
qed

lemma fields_fds_Nil: "fields_fds conv [] = []"
  by (simp add: fields_fds.simps parse_subfield_def)

lemma buffer_fds_leaf:
  "buffer_fds conv [] = []" "buffer_fds conv (ADT_BINARY # buf) = []" "buffer_fds conv (ADT_STR # buf) = []"
  by (subst buffer_fds.simps, simp add: ADT_defs)+

lemma encode_fds:
  "argdata_wf ad \<Longrightarrow> fds = Some t \<Longrightarrow> encode ad fds = (out, Some t') \<Longrightarrow> length (t' @ x) < 2 ^ 32 \<Longrightarrow>
     buffer_fds (table_fd (t' @ x)) out = map norm_fd (ad_fds ad)"
  "\<forall>e \<in> set es. argdata_wf e \<Longrightarrow> fds = Some t \<Longrightarrow> encode_seq es fds = (out, Some t') \<Longrightarrow>
     length (t' @ x) < 2 ^ 32 \<Longrightarrow> fields_fds (table_fd (t' @ x)) out = map norm_fd (ad_fds_seq es)"
  "\<forall>e \<in> set ks. argdata_wf e \<Longrightarrow> \<forall>e \<in> set vs. argdata_wf e \<Longrightarrow> fds = Some t \<Longrightarrow>
     encode_map ks vs fds = (out, Some t') \<Longrightarrow>
     length (t' @ x) < 2 ^ 32 \<Longrightarrow> fields_fds (table_fd (t' @ x)) out = map norm_fd (ad_fds_map ks vs)"
proof (induction ad fds and es fds and ks vs fds arbitrary: t out t' x and t out t' x and t out t' x
    rule: encode_encode_seq_encode_map.induct)
  case (1 buffer conv n fds)
  then show ?case using encode_buffer_fds(1) [of fds t "take n buffer" conv out t' x] by simp
next
  case (3 keys vs n fds)
  then obtain o2 where "encode_map keys vs fds = (o2, Some t')" "out = ADT_MAP # o2"
    by (auto split: prod.splits)
  then show ?case using 3 by (simp add: buffer_fds.simps)
next
  case (4 entries n fds)
  then obtain o2 where "encode_seq entries fds = (o2, Some t')" "out = ADT_SEQ # o2"
    by (auto split: prod.splits)
  then show ?case using 4 by (simp add: buffer_fds.simps)
next
  case (7 e es fds)
  obtain o1 u1 where e: "encode e fds = (o1, Some (t @ u1))" using encode_Some(1) [of e t] 7(4) by auto
  obtain o2 u2 where e2: "encode_seq es (Some (t @ u1)) = (o2, Some ((t @ u1) @ u2))"
    using encode_Some(2) [of es "t @ u1"] by auto
  have o: "out = encode_subfield_length (ad_length e) @ o1 @ o2" "t' = (t @ u1) @ u2"
    using 7(5) e e2 by simp_all
  have "buffer_fds (table_fd ((t @ u1) @ (u2 @ x))) o1 = map norm_fd (ad_fds e)"
    by (rule 7(1) [OF _ 7(4) e]) (use 7(3,6) o in simp_all)
  moreover have "fields_fds (table_fd (t' @ x)) o2 = map norm_fd (ad_fds_seq es)"
    by (rule 7(2) [OF e [symmetric] refl _ refl]) (use 7(3,6) o e2 in simp_all)
  moreover have "argdata_wf e" using 7(3) by simp
  ultimately show ?case using fields_fds_Cons [OF _ e] by (simp add: o)
next
  case (8 k ks v vs fds)
  obtain o1 u1 where e: "encode k fds = (o1, Some (t @ u1))" using encode_Some(1) [of k t] 8(6) by auto
  obtain o2 u2 where e2: "encode v (Some (t @ u1)) = (o2, Some ((t @ u1) @ u2))"
    using encode_Some(1) [of v "t @ u1"] by auto
  obtain o3 u3 where e3: "encode_map ks vs (Some ((t @ u1) @ u2)) = (o3, Some (((t @ u1) @ u2) @ u3))"
    using encode_Some(3) [of ks vs "(t @ u1) @ u2"] by auto
  have o: "out = encode_subfield_length (ad_length k) @ o1 @ encode_subfield_length (ad_length v) @ o2 @ o3"
      "t' = ((t @ u1) @ u2) @ u3"
    using 8(7) e e2 e3 by simp_all
  have "buffer_fds (table_fd ((t @ u1) @ (u2 @ u3 @ x))) o1 = map norm_fd (ad_fds k)"
    by (rule 8(1) [OF _ 8(6) e]) (use 8(4,8) o in simp_all)
  moreover have "buffer_fds (table_fd (((t @ u1) @ u2) @ (u3 @ x))) o2 = map norm_fd (ad_fds v)"
    by (rule 8(2) [OF e [symmetric] refl _ refl e2]) (use 8(5,8) o in simp_all)
  moreover have "fields_fds (table_fd (t' @ x)) o3 = map norm_fd (ad_fds_map ks vs)"
    by (rule 8(3) [OF e [symmetric] refl e2 [symmetric] refl _ _ refl]) (use 8(4,5,8) o e3 in simp_all)
  moreover have "argdata_wf k" "argdata_wf v" using 8(4,5) by simp_all
  ultimately show ?case using fields_fds_Cons [OF _ e] fields_fds_Cons [OF _ e2] by (simp add: o)
qed (auto simp: buffer_fds_leaf fields_fds_Nil split: if_splits)

section \<open>Properties\<close>

text \<open>
  C13: serialization keeps every file descriptor: the descriptors found in the serialized bytes, read
  through the table that \<open>argdata_serialize()\<close> filled, are those of the value in the same order,
  with the invalid ones still invalid. The table has no duplicates and is no longer than
  \<open>argdata_serialized_length()\<close> announces.
\<close>

theorem serialize_keeps_fds:
  assumes "argdata_wf ad" "argdata_serialize ad True = (out, Some fds)" "length fds < 2 ^ 32"
  shows "buffer_fds (table_fd fds) out = map norm_fd (ad_fds ad)
    \<and> distinct fds \<and> length fds \<le> snd (argdata_serialized_length ad)"
proof -
  have e: "encode ad (Some []) = (out, Some fds)" using assms(2) by (simp add: argdata_serialize_def)
  have "fds_grow (countfds ad) (Some []) (Some fds)" using encode_grow(1) [of ad "Some []"] e by simp
  then have "distinct fds \<and> length fds \<le> countfds ad" by (auto simp: fds_grow_def)
  then show ?thesis using encode_fds(1) [OF assms(1) refl e, of "[]"] assms(3)
    by (simp add: argdata_serialized_length_def)
qed

lemma encode_created_fd:
  "encode_buffer (take 5 buf_fd) (Some (fixed_fd fd)) fds
     = (ADT_FD # fst (encode_raw_fd fd fds), snd (encode_raw_fd fd fds))"
  unfolding buf_fd_def
  by (subst encode_buffer.simps) (simp add: parse_fd_def fixed_fd_def ADT_defs split: prod.splits)

lemma small_prefix:
  "encode_subfield_length 5 = [0x85]" "subfield_digits 5 = 1" "subfield_digits 4 = 1" "subfield_digits 2 = 1"
  by (simp_all add: encode_subfield_length_def encode_digits.simps [of 0] subfield_digits.simps [of 5]
      subfield_digits.simps [of 4] subfield_digits.simps [of 2])

theorem serialize_keeps_fds_witness:
  "buffer_fds (table_fd [7, 9]) [7, 0x85, 3, 0, 0, 0, 0, 0x85, 3, 0, 0, 0, 1, 0x85, 3, 0, 0, 0, 0]
     = map norm_fd (ad_fds (AD_SEQ (map (\<lambda>fd. AD_BUFFER buf_fd (Some (fixed_fd fd)) 5) [7, 9, 7]) 19))
   \<and> distinct [7, 9 :: int]
   \<and> length [7, 9 :: int]
       \<le> snd (argdata_serialized_length (AD_SEQ (map (\<lambda>fd. AD_BUFFER buf_fd (Some (fixed_fd fd)) 5) [7, 9, 7]) 19))"
proof (rule serialize_keeps_fds)
  show "argdata_wf (AD_SEQ (map (\<lambda>fd. AD_BUFFER buf_fd (Some (fixed_fd fd)) 5) [7, 9, 7]) 19)"
    by (simp add: subfield_size_def small_prefix buf_fd_def)
  show "argdata_serialize (AD_SEQ (map (\<lambda>fd. AD_BUFFER buf_fd (Some (fixed_fd fd)) 5) [7, 9, 7]) 19) True
      = ([7, 0x85, 3, 0, 0, 0, 0, 0x85, 3, 0, 0, 0, 1, 0x85, 3, 0, 0, 0, 0], Some [7, 9])"
    by (simp add: argdata_serialize_def encode_created_fd encode_raw_fd_def map_fd_def encode_fd_def
        small_prefix ADT_defs upt_rec)
qed simp

text \<open>
  C17: a well-formed value is serialized in exactly as many bytes as
  \<open>argdata_serialized_length()\<close> announces, so that \<open>argdata_serialize()\<close> fills the buffer of
  its caller and does not write behind it, whether or not a table of descriptors is passed.
\<close>

theorem serialize_size:
  assumes "argdata_wf ad"
  shows "length (fst (argdata_serialize ad has_fds)) = fst (argdata_serialized_length ad)"
  using assms by (simp add: argdata_serialize_def argdata_serialized_length_def encode_size)

theorem serialize_size_witness:
  "length (fst (argdata_serialize (AD_SEQ [AD_STR [0x41, 0x42] 4, argdata_true] 9) True))
     = fst (argdata_serialized_length (AD_SEQ [AD_STR [0x41, 0x42] 4, argdata_true] 9))"
  by (rule serialize_size)
    (simp add: subfield_size_def small_prefix argdata_true_def validate_string.simps [of "[0x41, 0x42]"]
      validate_string.simps [of "[0x42]"] validate_string.simps [of "[]"])

end
