(* ===== verification/ArgdataNumbers.thy ===== *)
theory ArgdataNumbers
  imports ArgdataCorrect
begin

text \<open>
  Round trips of the scalar values: reading a number or a timestamp that was created gives the
  value back, or \<open>ERANGE\<close> when it is not in the range the caller asked for.
\<close>

section \<open>Big-endian numbers\<close>

fun be_val :: "u8 list \<Rightarrow> int" where
  "be_val [] = 0"
| "be_val (b # bs) = uint b * 256 ^ length bs + be_val bs"

definition be_sval :: "u8 list \<Rightarrow> int" where
  "be_sval bs = be_val bs - (if bs \<noteq> [] \<and> uint (hd bs) \<ge> 128 then 256 ^ length bs else 0)"

lemma uint_u8: "0 \<le> uint (b :: u8)" "uint (b :: u8) < 256"
proof -
  have "(unsigned b :: int) < 2 ^ LENGTH(8)" by (rule unsigned_less)
  then show "uint b < 256" by simp
qed (rule unsigned_greater_eq)

lemma uint_u64: "uint (v :: u64) < 2 ^ 64"
proof -
  have "(unsigned v :: int) < 2 ^ LENGTH(64)" by (rule unsigned_less)
  then show ?thesis by simp
qed

lemma be_val_range: "0 \<le> be_val bs \<and> be_val bs < 256 ^ length bs"
proof (induction bs)
  case (Cons b bs)
  have "uint b * 256 ^ length bs + be_val bs < (uint b + 1) * 256 ^ length bs"
    using Cons by (simp add: algebra_simps)
  also have "\<dots> \<le> 256 * 256 ^ length bs" using uint_u8 [of b] by (intro mult_right_mono) auto
  finally show ?case using Cons uint_u8 [of b] by simp
qed simp

lemma be_val_append: "be_val (xs @ ys) = be_val xs * 256 ^ length ys + be_val ys"
  by (induction xs) (simp_all add: algebra_simps power_add)

lemma be_val_foldl: "foldl (\<lambda>a b. a * 256 + uint b) k bs = k * 256 ^ length bs + be_val bs"
  by (induction bs arbitrary: k) (simp_all add: algebra_simps)

lemma byte_or: "push_bit 8 w OR ucast (b :: u8) = w * 256 + ucast b" for w :: u64
proof -
  have "push_bit 8 w AND ucast b = 0"
    by (rule bit_word_eqI) (auto simp: bit_simps dest: bit_imp_le_length)
  then have "push_bit 8 w OR ucast b = push_bit 8 w + ucast b" by (simp add: disjunctive_add_eq_or)
  then show ?thesis by (simp add: push_bit_eq_mult)
qed

lemma foldl_bytes:
  "foldl (\<lambda>r b. push_bit 8 r OR ucast b) (word_of_int k :: u64) bs = word_of_int (k * 256 ^ length bs + be_val bs)"
proof (induction bs arbitrary: k)
  case (Cons b bs)
  have "push_bit 8 (word_of_int k :: u64) OR ucast b = word_of_int (k * 256 + uint b)"
    unfolding byte_or by simp
  then show ?case using Cons [of "k * 256 + uint b"] by (simp add: algebra_simps)
qed simp

lemma foldl_bytes_0: "foldl (\<lambda>r b. push_bit 8 r OR ucast b) (0 :: u64) bs = word_of_int (be_val bs)"
  using foldl_bytes [of 0 bs] by simp

lemma uint_word_of_int_u64: "0 \<le> k \<Longrightarrow> k < 2 ^ 64 \<Longrightarrow> uint (word_of_int k :: u64) = k"
  by (simp add: unsigned_of_int take_bit_int_eq_self)

section \<open>Unsigned integers\<close>

lemma uint_ucast_low: "uint (ucast (v :: u64) :: u8) = uint v mod 256"
  by (simp add: unsigned_ucast_eq take_bit_eq_mod)

lemma uint_drop_8: "uint (drop_bit 8 v) = uint v div 256" for v :: u64
proof -
  have "uint (drop_bit 8 v) = int (unat (drop_bit 8 v))" by simp
  also have "\<dots> = int (unat v) div 256" unfolding unat_drop_bit_8 by (simp only: zdiv_int of_nat_numeral)
  finally show ?thesis by simp
qed

lemma int_digits_u_val: "be_val (int_digits_u v buf) = uint v * 256 ^ length buf + be_val buf"
proof (induction v buf rule: int_digits_u.induct)
  case (1 v buf)
  show ?case
  proof (cases "v = 0")
    case False
    have "uint v div 256 * (256 * 256 ^ length buf) + uint v mod 256 * 256 ^ length buf = uint v * 256 ^ length buf"
      by (simp only: mult.assoc [symmetric] distrib_right [symmetric] div_mult_mod_eq)
    then show ?thesis using 1 False
      by (simp add: int_digits_u.simps [of v buf] uint_drop_8 uint_ucast_low)
  qed (simp add: int_digits_u.simps)
qed

lemma int_digits_u_hd: "(v = 0 \<Longrightarrow> hd buf \<noteq> 0) \<Longrightarrow> hd (int_digits_u v buf) \<noteq> 0"
proof (induction v buf rule: int_digits_u.induct)
  case (1 v buf)
  have "(ucast v :: u8) \<noteq> 0" if "drop_bit 8 v = 0" "v \<noteq> 0"
  proof
    assume "(ucast v :: u8) = 0"
    then have "uint v mod 256 = 0" using uint_ucast_low [of v] by simp
    moreover have "uint v div 256 = 0" using uint_drop_8 [of v] that by simp
    ultimately have "uint v = 0" using div_mult_mod_eq [of "uint v" 256] by simp
    then show False using that by (simp add: unsigned_eq_0_iff)
  qed
  then show ?case using 1 by (cases "v = 0") (simp_all add: int_digits_u.simps [of v buf] int_digits_u.simps [of 0 buf])
qed

lemma int_digits_u_nonempty: "v \<noteq> 0 \<Longrightarrow> int_digits_u v [] \<noteq> []"
  using int_digits_u_val [of v "[]"] by (auto simp: unsigned_eq_0_iff)

lemma power_256_8: "(256 :: int) ^ 8 = 2 ^ 64" by simp

lemma int_digits_u_length: "v \<noteq> 0 \<Longrightarrow> length (int_digits_u v []) \<le> 8"
proof -
  assume v: "v \<noteq> 0"
  obtain b bs where d: "int_digits_u v [] = b # bs" using int_digits_u_nonempty [OF v] by (cases "int_digits_u v []") auto
  have "b \<noteq> 0" using int_digits_u_hd [of v "[]"] v d by simp
  then have "1 \<le> uint b" using uint_u8 [of b] by (metis int_one_le_iff_zero_less order_le_less uint_0_iff)
  then have "1 * 256 ^ length bs \<le> uint b * 256 ^ length bs" by (intro mult_right_mono) auto
  also have "\<dots> \<le> be_val (b # bs)" using be_val_range [of bs] by simp
  also have "\<dots> = uint v" using int_digits_u_val [of v "[]"] d by simp
  also have "\<dots> < 256 ^ 8" using uint_u64 [of v] unfolding power_256_8 by simp
  finally have "(256 :: int) ^ length bs < 256 ^ 8" by (simp only: mult_1)
  then have "length bs < 8" by (rule power_less_imp_less_exp [rotated]) simp
  then show ?thesis using d by simp
qed

text \<open>
  An unsigned integer that was created reads back as itself, and as \<open>ERANGE\<close> exactly when it
  exceeds the maximum of the caller, for every 64-bit value.
\<close>

theorem int_u_roundtrip:
  assumes "argdata_create_int_u False v = Inr ad"
  shows "argdata_get_int_u ad m = (if v > m then Inl ERANGE else Inr v)"
proof (cases "v = 0")
  case True
  then show ?thesis using assms
    by (auto simp: argdata_create_int_u_def argdata_get_int_u_def argdata_init_buffer_def parse_type_def
        int_digits_u.simps [of 0] Let_def)
next
  case False
  define ds where "ds = int_digits_u v []"
  define buf where "buf = (if hd ds AND 0x80 \<noteq> 0 then 0 # ds else ds)"
  have ds: "ds \<noteq> []" "length ds \<le> 8" "be_val ds = uint v"
    using int_digits_u_nonempty [OF False] int_digits_u_length [OF False] int_digits_u_val [of v "[]"]
    by (auto simp: ds_def)
  have ad: "ad = AD_BUFFER (ADT_INT # buf) None (length (ADT_INT # buf))"
    using assms ds(1) by (auto simp: argdata_create_int_u_def argdata_init_buffer_def ds_def [symmetric] buf_def Let_def)
  have "be_val buf = uint v" "buf \<noteq> []" "hd buf AND 0x80 = 0" "length buf \<le> 8 \<or> length buf = 9 \<and> hd buf = 0"
    using ds by (auto simp: buf_def)
  then show ?thesis
    by (auto simp: ad argdata_get_int_u_def parse_type_def foldl_bytes_0 Let_def)
qed

section \<open>Signed integers\<close>

lemma u8_sign: "(b :: u8) AND 0x80 = 0 \<longleftrightarrow> uint b < 128"
proof -
  have "bit b 7 \<longleftrightarrow> odd (uint b div 2 ^ 7)" by (metis bit_iff_odd bit_uint_iff uint_u8(2) bit_imp_le_length)
  also have "\<dots> \<longleftrightarrow> \<not> uint b < 128"
  proof -
    have "uint b div 128 = 0 \<or> uint b div 128 = 1" using uint_u8 [of b] by linarith
    then show ?thesis using uint_u8 [of b] by auto
  qed
  finally have "bit b 7 \<longleftrightarrow> \<not> uint b < 128" .
  moreover have "b AND 0x80 = 0 \<longleftrightarrow> \<not> bit b 7"
    using and_exp_eq_0_iff_not_bit [of b 7] by simp
  ultimately show ?thesis by simp
qed

lemma be_sval_snoc: "bs \<noteq> [] \<Longrightarrow> be_sval (bs @ [b]) = be_sval bs * 256 + uint b"
  by (simp add: be_sval_def be_val_append algebra_simps)

lemma int_digits_s_val:
  "- (2 ^ (8 * k + 7)) \<le> value \<Longrightarrow> value < 0 \<Longrightarrow>
     \<exists>ds. int_digits_s value buf = Some (ds @ buf) \<and> be_sval ds = value \<and> ds \<noteq> [] \<and> length ds \<le> Suc k"
proof (induction k arbitrary: "value" buf)
  case (0 "value")
  have b: "uint (word_of_int value :: u8) = value mod 256" by (simp add: unsigned_of_int take_bit_eq_mod)
  have v: "value div 256 = - 1" using 0 by (simp add: int_div_pos_eq [of _ _ _ "value + 256"])
  have m: "value mod 256 = value + 256" using minus_div_mult_eq_mod [of "value" 256] v by simp
  have "\<not> (word_of_int value :: u8) AND 0x80 = 0" unfolding u8_sign b m using 0 by simp
  then show ?case
    using 0 v b m by (subst int_digits_s.simps) (auto simp: Let_def be_sval_def)
next
  case (Suc k)
  have b: "uint (word_of_int value :: u8) = value mod 256" by (simp add: unsigned_of_int take_bit_eq_mod)
  show ?case
  proof (cases "value div 256 \<noteq> - 1 \<or> (word_of_int value :: u8) AND 0x80 = 0")
    case True
    have "- (2 ^ (8 * k + 7)) * 256 \<le> value" using Suc.prems(1) by (simp add: power_add)
    then have "- (2 ^ (8 * k + 7)) \<le> value div 256" using zdiv_mono1 [of _ "value" 256] by fastforce
    moreover have "value div 256 < 0" using Suc.prems(2) by (simp add: div_neg_pos_less0)
    ultimately obtain ds where ds: "int_digits_s (value div 256) (word_of_int value # buf) = Some (ds @ word_of_int value # buf)"
        "be_sval ds = value div 256" "ds \<noteq> []" "length ds \<le> Suc k"
      using Suc.IH [of "value div 256" "word_of_int value # buf"] by blast
    have "int_digits_s value buf = Some ((ds @ [word_of_int value]) @ buf)"
      by (subst int_digits_s.simps) (use True ds(1) in \<open>simp add: Let_def\<close>)
    moreover have "be_sval (ds @ [word_of_int value]) = value"
      unfolding be_sval_snoc [OF ds(3)] ds(2) b by simp
    ultimately show ?thesis using ds(4) by (intro exI [of _ "ds @ [word_of_int value]"]) simp
  next
    case False
    then have "value div 256 = - 1" "\<not> value mod 256 < 128" by (simp_all add: u8_sign b)
    moreover have "value mod 256 = value + 256" using minus_div_mult_eq_mod [of "value" 256] False by simp
    ultimately show ?thesis
      using b False by (intro exI [of _ "[word_of_int value]"], subst int_digits_s.simps) (auto simp: Let_def be_sval_def)
  qed
qed

lemma or_add:
  fixes res :: u64
  assumes "shift \<le> 56" "2 ^ (shift + 8) dvd uint res"
  shows "uint (res OR push_bit shift (ucast (b :: u8))) = uint res + uint b * 2 ^ shift"
proof -
  have p: "uint (push_bit shift (ucast b) :: u64) = uint b * 2 ^ shift"
  proof -
    have "uint b * 2 ^ shift < 256 * 2 ^ 56"
      using uint_u8 [of b] power_increasing [OF assms(1), of "2 :: int"]
      by (intro mult_less_le_imp_less) auto
    then have "take_bit 64 (uint b * 2 ^ shift) = uint b * 2 ^ shift"
      using uint_u8 [of b] by (intro take_bit_int_eq_self) auto
    moreover have "uint (ucast b :: u64) = uint b" by (rule uint_up_ucast) (simp add: is_up)
    ultimately show ?thesis unfolding unsigned_push_bit_eq by (simp add: push_bit_eq_mult)
  qed
  obtain q where q: "uint res = 2 ^ (shift + 8) * q" using assms(2) by (auto simp: dvd_def)
  have "uint res AND uint b * 2 ^ shift = 0"
  proof (rule bit_eqI)
    fix n
    have "uint b * 2 ^ shift = push_bit shift (uint b)" by (simp add: push_bit_eq_mult)
    moreover have "uint res = push_bit (shift + 8) q" using q by (simp add: push_bit_eq_mult)
    moreover have "k < 8" if "bit (uint b) k" for k using that bit_imp_le_length [of b k] by (simp add: bit_uint_iff)
    ultimately show "bit (uint res AND uint b * 2 ^ shift) n = bit (0 :: int) n"
      by (auto simp: bit_simps) force
  qed
  then show ?thesis unfolding uint_or p by (simp add: disjunctive_add_eq_or)
qed

lemma int_add_digits_val:
  "8 * length bs \<le> shift \<Longrightarrow> shift \<le> 56 \<Longrightarrow> 2 ^ (shift + 8) dvd uint res \<Longrightarrow>
     (\<exists>w. int_add_digits (b # bs) shift res = (shift - 8 * length bs, w)
       \<and> uint w = uint res + be_val (b # bs) * 2 ^ (shift - 8 * length bs))"
proof (induction bs arbitrary: b shift res)
  case Nil
  then show ?case using or_add [of shift res b] by (simp add: Let_def)
next
  case (Cons c bs)
  let ?res = "res OR push_bit shift (ucast b)"
  have u: "uint ?res = uint res + uint b * 2 ^ shift" using or_add Cons.prems by blast
  have s: "8 \<le> shift" using Cons.prems by simp
  have d: "2 ^ (shift - 8 + 8) dvd uint ?res"
  proof -
    have "(2 :: int) ^ shift dvd uint res"
      by (rule dvd_trans [OF le_imp_power_dvd Cons.prems(3)]) simp
    then show ?thesis unfolding u using s by simp
  qed
  have l: "8 * length bs \<le> shift - 8" "shift - 8 \<le> 56" using Cons.prems by simp_all
  obtain w where
    w: "int_add_digits (c # bs) (shift - 8) ?res = (shift - 8 - 8 * length bs, w)"
      "uint w = uint ?res + be_val (c # bs) * 2 ^ (shift - 8 - 8 * length bs)"
    using Cons.IH [OF l d, of c] by blast
  have e: "(2 :: int) ^ shift = 256 ^ length (c # bs) * 2 ^ (shift - 8 * length (c # bs))"
  proof -
    have "(256 :: int) ^ length (c # bs) = 2 ^ (8 * length (c # bs))" by (simp add: power_mult power_add)
    then show ?thesis using Cons.prems(1) by (simp add: power_add [symmetric])
  qed
  show ?case
  proof (intro exI conjI)
    show "int_add_digits (b # c # bs) shift res = (shift - 8 * length (c # bs), w)"
      using w(1) by (simp add: Let_def)
    show "uint w = uint res + be_val (b # c # bs) * 2 ^ (shift - 8 * length (c # bs))"
      unfolding w(2) u be_val.simps(2) [of b] e by (simp add: distrib_right)
  qed
qed

lemma sint_u64: "sint w = (if uint w < 2 ^ 63 then uint w else uint w - 2 ^ 64)" for w :: u64
proof -
  have r: "0 \<le> uint w" "uint w < 2 ^ 64" using uint_u64 by simp_all
  have "uint w div 2 ^ 63 = (if uint w < 2 ^ 63 then 0 else 1)"
    using r by (auto simp: div_pos_pos_trivial intro: int_div_pos_eq [of _ _ _ "uint w - 2 ^ 63"])
  then have b: "bit (uint w) 63 \<longleftrightarrow> \<not> uint w < 2 ^ 63" by (simp add: bit_iff_odd)
  have "sint w = signed_take_bit 63 (uint w)" by (simp add: sint_uint)
  also have "\<dots> = take_bit (Suc 63) (uint w) - 2 ^ Suc 63 * of_bool (bit (uint w) 63)"
    by (rule signed_take_bit_eq_take_bit_minus)
  finally show ?thesis using r b by (simp add: take_bit_int_eq_self)
qed

lemma be_sval_bounds:
  "be_sval (b # bs) = (if be_val (b # bs) < 128 * 256 ^ length bs then be_val (b # bs) else be_val (b # bs) - 256 ^ length (b # bs))"
proof -
  have "uint b < 128 \<longleftrightarrow> be_val (b # bs) < 128 * 256 ^ length bs"
  proof
    assume "uint b < 128"
    then have "(uint b + 1) * 256 ^ length bs \<le> 128 * 256 ^ length bs" by (intro mult_right_mono) auto
    then show "be_val (b # bs) < 128 * 256 ^ length bs"
      using be_val_range [of bs] unfolding be_val.simps distrib_right mult_1 by linarith
  next
    assume a: "be_val (b # bs) < 128 * 256 ^ length bs"
    show "uint b < 128"
    proof (rule ccontr)
      assume "\<not> uint b < 128"
      then have "128 * 256 ^ length bs \<le> uint b * 256 ^ length bs" by (intro mult_right_mono) auto
      then show False using a be_val_range [of bs] unfolding be_val.simps by linarith
    qed
  qed
  then show ?thesis by (auto simp: be_sval_def not_less)
qed

lemma get_int_s_val:
  assumes "buf \<noteq> []" "length buf \<le> 8"
  shows "argdata_get_int_s (AD_BUFFER (ADT_INT # buf) c (length (ADT_INT # buf))) l h
    = (if be_sval buf < l \<or> be_sval buf > h then Inl ERANGE else Inr (be_sval buf))"
proof -
  obtain b bs where buf: "buf = b # bs" using assms(1) by (cases buf) auto
  let ?s = "56 - 8 * length bs"
  have len: "8 * length bs \<le> 56" using assms(2) buf by simp
  obtain w where w: "int_add_digits (b # bs) 56 0 = (?s, w)" "uint w = be_val buf * 2 ^ ?s"
    using int_add_digits_val [of bs 56 0 b] len buf by auto
  have p: "(2 :: int) ^ 64 = 256 ^ length buf * 2 ^ ?s" "(2 :: int) ^ 63 = 128 * 256 ^ length bs * 2 ^ ?s"
  proof -
    have "(256 :: int) ^ length bs * 2 ^ ?s = 2 ^ (8 * length bs) * 2 ^ ?s" by (simp add: power_mult)
    also have "\<dots> = 2 ^ (8 * length bs + ?s)" by (simp only: power_add)
    also have "8 * length bs + ?s = 56" using len by simp
    finally have "(256 :: int) ^ length bs * 2 ^ ?s = 2 ^ 56" .
    then show "(2 :: int) ^ 64 = 256 ^ length buf * 2 ^ ?s" "(2 :: int) ^ 63 = 128 * 256 ^ length bs * 2 ^ ?s"
      by (simp_all add: buf)
  qed
  have "be_val buf * 2 ^ ?s < 2 ^ 63 \<longleftrightarrow> be_val buf < 128 * 256 ^ length bs"
    unfolding p(2) by simp
  then have "sint w = be_sval buf * 2 ^ ?s"
    unfolding sint_u64 w(2) p(1) using be_sval_bounds [of b bs] by (auto simp: buf left_diff_distrib)
  then have "sint (signed_drop_bit ?s w) = be_sval buf"
    by (simp add: sint_signed_drop_bit_eq drop_bit_eq_div)
  then show ?thesis using assms w(1) by (simp add: argdata_get_int_s_def parse_type_def buf Let_def)
qed

lemma create_int_s_val:
  assumes "- (2 ^ 63) \<le> v" "v < 2 ^ 63" "v \<noteq> 0"
  obtains buf where "argdata_create_int_s False v = Some (Inr (AD_BUFFER (ADT_INT # buf) None (length (ADT_INT # buf))))"
    "buf \<noteq> []" "length buf \<le> 8" "be_sval buf = v"
proof (cases "v < 0")
  case True
  from int_digits_s_val [of 7 v "[]"] True assms(1) obtain ds where
    ds: "int_digits_s v [] = Some ds" "be_sval ds = v" "ds \<noteq> []" "length ds \<le> 8" by auto
  then show ?thesis using True that [of ds] by (simp add: argdata_create_int_s_def argdata_init_buffer_def)
next
  case False
  let ?w = "word_of_int v :: u64"
  have w: "uint ?w = v" using False assms by (intro uint_word_of_int_u64) auto
  have nz: "?w \<noteq> 0" using w assms(3) by auto
  define ds where "ds = int_digits_u ?w []"
  define buf where "buf = (if hd ds AND 0x80 \<noteq> 0 then 0 # ds else ds)"
  obtain b bs where b: "ds = b # bs" using int_digits_u_nonempty [OF nz] unfolding ds_def [symmetric] by (cases ds) auto
  have ds: "length ds \<le> 8" "be_val ds = v"
    using int_digits_u_length [OF nz] int_digits_u_val [of ?w "[]"] w by (auto simp: ds_def)
  have "length ds < 8" if "\<not> uint b < 128"
  proof (rule ccontr)
    assume "\<not> length ds < 8"
    then have "length bs = 7" using ds b by simp
    moreover have "128 * 256 ^ length bs \<le> uint b * 256 ^ length bs" using that by (intro mult_right_mono) auto
    ultimately have "2 ^ 63 \<le> v" using ds(2) be_val_range [of bs] b by simp
    then show False using assms(2) by simp
  qed
  then have "length buf \<le> 8" "be_sval buf = v" "buf \<noteq> []"
    using ds b by (auto simp: buf_def be_sval_def u8_sign)
  moreover have "argdata_create_int_s False v = Some (Inr (AD_BUFFER (ADT_INT # buf) None (length (ADT_INT # buf))))"
    using False b by (auto simp: argdata_create_int_s_def argdata_create_int_u_def argdata_init_buffer_def
        ds_def [symmetric] buf_def Let_def)
  ultimately show ?thesis using that by blast
qed

text \<open>
  C32: creating a signed integer always ends, and the value reads back as itself, or as \<open>ERANGE\<close>
  when it is outside of the range of the caller, for every nonzero 64-bit value.
\<close>

theorem int_s_roundtrip:
  assumes "- (2 ^ 63) \<le> v" "v < 2 ^ 63" "v \<noteq> 0"
  shows "\<exists>ad. argdata_create_int_s False v = Some (Inr ad)
    \<and> argdata_get_int_s ad l h = (if v < l \<or> v > h then Inl ERANGE else Inr v)"
  using create_int_s_val [OF assms] get_int_s_val by metis

theorem int_s_roundtrip_witness:
  "\<exists>ad. argdata_create_int_s False (- 129) = Some (Inr ad)
    \<and> argdata_get_int_s ad (- 128) 127 = (if (- 129 :: int) < - 128 \<or> (- 129 :: int) > 127 then Inl ERANGE else Inr (- 129))"
  by (rule int_s_roundtrip) simp_all

text \<open>
  Zero is read without looking at the range: \<open>argdata_get_int_s()\<close> returns 0 for the integer
  0 even where the range of the caller does not contain it.
\<close>

theorem int_s_zero_ignores_range:
  "\<exists>ad. argdata_create_int_s False 0 = Some (Inr ad) \<and> argdata_get_int_s ad l h = Inr 0"
  by (simp add: argdata_create_int_s_def argdata_create_int_u_def argdata_get_int_s_def argdata_init_buffer_def
      parse_type_def int_digits_u.simps [of 0] Let_def)

section \<open>Timestamps\<close>

definition pad_bytes :: "nat \<Rightarrow> u8 list \<Rightarrow> u8 list" where
  "pad_bytes n buf = replicate (n - length buf) (if buf \<noteq> [] \<and> hd buf AND 0x80 \<noteq> 0 then 0xff else 0) @ buf"

lemma replicate_snoc: "replicate k x @ x # xs = replicate (Suc k) x @ xs"
  by (simp add: replicate_app_Cons_same)

lemma pad_trim_zero: "length buf \<le> n \<Longrightarrow> pad_bytes n (trim_zero buf) = pad_bytes n buf"
proof (induction buf rule: trim_zero.induct)
  case (1 b c buf)
  then show ?case
    by (auto simp: pad_bytes_def replicate_snoc Suc_diff_Suc [symmetric] simp del: replicate.simps)
qed (simp_all add: pad_bytes_def)

lemma pad_trim_ones: "length buf \<le> n \<Longrightarrow> pad_bytes n (trim_ones buf) = pad_bytes n buf"
proof (induction buf rule: trim_ones.induct)
  case (1 b c buf)
  then show ?case
    by (auto simp: pad_bytes_def replicate_snoc Suc_diff_Suc [symmetric] simp del: replicate.simps)
qed (simp_all add: pad_bytes_def)

lemma trim_zero_length: "length (trim_zero buf) \<le> length buf"
  by (induction buf rule: trim_zero.induct) auto

lemma trim_ones_length: "length (trim_ones buf) \<le> length buf"
  by (induction buf rule: trim_ones.induct) auto

lemma be_val_bytes:
  "be_val (map (\<lambda>i. word_of_int (k div 2 ^ (8 * (n - 1 - i)))) [0..<n]) = k mod 256 ^ n"
proof (induction n arbitrary: k)
  case (Suc n)
  have p: "k div 2 ^ (8 * (Suc n - 1 - i)) = k div 256 div 2 ^ (8 * (n - 1 - i))" if "i < n" for i
  proof -
    have "(2 :: int) ^ (8 * (Suc n - 1 - i)) = 256 * 2 ^ (8 * (n - 1 - i))"
    proof -
      have "8 * (Suc n - 1 - i) = 8 + 8 * (n - 1 - i)" using that by simp
      then show ?thesis by (simp add: power_add)
    qed
    then show ?thesis by (simp add: zdiv_zmult2_eq)
  qed
  have "map (\<lambda>i. word_of_int (k div 2 ^ (8 * (Suc n - 1 - i))) :: u8) [0..<Suc n]
      = map (\<lambda>i. word_of_int (k div 256 div 2 ^ (8 * (n - 1 - i)))) [0..<n] @ [word_of_int k]"
    using p by auto
  moreover have "uint (word_of_int k :: u8) = k mod 256" by (simp add: unsigned_of_int take_bit_eq_mod)
  moreover have "k mod 256 ^ Suc n = k div 256 mod 256 ^ n * 256 + k mod 256"
    by (simp add: zmod_zmult2_eq)
  ultimately show ?case using Suc [of "k div 256"] by (simp only: be_val_append) simp
qed simp

lemma sint_word_of_int_u64:
  assumes "- (2 ^ 63) \<le> k" "k < 2 ^ 63"
  shows "sint (word_of_int (k mod 2 ^ 64) :: u64) = k"
proof -
  have u: "uint (word_of_int (k mod 2 ^ 64) :: u64) = k mod 2 ^ 64" by (rule uint_word_of_int_u64) simp_all
  show ?thesis
  proof (cases "0 \<le> k")
    case True
    then have "k mod 2 ^ 64 = k" using assms by (intro mod_pos_pos_trivial) auto
    then show ?thesis unfolding sint_u64 u using assms by simp
  next
    case False
    have "k mod 2 ^ 64 = k + 2 ^ 64"
      using assms False by (intro int_mod_pos_eq [of _ _ "- 1"]) auto
    then show ?thesis unfolding sint_u64 u using assms by simp
  qed
qed

lemma timestamp_bytes:
  assumes "argdata_create_timestamp False sec nsec = Inr ad" "length bytes = 12"
    and "bytes = map (\<lambda>i. word_of_int (((sec div 2 ^ 32) * 1000000000
          + ((sec mod 2 ^ 32) * 1000000000 + nsec) div 2 ^ 32) div 2 ^ (8 * (8 - 1 - i)))) [0..<8]
        @ map (\<lambda>i. word_of_int (((sec mod 2 ^ 32) * 1000000000 + nsec) div 2 ^ (8 * (4 - 1 - i)))) [0..<4]"
  shows "\<exists>buf. ad = AD_BUFFER (ADT_TIMESTAMP # buf) None (length (ADT_TIMESTAMP # buf))
    \<and> length buf \<le> 12 \<and> pad_bytes 12 buf = bytes"
proof -
  define trimmed where "trimmed = trim_ones (trim_zero bytes)"
  define buf where "buf = (if trimmed = [0] then [] else trimmed)"
  have "length trimmed \<le> 12"
    using trim_ones_length [of "trim_zero bytes"] trim_zero_length [of bytes] assms(2) by (simp add: trimmed_def)
  moreover have "pad_bytes 12 trimmed = bytes"
    using trim_zero_length [of bytes] assms(2)
    by (simp add: trimmed_def pad_trim_ones pad_trim_zero) (simp add: pad_bytes_def)
  moreover have "pad_bytes 12 [0] = pad_bytes 12 []" by (simp add: pad_bytes_def eval_nat_numeral)
  ultimately have "length buf \<le> 12" "pad_bytes 12 buf = bytes" by (auto simp: buf_def)
  moreover have "ad = AD_BUFFER (ADT_TIMESTAMP # buf) None (length (ADT_TIMESTAMP # buf))"
    using assms(1) unfolding argdata_create_timestamp_def Let_def argdata_init_buffer_def buf_def trimmed_def assms(3)
    by (simp split: if_splits)
  ultimately show ?thesis by blast
qed

text \<open>The division of the nanoseconds since 1970 by \<open>10 ^ 9\<close> in two steps.\<close>

lemma timestamp_parts:
  fixes sec nsec :: int
  defines "low \<equiv> (sec mod 2 ^ 32) * 1000000000 + nsec"
  defines "high \<equiv> (sec div 2 ^ 32) * 1000000000 + low div 2 ^ 32"
  assumes "- (2 ^ 63) \<le> sec" "sec < 2 ^ 63" "0 \<le> nsec" "nsec < 1000000000"
  shows "- (2 ^ 63) \<le> high" "high < 2 ^ 63" "high div 1000000000 = sec div 2 ^ 32"
    "low mod 2 ^ 32 + high mod 1000000000 * 2 ^ 32 = low"
    "low mod 1000000000 = nsec" "low div 1000000000 = sec mod 2 ^ 32"
    "- (2 ^ 31) \<le> sec div 2 ^ 32" "sec div 2 ^ 32 < 2 ^ 31"
proof -
  have m: "0 \<le> sec mod 2 ^ 32" "sec mod 2 ^ 32 < 2 ^ 32" by simp_all
  have low: "0 \<le> low" "low < 1000000000 * 2 ^ 32" using m assms(5,6) by (simp_all add: low_def)
  have r1: "0 \<le> low div 2 ^ 32" using low(1) by simp
  have r2: "low div 2 ^ 32 < 1000000000" using low(2) by simp
  note r = r1 r2
  show d1: "- (2 ^ 31) \<le> sec div 2 ^ 32" using zdiv_mono1 [OF assms(3), of "2 ^ 32"] by simp
  show d2: "sec div 2 ^ 32 < 2 ^ 31" using assms(4) by simp
  note d = d1 d2
  show "- (2 ^ 63) \<le> high" "high < 2 ^ 63" using d r by (simp_all add: high_def)
  show "high div 1000000000 = sec div 2 ^ 32" using r by (simp add: high_def div_pos_pos_trivial)
  have "high mod 1000000000 = low div 2 ^ 32" using r by (simp add: high_def mod_pos_pos_trivial)
  then show "low mod 2 ^ 32 + high mod 1000000000 * 2 ^ 32 = low" by (simp add: mod_div_mult_eq)
  show "low mod 1000000000 = nsec" "low div 1000000000 = sec mod 2 ^ 32"
    using assms(5,6) by (simp_all add: low_def mod_pos_pos_trivial div_pos_pos_trivial)
qed

text \<open>
  C29: a timestamp with 64-bit seconds and valid nanoseconds reads back as itself.
\<close>

theorem timestamp_roundtrip:
  assumes "- (2 ^ 63) \<le> sec" "sec < 2 ^ 63" "0 \<le> nsec" "nsec < 1000000000"
  shows "\<exists>ad. argdata_create_timestamp False sec nsec = Inr ad \<and> argdata_get_timestamp ad = Inr (sec, nsec)"
proof -
  define low where "low = (sec mod 2 ^ 32) * 1000000000 + nsec"
  define high where "high = (sec div 2 ^ 32) * 1000000000 + low div 2 ^ 32"
  note parts = timestamp_parts [OF assms, folded low_def, folded high_def]
  define hb where "hb = map (\<lambda>i. word_of_int (high div 2 ^ (8 * (8 - 1 - i))) :: u8) [0..<8]"
  define lb where "lb = map (\<lambda>i. word_of_int (low div 2 ^ (8 * (4 - 1 - i))) :: u8) [0..<4]"
  have len: "length hb = 8" "length lb = 4" by (simp_all add: hb_def lb_def)
  obtain ad where ad: "argdata_create_timestamp False sec nsec = Inr ad"
    using assms(3,4) by (simp add: argdata_create_timestamp_def Let_def)
  obtain buf where buf: "ad = AD_BUFFER (ADT_TIMESTAMP # buf) None (length (ADT_TIMESTAMP # buf))"
      "length buf \<le> 12" "pad_bytes 12 buf = hb @ lb"
    using timestamp_bytes [OF ad, of "hb @ lb"] len unfolding hb_def lb_def high_def low_def by auto
  have hv: "be_val hb = high mod 2 ^ 64" using be_val_bytes [of high 8] by (simp add: hb_def)
  have lv: "be_val lb = low mod 2 ^ 32" using be_val_bytes [of low 4] by (simp add: lb_def)
  have h: "sint (foldl (\<lambda>h b. push_bit 8 h OR ucast b) (0 :: u64) hb) = high"
    unfolding foldl_bytes_0 hv using parts(1,2) by (rule sint_word_of_int_u64)
  have "0 \<le> low mod 2 ^ 32" "low mod 2 ^ 32 < 2 ^ 32" by simp_all
  then have l: "uint (foldl (\<lambda>h b. push_bit 8 h OR ucast b) (0 :: u64) lb) = low mod 2 ^ 32"
    unfolding foldl_bytes_0 lv by (intro uint_word_of_int_u64) auto
  have pay: "take 8 (pad_bytes 12 buf) = hb" "drop 8 (pad_bytes 12 buf) = lb" using buf(3) len by simp_all
  have pt: "parse_type ADT_TIMESTAMP (take (length (ADT_TIMESTAMP # buf)) (ADT_TIMESTAMP # buf)) = Inr buf"
    by (simp add: parse_type_def)
  have nl: "(12 < length buf) = False" using buf(2) by simp
  have s: "sec mod 2 ^ 32 + sec div 2 ^ 32 * 2 ^ 32 = sec" by (rule mod_div_mult_eq)
  have m: "sec mod 2 ^ 32 < 2 ^ 32" by simp
  have range: "(sec div 2 ^ 32 < - (2 ^ 31) \<or> sec div 2 ^ 32 > 2 ^ 31 - 1) = False"
      "(sec mod 2 ^ 32 > 2 ^ 63 - 1 \<or> sec div 2 ^ 32 * 2 ^ 32 > 2 ^ 63 - 1 - sec mod 2 ^ 32) = False"
    using parts(7,8) s m assms(2) by auto
  have "argdata_get_timestamp ad =
      (case (if cmod high 1000000000 < 0 then (cmod high 1000000000 + 1000000000, cdiv high 1000000000 - 1)
             else (cmod high 1000000000, cdiv high 1000000000)) of
         (rem, quot) \<Rightarrow>
           if quot < - (2 ^ 31) \<or> quot > 2 ^ 31 - 1 then Inl ERANGE
           else if (low mod 2 ^ 32 + rem * 2 ^ 32) div 1000000000 > 2 ^ 63 - 1
             \<or> quot * 2 ^ 32 > 2 ^ 63 - 1 - (low mod 2 ^ 32 + rem * 2 ^ 32) div 1000000000 then Inl ERANGE
           else Inr ((low mod 2 ^ 32 + rem * 2 ^ 32) div 1000000000 + quot * 2 ^ 32,
                     (low mod 2 ^ 32 + rem * 2 ^ 32) mod 1000000000))"
    unfolding argdata_get_timestamp_def buf(1) argdata_t.case pt sum.case Let_def
    by (simp only: nl if_False pay [unfolded pad_bytes_def] h l)
  also have "\<dots> = Inr (sec, nsec)"
    unfolding floor_adjust [of 1000000000 high, simplified] prod.case parts(3,4,5,6)
    by (simp only: range if_False s)
  finally have "argdata_get_timestamp ad = Inr (sec, nsec)" .
  then show ?thesis using ad by blast
qed

theorem timestamp_roundtrip_witness:
  "\<exists>ad. argdata_create_timestamp False (- 1) 999999999 = Inr ad
    \<and> argdata_get_timestamp ad = Inr (- 1, 999999999)"
  by (rule timestamp_roundtrip) simp_all

end
