(* ===== verification/ArgdataIter.thy ===== *)
theory ArgdataIter
  imports ArgdataFds ArgdataNumbers
begin

text \<open>
  The iterators over sequences and maps. The two members of the union of an iterator are the two
  constructors of its position; the pointers into arrays with their counts are the lists of the
  elements that remain.
\<close>

section \<open>Iterators\<close>

definition ARGDATA_ITERATOR_END :: u64 where "ARGDATA_ITERATOR_END = 0xffffffffffffffff"
definition ARGDATA_ITERATOR_INVALID :: u64 where "ARGDATA_ITERATOR_INVALID = 0xfffffffffffffffe"

datatype seq_position =
  ADS_BUFFER "u8 list" "(nat \<Rightarrow> int) option" "argdata_t option"
| ADS_SEQ "argdata_t list"

record argdata_seq_iterator_impl =
  seq_index :: u64
  seq_type :: seq_position

definition argdata_seq_next :: "argdata_seq_iterator_impl \<Rightarrow> argdata_seq_iterator_impl" where
  "argdata_seq_next it =
     (case seq_type it of
        ADS_BUFFER buffer convert_fd entry \<Rightarrow>
          if buffer = [] then it\<lparr>seq_type := ADS_SEQ [], seq_index := ARGDATA_ITERATOR_END\<rparr>
          else
            (case parse_subfield buffer of
               Inl e \<Rightarrow> it\<lparr>seq_type := ADS_SEQ [], seq_index := ARGDATA_ITERATOR_INVALID\<rparr>
             | Inr (field, rest) \<Rightarrow>
                 it\<lparr>seq_type := ADS_BUFFER rest convert_fd (Some (argdata_init_buffer field convert_fd)),
                    seq_index := seq_index it + 1\<rparr>)
      | ADS_SEQ entries \<Rightarrow>
          (case entries of
             e # rest \<Rightarrow> it\<lparr>seq_type := ADS_SEQ rest, seq_index := seq_index it + 1\<rparr>
           | [] \<Rightarrow> it\<lparr>seq_index := ARGDATA_ITERATOR_END\<rparr>))"

definition argdata_seq_iterate :: "argdata_t \<Rightarrow> argdata_seq_iterator_impl" where
  "argdata_seq_iterate ad =
     (case ad of
        AD_BUFFER buffer convert_fd n \<Rightarrow>
          (case parse_type ADT_SEQ (take n buffer) of
             Inl e \<Rightarrow> \<lparr>seq_index = ARGDATA_ITERATOR_INVALID, seq_type = ADS_SEQ []\<rparr>
           | Inr buf \<Rightarrow> argdata_seq_next \<lparr>seq_index = - 1, seq_type = ADS_BUFFER buf convert_fd None\<rparr>)
      | AD_SEQ entries n \<Rightarrow> \<lparr>seq_index = 0, seq_type = ADS_SEQ entries\<rparr>
      | _ \<Rightarrow> \<lparr>seq_index = ARGDATA_ITERATOR_INVALID, seq_type = ADS_SEQ []\<rparr>)"

definition argdata_seq_get :: "argdata_seq_iterator_impl \<Rightarrow> argdata_t option" where
  "argdata_seq_get it =
     (case seq_type it of
        ADS_BUFFER buffer convert_fd entry \<Rightarrow> Some (the entry)
      | ADS_SEQ entries \<Rightarrow> (case entries of e # rest \<Rightarrow> Some e | [] \<Rightarrow> None))"

datatype map_position =
  ADM_BUFFER "u8 list" "(nat \<Rightarrow> int) option" "(argdata_t \<times> argdata_t) option"
| ADM_MAP "argdata_t list" "argdata_t list"

record argdata_map_iterator_impl =
  map_index :: u64
  map_type :: map_position

definition argdata_map_next :: "argdata_map_iterator_impl \<Rightarrow> argdata_map_iterator_impl" where
  "argdata_map_next it =
     (case map_type it of
        ADM_BUFFER buffer convert_fd entry \<Rightarrow>
          if buffer = [] then it\<lparr>map_type := ADM_MAP [] [], map_index := - 1\<rparr>
          else
            (let invalid = it\<lparr>map_type := ADM_MAP [] [], map_index := ARGDATA_ITERATOR_INVALID\<rparr>
             in case parse_subfield buffer of
                  Inl e \<Rightarrow> invalid
                | Inr (key, rest) \<Rightarrow>
                    (case parse_subfield rest of
                       Inl e \<Rightarrow> invalid
                     | Inr (value, rest') \<Rightarrow>
                         it\<lparr>map_type := ADM_BUFFER rest' convert_fd
                               (Some (argdata_init_buffer key convert_fd, argdata_init_buffer value convert_fd)),
                            map_index := map_index it + 1\<rparr>))
      | ADM_MAP keys values \<Rightarrow>
          (case keys of
             k # ks \<Rightarrow> it\<lparr>map_type := ADM_MAP ks (tl values), map_index := map_index it + 1\<rparr>
           | [] \<Rightarrow> it\<lparr>map_index := ARGDATA_ITERATOR_END\<rparr>))"

definition argdata_map_iterate :: "argdata_t \<Rightarrow> argdata_map_iterator_impl" where
  "argdata_map_iterate ad =
     (case ad of
        AD_BUFFER buffer convert_fd n \<Rightarrow>
          (case parse_type ADT_MAP (take n buffer) of
             Inl e \<Rightarrow> \<lparr>map_index = ARGDATA_ITERATOR_INVALID, map_type = ADM_MAP [] []\<rparr>
           | Inr buf \<Rightarrow> argdata_map_next \<lparr>map_index = - 1, map_type = ADM_BUFFER buf convert_fd None\<rparr>)
      | AD_MAP keys values n \<Rightarrow>
          \<lparr>map_index = (if keys \<noteq> [] then 0 else ARGDATA_ITERATOR_END), map_type = ADM_MAP keys values\<rparr>
      | _ \<Rightarrow> \<lparr>map_index = ARGDATA_ITERATOR_INVALID, map_type = ADM_MAP [] []\<rparr>)"

definition argdata_map_get :: "argdata_map_iterator_impl \<Rightarrow> (argdata_t \<times> argdata_t) option" where
  "argdata_map_get it =
     (case map_type it of
        ADM_BUFFER buffer convert_fd entry \<Rightarrow> Some (the entry)
      | ADM_MAP keys values \<Rightarrow> (case keys of k # ks \<Rightarrow> Some (k, hd values) | [] \<Rightarrow> None))"

section \<open>What an iteration visits\<close>

text \<open>The loop of a caller: at most \<open>n\<close> entries, each read before the iterator is moved.\<close>

fun seq_entries :: "nat \<Rightarrow> argdata_seq_iterator_impl \<Rightarrow> argdata_t list" where
  "seq_entries 0 it = []"
| "seq_entries (Suc n) it =
     (case argdata_seq_get it of None \<Rightarrow> [] | Some e \<Rightarrow> e # seq_entries n (argdata_seq_next it))"

fun map_entries :: "nat \<Rightarrow> argdata_map_iterator_impl \<Rightarrow> (argdata_t \<times> argdata_t) list" where
  "map_entries 0 it = []"
| "map_entries (Suc n) it =
     (case argdata_map_get it of None \<Rightarrow> [] | Some e \<Rightarrow> e # map_entries n (argdata_map_next it))"

primrec entry_bytes :: "argdata_t list \<Rightarrow> int list option \<Rightarrow> u8 list list" where
  "entry_bytes [] fds = []"
| "entry_bytes (e # es) fds = fst (encode e fds) # entry_bytes es (snd (encode e fds))"

lemma encode_seq_bytes:
  "\<forall>e \<in> set es. argdata_wf e \<Longrightarrow>
     fst (encode_seq es fds) = concat (map (\<lambda>b. encode_subfield_length (length b) @ b) (entry_bytes es fds))"
proof (induction es arbitrary: fds)
  case (Cons e es)
  obtain out fds1 where e: "encode e fds = (out, fds1)" by (cases "encode e fds")
  obtain outs fds2 where e2: "encode_seq es fds1 = (outs, fds2)" by (cases "encode_seq es fds1")
  have "length out = ad_length e" using encode_size(1) [of e fds] Cons.prems e by simp
  then show ?case using Cons.IH [of fds1] Cons.prems e e2 by simp
qed simp

lemma entry_bytes_length: "\<forall>e \<in> set es. argdata_wf e \<Longrightarrow> \<forall>b \<in> set (entry_bytes es fds). length b < 2 ^ 64"
  by (induction es arbitrary: fds) (auto simp: encode_size dest: argdata_wf_length)

lemma parse_subfield_Nil: "parse_subfield [] = Inl EINVAL"
  by (simp add: parse_subfield_def)

lemma seq_entries_buffer:
  "\<forall>b \<in> set bs. length b < 2 ^ 64 \<Longrightarrow> length bs < n \<Longrightarrow>
     seq_entries n (argdata_seq_next
       \<lparr>seq_index = i, seq_type = ADS_BUFFER (concat (map (\<lambda>b. encode_subfield_length (length b) @ b) bs)) conv e\<rparr>)
       = map (\<lambda>b. argdata_init_buffer b conv) bs"
proof (induction bs arbitrary: n i e)
  case Nil
  then show ?case by (cases n) (simp_all add: argdata_seq_next_def argdata_seq_get_def)
next
  case (Cons b bs)
  let ?rest = "concat (map (\<lambda>b. encode_subfield_length (length b) @ b) bs)"
  obtain m where n: "n = Suc m" "length bs < m" using Cons.prems(2) by (cases n) auto
  have p: "parse_subfield (encode_subfield_length (length b) @ b @ ?rest) = Inr (b, ?rest)"
    using parse_encode_length [of b ?rest] Cons.prems(1) by simp
  have ne: "encode_subfield_length (length b) @ b @ ?rest \<noteq> []"
  proof
    assume nil: "encode_subfield_length (length b) @ b @ ?rest = []"
    show False using p [unfolded nil parse_subfield_Nil] by simp
  qed
  have step: "argdata_seq_next \<lparr>seq_index = i, seq_type = ADS_BUFFER (encode_subfield_length (length b) @ b @ ?rest) conv e\<rparr>
      = \<lparr>seq_index = i + 1, seq_type = ADS_BUFFER ?rest conv (Some (argdata_init_buffer b conv))\<rparr>"
    unfolding argdata_seq_next_def
    by (simp only: argdata_seq_iterator_impl.simps seq_position.case ne p if_False sum.case prod.case)
  have IH: "seq_entries m (argdata_seq_next \<lparr>seq_index = i + 1,
      seq_type = ADS_BUFFER ?rest conv (Some (argdata_init_buffer b conv))\<rparr>) = map (\<lambda>b. argdata_init_buffer b conv) bs"
    using Cons.IH [of m "i + 1" "Some (argdata_init_buffer b conv)"] Cons.prems n by simp
  have split: "concat (map (\<lambda>b. encode_subfield_length (length b) @ b) (b # bs)) = encode_subfield_length (length b) @ b @ ?rest"
    by simp
  show ?case
    unfolding split n(1) step seq_entries.simps argdata_seq_get_def
    by (simp only: argdata_seq_iterator_impl.simps seq_position.case option.case option.sel IH list.map)
qed

text \<open>
  C26: iterating over a serialized sequence visits the serialized entries: where a well-formed
  sequence is serialized and its bytes are read by \<open>argdata_from_buffer()\<close>, the iterator returns a
  buffer with the bytes of each entry, in order and nothing else.
\<close>

theorem serialized_seq_entries:
  assumes "argdata_wf (AD_SEQ es k)" "length es < n"
    and "argdata_serialize (AD_SEQ es k) True = (out, fds)"
    and "argdata_from_buffer False out (length out) (Some conv) = Inr ad"
  shows "seq_entries n (argdata_seq_iterate ad)
    = map (\<lambda>b. argdata_init_buffer b (Some conv)) (entry_bytes es (Some []))"
proof -
  have wf: "\<forall>e \<in> set es. argdata_wf e" "k \<noteq> 0" using assms(1) by auto
  let ?body = "fst (encode_seq es (Some []))"
  have "out = ADT_SEQ # ?body"
    using assms(3) wf(2) by (auto simp: argdata_serialize_def split: prod.splits)
  moreover have "ad = AD_BUFFER out (Some conv) (length out)" using assms(4) by (simp add: argdata_from_buffer_def)
  ultimately have "argdata_seq_iterate ad
      = argdata_seq_next \<lparr>seq_index = - 1, seq_type = ADS_BUFFER ?body (Some conv) None\<rparr>"
    by (simp add: argdata_seq_iterate_def parse_type_def)
  moreover have "length (entry_bytes es fds) = length es" for fds by (induction es arbitrary: fds) simp_all
  ultimately show ?thesis
    unfolding encode_seq_bytes [OF wf(1)] using seq_entries_buffer [OF entry_bytes_length [OF wf(1)]] assms(2) by simp
qed

theorem serialized_seq_entries_witness:
  "seq_entries 2 (argdata_seq_iterate (AD_BUFFER [7, 0x82, 2, 1] (Some disallow_fd_access) 4))
     = map (\<lambda>b. argdata_init_buffer b (Some disallow_fd_access)) (entry_bytes [argdata_true] (Some []))"
proof (rule serialized_seq_entries [where k = 4 and fds = "Some []"])
  have d: "subfield_digits 2 = 1" "encode_subfield_length 2 = [0x82]"
    by (simp_all add: subfield_digits.simps [of 2] encode_subfield_length_def encode_digits.simps [of 0])
  have e: "encode_buffer [2, 1] None (Some []) = ([2, 1], Some [])"
    by (subst encode_buffer.simps) (simp add: ADT_defs)
  show "argdata_wf (AD_SEQ [argdata_true] 4)" by (simp add: argdata_true_def subfield_size_def d)
  show "argdata_serialize (AD_SEQ [argdata_true] 4) True = ([7, 0x82, 2, 1], Some [])"
    by (simp add: argdata_serialize_def argdata_true_def d e ADT_defs)
qed (simp_all add: argdata_from_buffer_def)

lemma seq_next_memory:
  "(argdata_seq_next ^^ j) \<lparr>seq_index = i, seq_type = ADS_SEQ es\<rparr>
     = \<lparr>seq_index = (if j \<le> length es then i + of_nat j else ARGDATA_ITERATOR_END), seq_type = ADS_SEQ (drop j es)\<rparr>"
proof (induction j)
  case (Suc j)
  show ?case
  proof (cases "j < length es")
    case True
    then have "drop j es = es ! j # drop (Suc j) es" by (rule Cons_nth_drop_Suc [symmetric])
    then show ?thesis using True Suc by (simp add: argdata_seq_next_def)
  qed (use Suc in \<open>simp add: argdata_seq_next_def\<close>)
qed simp

text \<open>
  The index of an iterator over a sequence in memory counts the moves up to and including the
  one past the last entry: there it equals the number of entries, and it becomes
  \<open>ARGDATA_ITERATOR_END\<close> one move later only. For the empty sequence it is 0 at first.
\<close>

theorem seq_index_past_end:
  "seq_index ((argdata_seq_next ^^ j) (argdata_seq_iterate (AD_SEQ es n)))
     = (if j \<le> length es then of_nat j else ARGDATA_ITERATOR_END)"
  by (simp add: argdata_seq_iterate_def seq_next_memory)

section \<open>Created values are well-formed\<close>

text \<open>The values that a program obtains from the creating functions, with the buffers it passes as
  long as it says and the sizes of sequences and maps within 64 bits.\<close>

inductive argdata_created :: "argdata_t \<Rightarrow> bool" where
  null: "argdata_created argdata_null"
| true: "argdata_created argdata_true"
| false: "argdata_created argdata_false"
| int_u: "argdata_create_int_u oom v = Inr ad \<Longrightarrow> argdata_created ad"
| int_s: "- (2 ^ 63) \<le> v \<Longrightarrow> v < 2 ^ 63 \<Longrightarrow> argdata_create_int_s oom v = Some (Inr ad) \<Longrightarrow> argdata_created ad"
| float: "argdata_create_float oom bits = Inr ad \<Longrightarrow> argdata_created ad"
| timestamp: "argdata_create_timestamp oom sec nsec = Inr ad \<Longrightarrow> argdata_created ad"
| fd: "argdata_create_fd oom v = Inr ad \<Longrightarrow> argdata_created ad"
| binary: "len \<le> length buf \<Longrightarrow> len + 1 < 2 ^ 64 \<Longrightarrow> argdata_create_binary oom buf len = Inr ad \<Longrightarrow>
    argdata_created ad"
| str: "len \<le> length buf \<Longrightarrow> len + 2 < 2 ^ 64 \<Longrightarrow> argdata_create_str oom buf len = Inr ad \<Longrightarrow>
    argdata_created ad"
| from_buffer: "len \<le> length buf \<Longrightarrow> len < 2 ^ 64 \<Longrightarrow> argdata_from_buffer oom buf len conv = Inr ad \<Longrightarrow>
    argdata_created ad"
| seq: "\<forall>e \<in> set es. argdata_created e \<Longrightarrow> 1 + (\<Sum>e \<leftarrow> es. subfield_size (ad_length e)) < 2 ^ 64 \<Longrightarrow>
    argdata_create_seq oom es = Inr ad \<Longrightarrow> argdata_created ad"
| map: "\<forall>e \<in> set ks. argdata_created e \<Longrightarrow> \<forall>e \<in> set vs. argdata_created e \<Longrightarrow> length ks = length vs \<Longrightarrow>
    1 + (\<Sum>e \<leftarrow> ks. subfield_size (ad_length e)) + (\<Sum>e \<leftarrow> vs. subfield_size (ad_length e)) < 2 ^ 64 \<Longrightarrow>
    argdata_create_map oom ks vs = Inr ad \<Longrightarrow> argdata_created ad"

lemma create_seq_size:
  "k + (\<Sum>e \<leftarrow> es. subfield_size (ad_length e)) < 2 ^ 64 \<Longrightarrow>
     foldl (\<lambda>n e. (n + get_subfield_length e) mod 2 ^ 64) k es = k + (\<Sum>e \<leftarrow> es. subfield_size (ad_length e))"
  by (induction es arbitrary: k) (simp_all add: get_subfield_length_def subfield_size_def [symmetric])

lemma create_map_size:
  "length ks = length vs \<Longrightarrow>
     k + (\<Sum>e \<leftarrow> ks. subfield_size (ad_length e)) + (\<Sum>e \<leftarrow> vs. subfield_size (ad_length e)) < 2 ^ 64 \<Longrightarrow>
     foldl (\<lambda>n (k, v). ((n + get_subfield_length k) mod 2 ^ 64 + get_subfield_length v) mod 2 ^ 64) k (zip ks vs)
       = k + (\<Sum>e \<leftarrow> ks. subfield_size (ad_length e)) + (\<Sum>e \<leftarrow> vs. subfield_size (ad_length e))"
  by (induction ks vs arbitrary: k rule: list_induct2)
    (simp_all add: get_subfield_length_def subfield_size_def [symmetric])

lemma wf_init_buffer: "length buf < 2 ^ 64 \<Longrightarrow> argdata_wf (argdata_init_buffer buf conv)"
  by (simp add: argdata_init_buffer_def)

lemma create_int_u_wf: "argdata_create_int_u oom v = Inr ad \<Longrightarrow> argdata_wf ad"
proof -
  assume a: "argdata_create_int_u oom v = Inr ad"
  have "length (int_digits_u v []) \<le> 8"
    using int_digits_u_length [of v] by (cases "v = 0") (auto simp: int_digits_u.simps [of 0])
  then show ?thesis using a by (auto simp: argdata_create_int_u_def Let_def split: if_splits intro!: wf_init_buffer)
qed

lemma create_int_s_wf:
  "- (2 ^ 63) \<le> v \<Longrightarrow> v < 2 ^ 63 \<Longrightarrow> argdata_create_int_s oom v = Some (Inr ad) \<Longrightarrow> argdata_wf ad"
proof (cases "v < 0")
  case True
  assume v: "- (2 ^ 63) \<le> v" and a: "argdata_create_int_s oom v = Some (Inr ad)"
  have "\<not> oom" using a True by (auto simp: argdata_create_int_s_def split: if_splits)
  moreover obtain ds where "int_digits_s v [] = Some ds" "length ds \<le> 8"
    using int_digits_s_val [of 7 v "[]"] True v by auto
  ultimately show ?thesis using a True by (auto simp: argdata_create_int_s_def intro!: wf_init_buffer)
qed (auto simp: argdata_create_int_s_def intro: create_int_u_wf)

lemma create_timestamp_wf: "argdata_create_timestamp oom sec nsec = Inr ad \<Longrightarrow> argdata_wf ad"
proof -
  assume a: "argdata_create_timestamp oom sec nsec = Inr ad"
  then have "argdata_create_timestamp False sec nsec = Inr ad"
    by (auto simp: argdata_create_timestamp_def Let_def split: if_splits)
  from timestamp_bytes [OF this _ refl] show ?thesis by auto
qed

text \<open>
  C25: every value made by the creating functions is well-formed: its \<open>length\<close> is the size of its
  binary form, strings are valid UTF-8, and the buffers are as long as their values say. This is
  the invariant under which serialization is correct.
\<close>

theorem created_wf:
  assumes "argdata_created ad"
  shows "argdata_wf ad"
  using assms
proof (induction rule: argdata_created.induct)
  case (seq es oom ad)
  then show ?case using create_seq_size [of 1 es] by (auto simp: argdata_create_seq_def split: if_splits)
next
  case (map ks vs oom ad)
  then show ?case using create_map_size [of ks vs 1] by (auto simp: argdata_create_map_def split: if_splits)
next
  case (str len buf oom ad)
  then show ?case by (auto simp: argdata_create_str_def split: option.splits if_splits)
qed (auto simp: argdata_null_def argdata_true_def argdata_false_def argdata_create_float_def argdata_create_fd_def
    argdata_create_binary_def argdata_from_buffer_def buf_fd_def split: if_splits
    intro: create_int_u_wf create_int_s_wf create_timestamp_wf intro!: wf_init_buffer)

theorem created_wf_witness:
  "argdata_wf (AD_SEQ [argdata_true, argdata_null] 5)"
proof (rule created_wf, rule argdata_created.seq)
  have d: "subfield_digits 2 = 1" "subfield_digits 0 = 1"
    by (simp_all add: subfield_digits.simps [of 2] subfield_digits.simps [of 0])
  show "argdata_create_seq False [argdata_true, argdata_null] = Inr (AD_SEQ [argdata_true, argdata_null] 5)"
      "1 + (\<Sum>e \<leftarrow> [argdata_true, argdata_null]. subfield_size (ad_length e)) < 2 ^ 64"
    by (simp_all add: argdata_create_seq_def get_subfield_length_def subfield_size_def argdata_true_def argdata_null_def d)
qed (auto intro: argdata_created.intros)

end
