(* ===== verification/ArgdataUtf8.thy ===== *)
theory ArgdataUtf8
  imports ArgdataValues Codec
begin

text \<open>
  The library has two decoders of UTF-8: the codec of the C library and the validation of strings in
  \<^verbatim>\<open>contrib/argdata-0.5\<close>. They accept the same strings.
\<close>

section \<open>Bits of the lead byte\<close>

lemma u8_eq_bits:
  "(x :: u8) = y \<longleftrightarrow> (bit x 0 \<longleftrightarrow> bit y 0) \<and> (bit x 1 \<longleftrightarrow> bit y 1) \<and> (bit x 2 \<longleftrightarrow> bit y 2) \<and> (bit x 3 \<longleftrightarrow> bit y 3)
     \<and> (bit x 4 \<longleftrightarrow> bit y 4) \<and> (bit x 5 \<longleftrightarrow> bit y 5) \<and> (bit x 6 \<longleftrightarrow> bit y 6) \<and> (bit x 7 \<longleftrightarrow> bit y 7)"
    (is "_ \<longleftrightarrow> ?B")
proof
  assume b: ?B
  show "x = y"
  proof (rule bit_word_eqI)
    fix n assume "n < LENGTH(8)"
    then have "n = 0 \<or> n = 1 \<or> n = 2 \<or> n = 3 \<or> n = 4 \<or> n = 5 \<or> n = 6 \<or> n = 7" by auto
    then show "bit x n = bit y n" using b by blast
  qed
qed simp

lemma top_bit: "(w :: u8) AND 0x80 \<noteq> 0 \<longleftrightarrow> bit w 7"
  using and_exp_eq_0_iff_not_bit [of w 7] by simp

lemma lead_bits:
  fixes b :: u8
  shows "b AND 0x80 = 0 \<longleftrightarrow> \<not> bit b 7"
    and "b AND 0xe0 = 0xc0 \<longleftrightarrow> bit b 7 \<and> bit b 6 \<and> \<not> bit b 5"
    and "b AND 0xf0 = 0xe0 \<longleftrightarrow> bit b 7 \<and> bit b 6 \<and> bit b 5 \<and> \<not> bit b 4"
    and "b AND 0xf8 = 0xf0 \<longleftrightarrow> bit b 7 \<and> bit b 6 \<and> bit b 5 \<and> bit b 4 \<and> \<not> bit b 3"
  by (use top_bit [of b] in blast) (auto simp: u8_eq_bits bit_simps)

definition shl1 :: "u8 \<Rightarrow> u8" where
  "shl1 b = push_bit 1 b"

lemma shifted_bits:
  "shl1 b AND 0x80 \<noteq> 0 \<longleftrightarrow> bit b 6" "shl1 (shl1 b) AND 0x80 \<noteq> 0 \<longleftrightarrow> bit b 5"
  "shl1 (shl1 (shl1 b)) AND 0x80 \<noteq> 0 \<longleftrightarrow> bit b 4" "shl1 (shl1 (shl1 (shl1 b))) AND 0x80 \<noteq> 0 \<longleftrightarrow> bit b 3"
  unfolding top_bit shl1_def by (simp_all add: bit_push_bit_iff del: push_bit_Suc push_bit_of_Suc_0)

section \<open>Code points\<close>

definition join6 :: "u32 \<Rightarrow> u8 \<Rightarrow> u32" where
  "join6 p c = push_bit 6 p OR ucast (c AND 0x3f)"

lemma code_point_masks:
  fixes b :: u8
  shows "join6 (ucast b) c AND 0x7ff = join6 (ucast (b AND 0x1f)) c"
  "join6 (join6 (ucast b) c) d AND 0xffff = join6 (join6 (ucast (b AND 0xf)) c) d"
  "join6 (join6 (join6 (ucast b) c) d) e AND 0x1fffff = join6 (join6 (join6 (ucast (b AND 0x7)) c) d) e"
proof -
  have m: "(0x7ff :: u32) = mask 11" "(0xffff :: u32) = mask 16" "(0x1fffff :: u32) = mask 21"
      "(0x1f :: u8) = mask 5" "(0xf :: u8) = mask 4" "(0x7 :: u8) = mask 3" "(0x3f :: u8) = mask 6"
    by (simp_all add: mask_eq_exp_minus_1)
  show "join6 (ucast b) c AND 0x7ff = join6 (ucast (b AND 0x1f)) c"
    unfolding join6_def m by (rule bit_word_eqI) (auto simp: bit_simps)
  show "join6 (join6 (ucast b) c) d AND 0xffff = join6 (join6 (ucast (b AND 0xf)) c) d"
    unfolding join6_def m by (rule bit_word_eqI) (auto simp: bit_simps)
  show "join6 (join6 (join6 (ucast b) c) d) e AND 0x1fffff = join6 (join6 (join6 (ucast (b AND 0x7)) c) d) e"
    unfolding join6_def m by (rule bit_word_eqI) (auto simp: bit_simps)
qed

section \<open>One character\<close>

text \<open>The number of bytes of the character at the start of a buffer, by each of the decoders.\<close>

definition decoded_bytes :: "u8 list \<Rightarrow> nat option" where
  "decoded_bytes buf = (case utf_8_mbtoc32 buf mbstate_init of Char n c ps \<Rightarrow> Some n | _ \<Rightarrow> None)"

definition bad_code_point :: "u32 \<Rightarrow> u32 \<Rightarrow> bool" where
  "bad_code_point lower p \<longleftrightarrow> p < lower \<or> (p \<ge> 0xd800 \<and> p \<le> 0xdfff) \<or> p > 0x10ffff"

definition is_cont :: "u8 \<Rightarrow> bool" where
  "is_cont c \<longleftrightarrow> c AND 0xc0 = 0x80"

lemma continue_steps:
  "utf_8_continue [] used left part lower ps = Partial (mbstate_set_multibyte left part lower)"
  "utf_8_continue (c # bs) used 1 part lower ps =
     (if \<not> is_cont c \<or> bad_code_point lower (join6 part c) then Illegal ps
      else Char (used + 1) (join6 part c) mbstate_init)"
  "utf_8_continue (c # bs) used 2 part lower ps =
     (if \<not> is_cont c then Illegal ps
      else utf_8_continue bs (used + 1) 1 (join6 part c) lower ps)"
  "utf_8_continue (c # bs) used 3 part lower ps =
     (if \<not> is_cont c then Illegal ps
      else utf_8_continue bs (used + 1) 2 (join6 part c) lower ps)"
  by (simp_all add: Let_def is_cont_def bad_code_point_def join6_def)

lemma validate_cont_step:
  "shl1 b AND 0x80 \<noteq> 0 \<Longrightarrow> validate_cont b cp n [] = Inl EILSEQ"
  "shl1 b AND 0x80 \<noteq> 0 \<Longrightarrow> validate_cont b cp n (c # rest) =
     (if n + 1 > 3 \<or> \<not> is_cont c then Inl EILSEQ
      else validate_cont (shl1 b) (join6 cp c) (n + 1) rest)"
  "shl1 b AND 0x80 = 0 \<Longrightarrow> validate_cont b cp n buf = Inr (cp, n, buf)"
  unfolding shl1_def
  by (simp_all add: validate_cont.simps [of b cp n] is_cont_def join6_def)

definition validated_bytes :: "u8 list \<Rightarrow> nat option" where
  "validated_bytes buf =
     (case buf of
        [] \<Rightarrow> None
      | b # rest \<Rightarrow>
          if b AND 0x80 = 0 then Some 1
          else
            (case validate_cont b (ucast b) 0 rest of
               Inl e \<Rightarrow> None
             | Inr (cp, n, rest') \<Rightarrow>
                 (let codepoint = cp AND validate_mask ! n in
                  if n = 0 \<or> codepoint \<le> validate_mask ! (n - 1)
                     \<or> (codepoint \<ge> 0xd800 \<and> codepoint \<le> 0xdfff) \<or> codepoint > 0x10ffff
                  then None else Some (n + 1))))"

lemma same_bytes: "validated_bytes (b # rest) = decoded_bytes (b # rest)"
proof -
  have init: "bytesleft mbstate_init = 0" by (simp add: mbstate_init_def)
  have le: "p \<le> 0x7f \<longleftrightarrow> p < 0x80" "p \<le> 0x7ff \<longleftrightarrow> p < 0x800" "p \<le> 0xffff \<longleftrightarrow> p < 0x10000" for p :: u32
    by (simp_all add: word_le_def word_less_def) presburger+
  note bits = lead_bits [of b] and shift = shifted_bits [of b]
  consider "\<not> bit b 7" | "bit b 7" "\<not> bit b 6" | "bit b 7" "bit b 6" "\<not> bit b 5"
    | "bit b 7" "bit b 6" "bit b 5" "\<not> bit b 4" | "bit b 7" "bit b 6" "bit b 5" "bit b 4" "\<not> bit b 3"
    | "bit b 7" "bit b 6" "bit b 5" "bit b 4" "bit b 3" by blast
  then show ?thesis
  proof cases
    case 1
    then show ?thesis using bits init by (simp add: validated_bytes_def decoded_bytes_def utf_8_mbtoc32_def)
  next
    case 2
    then have "shl1 b AND 0x80 = 0" using shift by blast
    then show ?thesis using 2 bits init
      by (simp add: validated_bytes_def decoded_bytes_def utf_8_mbtoc32_def validate_cont_step)
  next
    case 3
    then have s: "shl1 b AND 0x80 \<noteq> 0" "shl1 (shl1 b) AND 0x80 = 0" using shift by blast+
    show ?thesis using 3 bits init
      by (cases rest) (simp_all add: validated_bytes_def decoded_bytes_def utf_8_mbtoc32_def validate_cont_step s continue_steps
          validate_mask_def code_point_masks bad_code_point_def le Let_def del: utf_8_continue.simps(2))
  next
    case 4
    then have s: "shl1 b AND 0x80 \<noteq> 0" "shl1 (shl1 b) AND 0x80 \<noteq> 0" "shl1 (shl1 (shl1 b)) AND 0x80 = 0"
      using shift by blast+
    show ?thesis
    proof (cases rest)
      case (Cons c r)
      then show ?thesis using 4 bits init
        by (cases r) (simp_all add: validated_bytes_def decoded_bytes_def utf_8_mbtoc32_def validate_cont_step s continue_steps
            validate_mask_def code_point_masks bad_code_point_def le Let_def numeral_2_eq_2 numeral_3_eq_3 del: utf_8_continue.simps(2))
    qed (use 4 bits init in \<open>simp add: validated_bytes_def decoded_bytes_def utf_8_mbtoc32_def validate_cont_step s
        continue_steps del: utf_8_continue.simps(2)\<close>)
  next
    case 5
    then have s: "shl1 b AND 0x80 \<noteq> 0" "shl1 (shl1 b) AND 0x80 \<noteq> 0" "shl1 (shl1 (shl1 b)) AND 0x80 \<noteq> 0"
        "shl1 (shl1 (shl1 (shl1 b))) AND 0x80 = 0"
      using shift by blast+
    note rules = validated_bytes_def decoded_bytes_def utf_8_mbtoc32_def validate_cont_step s continue_steps
      validate_mask_def code_point_masks bad_code_point_def le Let_def numeral_2_eq_2 numeral_3_eq_3
    consider "rest = []" | c where "rest = [c]" | c d where "rest = [c, d]" | c d e r where "rest = c # d # e # r"
      by (metis list.exhaust)
    then show ?thesis
      by cases (use 5 bits init in \<open>simp_all add: rules del: utf_8_continue.simps(2)\<close>)
  next
    case 6
    then have s: "shl1 b AND 0x80 \<noteq> 0" "shl1 (shl1 b) AND 0x80 \<noteq> 0" "shl1 (shl1 (shl1 b)) AND 0x80 \<noteq> 0"
        "shl1 (shl1 (shl1 (shl1 b))) AND 0x80 \<noteq> 0"
      using shift by blast+
    have "\<exists>e. validate_cont b (ucast b) 0 rest = Inl e"
    proof -
      consider "rest = []" | c where "rest = [c]" | c d where "rest = [c, d]" | c d e where "rest = [c, d, e]"
        | c d e f r where "rest = c # d # e # f # r"
        by (metis list.exhaust)
      then show ?thesis by cases (simp_all add: validate_cont_step s)
    qed
    then show ?thesis using 6 bits init
      by (auto simp: validated_bytes_def decoded_bytes_def utf_8_mbtoc32_def)
  qed
qed

section \<open>Whole strings\<close>

lemma validate_cont_rest:
  "validate_cont b cp k buf = Inr (cp', n, rest) \<Longrightarrow> k \<le> n \<and> rest = drop (n - k) buf"
proof (induction b cp k buf rule: validate_cont.induct)
  case (1 b cp k buf)
  show ?case
  proof (cases "push_bit 1 b AND 0x80 \<noteq> 0")
    case True
    then obtain c r where buf: "buf = c # r" "\<not> (k + 1 > 3 \<or> c AND 0xc0 \<noteq> 0x80)"
        "validate_cont (push_bit 1 b) (push_bit 6 cp OR ucast (c AND 0x3f)) (k + 1) r = Inr (cp', n, rest)"
      using 1(2) unfolding validate_cont.simps [of b cp k buf] by (auto split: list.splits if_splits)
    from 1(1) [OF True buf(1,2,3)] show ?thesis
      using buf(1) by (auto simp: Suc_diff_le drop_Cons' )
  qed (use 1(2) in \<open>simp add: validate_cont.simps [of b cp k buf]\<close>)
qed

lemma validate_string_step:
  "validate_string (b # rest) = None \<longleftrightarrow>
     (\<exists>n. validated_bytes (b # rest) = Some n \<and> validate_string (drop n (b # rest)) = None)"
  unfolding validate_string.simps [of "b # rest"]
  by (auto simp: validated_bytes_def Let_def dest!: validate_cont_rest split: sum.splits prod.splits if_splits)

lemma continue_Char_init:
  "utf_8_continue bs used left part lower ps = Char n c q \<Longrightarrow> q = mbstate_init \<and> used < n"
  by (induction bs used left part lower ps rule: utf_8_continue.induct)
    (auto simp: Let_def split: if_splits, metis Suc_lessD)

lemma mbtoc32_Char_init: "utf_8_mbtoc32 bs ps = Char n c q \<Longrightarrow> q = mbstate_init \<and> 0 < n"
  by (auto simp: utf_8_mbtoc32_def simp del: utf_8_continue.simps dest: continue_Char_init split: list.splits if_splits)

lemma mbtoc32_Partial_init: "bs \<noteq> [] \<Longrightarrow> utf_8_mbtoc32 bs ps = Partial q \<Longrightarrow> q \<noteq> mbstate_init"
  using mbtoc32_Partial_cont [of bs ps q] by (auto simp: mbstate_init_def)

lemma validate_string_count:
  "validate_string bs = None \<longleftrightarrow>
     (\<exists>n. mbstoc32s_count utf_8_mbtoc32 bs mbstate_init True k = Some (Inr n, mbstate_init))"
proof (induction bs arbitrary: k rule: length_induct)
  case (1 bs)
  show ?case
  proof (cases bs)
    case Nil
    then show ?thesis
      by (subst mbstoc32s_count.simps) (simp add: validate_string.simps [of "[]"] utf_8_mbtoc32_def)
  next
    case (Cons b rest)
    note step = validate_string_step [of b rest, unfolded same_bytes, folded Cons]
    show ?thesis
    proof (cases "utf_8_mbtoc32 bs mbstate_init")
      case (Char n c q)
      then have q: "q = mbstate_init" "0 < n" using mbtoc32_Char_init by blast+
      have "validate_string bs = None \<longleftrightarrow> validate_string (drop n bs) = None"
        unfolding step by (simp add: decoded_bytes_def Char)
      also have "\<dots> \<longleftrightarrow> (\<exists>m. mbstoc32s_count utf_8_mbtoc32 (drop n bs) mbstate_init True (k + 1) = Some (Inr m, mbstate_init))"
        using 1 [rule_format, of "drop n bs" "k + 1"] q Cons by simp
      finally show ?thesis by (subst mbstoc32s_count.simps) (simp add: Char q)
    next
      case (Partial q)
      then have "q \<noteq> mbstate_init" using mbtoc32_Partial_init Cons by blast
      then show ?thesis using step
        by (subst mbstoc32s_count.simps) (simp add: Partial decoded_bytes_def)
    next
      case (Illegal q)
      then show ?thesis using step
        by (subst mbstoc32s_count.simps) (simp add: decoded_bytes_def)
    qed
  qed
qed

text \<open>
  C19: the two UTF-8 decoders agree: \<open>validate_string()\<close> of argdata accepts exactly the strings that
  the codec of the C library converts completely, that is, which \<open>mbstoc32s()\<close> of UTF-8 counts
  without an error and without an incomplete character at the end.
\<close>

theorem validate_string_utf_8:
  "validate_string bs = None \<longleftrightarrow>
     (\<exists>n. mbstoc32s utf_8_mbtoc32 None bs mbstate_init True = Some (Inr n, [], Some bs, mbstate_init))"
  unfolding validate_string_count [of bs 0] by (auto simp: mbstoc32s_def)

end
