(* ===== verification/Hsearch.thy ===== *)
theory Hsearch
  imports StringCorrect
begin

text \<open>
  The hash tables of \<^verbatim>\<open>libc/search\<close>: FNV-1a hashing and quadratic probing. A table is the list of
  its entries, \<open>None\<close> where the key is \<open>NULL\<close>; a pointer to an entry is its position. A key is the
  bytes of a C string. The probing loops only end at a free entry, so they are partial functions.
  \<open>calloc()\<close> succeeds or fails by a parameter, and \<open>arc4random_buf()\<close> chooses the offset basis.
\<close>

section \<open>Operations\<close>

record ENTRY =
  key :: "u8 list"
  data :: nat

datatype ACTION = FIND | ENTER

record hsearch =
  offset_basis :: u64
  index_mask :: u64
  entries_used :: u64
  entries :: "ENTRY option list"

definition hcreate_r :: "bool \<Rightarrow> bool \<Rightarrow> u64 \<Rightarrow> hsearch option" where
  "hcreate_r malloc_ok calloc_ok basis =
     (if \<not> malloc_ok \<or> \<not> calloc_ok then None
      else Some \<lparr>offset_basis = basis, index_mask = 0xf, entries_used = 0, entries = replicate 16 None\<rparr>)"

partial_function (option) hsearch_lookup_free :: "ENTRY option list \<Rightarrow> u64 \<Rightarrow> u64 \<Rightarrow> u64 \<Rightarrow> nat option" where
  "hsearch_lookup_free es m index i =
     (let s = unat (index AND m) in
      if es ! s = None then Some s else hsearch_lookup_free es m (index + (i + 1)) (i + 1))"

fun hsearch_hash :: "u64 \<Rightarrow> u8 list \<Rightarrow> u64" where
  "hsearch_hash hash [] = hash"
| "hsearch_hash hash (c # str) =
     (if c = 0 then hash else hsearch_hash ((hash XOR ucast c) * 1099511628211) str)"

partial_function (option) hsearch_find :: "u8 list \<Rightarrow> ENTRY option list \<Rightarrow> u64 \<Rightarrow> u64 \<Rightarrow> u64 \<Rightarrow> nat option" where
  "hsearch_find k es m index i =
     (let s = unat (index AND m) in
      if es ! s = None then Some s
      else if strcmp_spec (key (the (es ! s))) k = 0 then Some s
      else hsearch_find k es m (index + (i + 1)) (i + 1))"

fun hsearch_rehash :: "u64 \<Rightarrow> u64 \<Rightarrow> ENTRY option list \<Rightarrow> ENTRY option list \<Rightarrow> ENTRY option list option" where
  "hsearch_rehash basis m [] es = Some es"
| "hsearch_rehash basis m (None # old) es = hsearch_rehash basis m old es"
| "hsearch_rehash basis m (Some e # old) es =
     (case hsearch_lookup_free es m (hsearch_hash basis (key e)) 0 of
        None \<Rightarrow> None
      | Some s \<Rightarrow> hsearch_rehash basis m old (es[s := Some e]))"

definition hsearch_r :: "bool \<Rightarrow> ENTRY \<Rightarrow> ACTION \<Rightarrow> hsearch \<Rightarrow> ((errno + nat) \<times> hsearch) option" where
  "hsearch_r calloc_ok item action t =
     (let hash = hsearch_hash (offset_basis t) (key item) in
      case hsearch_find (key item) (entries t) (index_mask t) hash 0 of
        None \<Rightarrow> None
      | Some s \<Rightarrow>
          if entries t ! s \<noteq> None then Some (Inr s, t)
          else if action = FIND then Some (Inl ESRCH, t)
          else if entries_used t * 2 \<ge> index_mask t then
            (if \<not> calloc_ok then Some (Inl ENOMEM, t)
             else
               (let new_count = (index_mask t + 1) * 2; m = new_count - 1 in
                case hsearch_rehash (offset_basis t) m (entries t) (replicate (unat new_count) None) of
                  None \<Rightarrow> None
                | Some es \<Rightarrow>
                    (case hsearch_lookup_free es m hash 0 of
                       None \<Rightarrow> None
                     | Some s' \<Rightarrow>
                         Some (Inr s', t\<lparr>entries := es[s' := Some item], index_mask := m,
                                         entries_used := entries_used t + 1\<rparr>))))
          else Some (Inr s, t\<lparr>entries := (entries t)[s := Some item], entries_used := entries_used t + 1\<rparr>))"

section \<open>Quadratic probing visits every entry\<close>

definition tri :: "nat \<Rightarrow> nat" where
  "tri j = j * (j + 1) div 2"

definition slot :: "nat \<Rightarrow> nat \<Rightarrow> nat \<Rightarrow> nat" where
  "slot k h j = (h + tri j) mod 2 ^ k"

lemma tri_Suc: "tri (Suc j) = tri j + (j + 1)"
proof -
  have "Suc j * (Suc j + 1) = j * (j + 1) + 2 * (j + 1)" by simp
  then show ?thesis unfolding tri_def by simp
qed

lemma tri_double: "2 * tri j = j * (j + 1)"
  by (induction j) (simp_all add: tri_Suc, simp add: tri_def)

lemma slot_inj:
  assumes "i < j" "j < 2 ^ k"
  shows "slot k h i \<noteq> slot k h j"
proof
  assume "slot k h i = slot k h j"
  then have "2 ^ k dvd (h + tri j) - (h + tri i)"
    using assms(1) unfolding slot_def by (metis mod_eq_dvd_iff_nat nat_le_linear dvd_0_right diff_is_0_eq)
  then have d: "2 ^ k dvd tri j - tri i" by simp
  have "2 * (tri j - tri i) = j * (j + 1) - i * (i + 1)" by (simp add: diff_mult_distrib2 tri_double)
  also have "\<dots> = (j - i) * (i + j + 1)"
  proof -
    obtain d where "j = i + d" using assms(1) less_imp_add_positive by blast
    then have "j * (j + 1) = i * (i + 1) + (j - i) * (i + j + 1)" by (simp add: algebra_simps)
    then show ?thesis by simp
  qed
  finally have "2 ^ Suc k dvd (j - i) * (i + j + 1)"
    using mult_dvd_mono [OF dvd_refl [of 2] d] by simp
  moreover have "odd (j - i) \<or> odd (i + j + 1)" using assms(1) by auto
  ultimately have "2 ^ Suc k dvd j - i \<or> 2 ^ Suc k dvd i + j + 1"
    by (metis coprime_dvd_mult_left_iff coprime_dvd_mult_right_iff coprime_left_2_iff_odd coprime_power_left_iff)
  then show False
    using assms by (auto dest!: dvd_imp_le)
qed

lemma slot_surj:
  assumes "s < 2 ^ k"
  shows "\<exists>j. slot k h j = s"
proof -
  have "inj_on (slot k h) {..<2 ^ k}"
    by (rule inj_onI) (metis slot_inj lessThan_iff nat_neq_iff)
  then have "card (slot k h ` {..<2 ^ k}) = 2 ^ k" by (simp add: card_image)
  moreover have "slot k h ` {..<2 ^ k} \<subseteq> {..<2 ^ k}" by (auto simp: slot_def)
  ultimately have "slot k h ` {..<2 ^ k} = {..<2 ^ k}" by (intro card_subset_eq) auto
  then show ?thesis using assms by (metis imageE lessThan_iff)
qed

lemma slot_less: "slot k h j < 2 ^ k"
  by (simp add: slot_def)

lemma word_slot:
  assumes "k \<le> 64"
  shows "unat ((hash + of_nat (tri j)) AND mask k :: u64) = slot k (unat hash) j"
proof -
  have "unat ((hash + of_nat (tri j)) AND mask k :: u64) = unat (hash + of_nat (tri j)) mod 2 ^ k"
    unfolding take_bit_eq_mask [symmetric] unsigned_take_bit_eq by (simp add: take_bit_eq_mod)
  also have "unat (hash + of_nat (tri j)) = (unat hash + tri j) mod 2 ^ 64"
    by (simp add: unat_word_ariths unat_of_nat take_bit_eq_mod mod_add_right_eq)
  also have "\<dots> mod 2 ^ k = (unat hash + tri j) mod 2 ^ k"
    by (rule mod_mod_cancel) (rule le_imp_power_dvd [OF assms])
  finally show ?thesis by (simp add: slot_def)
qed

text \<open>A probing loop returns the first entry at which it stops.\<close>

lemma probe_loop:
  fixes f :: "u64 \<Rightarrow> u64 \<Rightarrow> nat option"
  assumes f: "\<And>index i. f index i =
      (if stop (unat (index AND mask k)) then Some (unat (index AND mask k)) else f (index + (i + 1)) (i + 1))"
    and k: "k \<le> 64" and n: "stop (slot k (unat hash) n)" "\<forall>j < n. \<not> stop (slot k (unat hash) j)"
  shows "j \<le> n \<Longrightarrow> f (hash + of_nat (tri j)) (of_nat j) = Some (slot k (unat hash) n)"
proof (induction "n - j" arbitrary: j)
  case 0
  then show ?case using n(1) by (subst f) (simp add: word_slot [OF k])
next
  case (Suc d)
  have "f (hash + of_nat (tri (Suc j))) (of_nat (Suc j)) = Some (slot k (unat hash) n)"
    using Suc(2) by (intro Suc(1)) simp_all
  moreover have e: "hash + of_nat (tri j) + (of_nat j + 1) = hash + of_nat (tri (Suc j))" "of_nat j + 1 = (of_nat (Suc j) :: u64)"
    by (simp_all add: tri_Suc)
  moreover have "(stop (slot k (unat hash) j)) = False" using n(2) Suc(2) by simp
  ultimately show ?case
    unfolding f [of "hash + of_nat (tri j)" "of_nat j"] word_slot [OF k] e(1) unfolding e(2) by (simp only: if_False)
qed

section \<open>The invariant of a table\<close>

definition ehash :: "u64 \<Rightarrow> ENTRY \<Rightarrow> nat" where
  "ehash basis e = unat (hsearch_hash basis (key e))"

definition entry_compar :: "ENTRY \<Rightarrow> ENTRY \<Rightarrow> int" where
  "entry_compar a b = strcmp_spec (key a) (key b)"

definition table_elems :: "ENTRY option list \<Rightarrow> ENTRY set" where
  "table_elems es = {e. Some e \<in> set es}"

definition used :: "ENTRY option list \<Rightarrow> nat" where
  "used es = length (filter (\<lambda>x. x \<noteq> None) es)"

text \<open>An entry stands on the probe sequence of its key, with no free entry before it.\<close>

definition chain :: "ENTRY option list \<Rightarrow> nat \<Rightarrow> nat \<Rightarrow> nat \<Rightarrow> bool" where
  "chain es k h s \<longleftrightarrow> (\<exists>j. slot k h j = s \<and> (\<forall>i < j. es ! slot k h i \<noteq> None))"

definition table_ok :: "u64 \<Rightarrow> nat \<Rightarrow> ENTRY option list \<Rightarrow> bool" where
  "table_ok basis k es \<longleftrightarrow>
     k \<le> 64 \<and> length es = 2 ^ k
     \<and> (\<forall>s e. s < 2 ^ k \<longrightarrow> es ! s = Some e \<longrightarrow> chain es k (ehash basis e) s)
     \<and> (\<forall>s s' e e'. s < 2 ^ k \<longrightarrow> s' < 2 ^ k \<longrightarrow> es ! s = Some e \<longrightarrow> es ! s' = Some e' \<longrightarrow>
          entry_compar e e' = 0 \<longrightarrow> s = s')"

lemma uint_u8_eq: "uint (x :: u8) = uint y \<longleftrightarrow> x = y"
  by (rule word_uint_eq_iff [symmetric])

lemma strcmp_zero_hash: "strcmp_spec a b = 0 \<Longrightarrow> hsearch_hash h a = hsearch_hash h b"
  by (induction a b arbitrary: h rule: strcmp_spec.induct) (auto simp: byte_diff_def uint_u8_eq unsigned_eq_0_iff split: if_splits)

lemma compar_zero_hash: "entry_compar a b = 0 \<Longrightarrow> ehash basis a = ehash basis b"
  by (simp add: entry_compar_def ehash_def strcmp_zero_hash)

lemma used_less_free: "used es < length es \<Longrightarrow> \<exists>s < length es. es ! s = None"
proof (rule ccontr)
  assume u: "used es < length es" and "\<not> (\<exists>s < length es. es ! s = None)"
  then have "filter (\<lambda>x. x \<noteq> None) es = es" by (intro filter_True) (auto simp: in_set_conv_nth)
  then show False using u by (simp add: used_def)
qed

lemma first_stop:
  assumes "s < 2 ^ k" "stop s"
  obtains n where "stop (slot k h n)" "\<forall>j < n. \<not> stop (slot k h j)"
proof -
  have "\<exists>j. stop (slot k h j)" using slot_surj [OF assms(1), of h] assms(2) by blast
  then show ?thesis using that LeastI_ex [of "\<lambda>j. stop (slot k h j)"] not_less_Least by blast
qed

lemma lookup_free_finds:
  assumes "k \<le> 64" "length es = 2 ^ k" "used es < 2 ^ k"
  obtains s where "hsearch_lookup_free es (mask k) hash 0 = Some s" "s < 2 ^ k" "es ! s = None"
    "chain es k (unat hash) s"
proof -
  obtain s where "s < 2 ^ k" "es ! s = None" using used_less_free [of es] assms by auto
  then obtain n where n: "es ! slot k (unat hash) n = None" "\<forall>j < n. \<not> es ! slot k (unat hash) j = None"
    by (rule first_stop [where stop = "\<lambda>s. es ! s = None"])
  have "hsearch_lookup_free es (mask k) (hash + of_nat (tri 0)) (of_nat 0) = Some (slot k (unat hash) n)"
  proof (rule probe_loop [where stop = "\<lambda>s. es ! s = None"])
    show "hsearch_lookup_free es (mask k) index i =
        (if es ! unat (index AND mask k) = None then Some (unat (index AND mask k))
         else hsearch_lookup_free es (mask k) (index + (i + 1)) (i + 1))" for index i
      by (subst hsearch_lookup_free.simps) (simp only: Let_def)
  qed (use n assms in simp_all)
  then show ?thesis using that [of "slot k (unat hash) n"] n by (auto simp: slot_less chain_def tri_def)
qed

lemma find_finds:
  assumes ok: "table_ok basis k es" and u: "used es < 2 ^ k"
  obtains s where "hsearch_find (key q) es (mask k) (hsearch_hash basis (key q)) 0 = Some s" "s < 2 ^ k"
    "es ! s = None \<and> chain es k (ehash basis q) s \<and> (\<forall>x \<in> table_elems es. entry_compar q x \<noteq> 0)
     \<or> (\<exists>x. es ! s = Some x \<and> entry_compar q x = 0)"
proof -
  let ?h = "ehash basis q"
  let ?stop = "\<lambda>s. es ! s = None \<or> strcmp_spec (key (the (es ! s))) (key q) = 0"
  have len: "k \<le> 64" "length es = 2 ^ k" using ok by (auto simp: table_ok_def)
  obtain s where "s < 2 ^ k" "es ! s = None" using used_less_free [of es] len u by auto
  then obtain n where n: "?stop (slot k ?h n)" "\<forall>j < n. \<not> ?stop (slot k ?h j)"
    using first_stop [where stop = ?stop] by metis
  have f: "hsearch_find (key q) es (mask k) (hsearch_hash basis (key q) + of_nat (tri 0)) (of_nat 0)
      = Some (slot k (unat (hsearch_hash basis (key q))) n)"
  proof (rule probe_loop [where stop = ?stop])
    show "hsearch_find (key q) es (mask k) index i =
        (if ?stop (unat (index AND mask k)) then Some (unat (index AND mask k))
         else hsearch_find (key q) es (mask k) (index + (i + 1)) (i + 1))" for index i
      by (subst hsearch_find.simps) (simp add: Let_def)
  qed (use n len in \<open>simp_all add: ehash_def\<close>)
  have "es ! slot k ?h n = None \<and> chain es k ?h (slot k ?h n) \<and> (\<forall>x \<in> table_elems es. entry_compar q x \<noteq> 0)
     \<or> (\<exists>x. es ! slot k ?h n = Some x \<and> entry_compar q x = 0)"
  proof (cases "es ! slot k ?h n")
    case (Some x)
    then have "strcmp_spec (key x) (key q) = 0" using n(1) by simp
    then show ?thesis using Some strcmp_spec_swap [of "key q" "key x"] by (auto simp: entry_compar_def)
  next
    case None
    have "entry_compar q x \<noteq> 0" if x: "x \<in> table_elems es" for x
    proof
      assume c: "entry_compar q x = 0"
      obtain s where s: "s < 2 ^ k" "es ! s = Some x" using x len by (auto simp: table_elems_def in_set_conv_nth)
      then have "chain es k ?h s" using ok compar_zero_hash [OF c] by (auto simp: table_ok_def)
      then obtain j where j: "slot k ?h j = s" "\<forall>i < j. es ! slot k ?h i \<noteq> None" by (auto simp: chain_def)
      have "?stop (slot k ?h j)"
        using j(1) s c strcmp_spec_swap [of "key q" "key x"] by (simp add: entry_compar_def)
      then have "n \<le> j" using n(2) not_less by blast
      then consider "n < j" | "n = j" by linarith
      then show False using j s None by cases auto
    qed
    then show ?thesis using None n(2) by (auto simp: chain_def)
  qed
  then show ?thesis using that f by (simp add: slot_less ehash_def tri_def)
qed

section \<open>Inserting entries\<close>

lemma used_update: "s < length es \<Longrightarrow> es ! s = None \<Longrightarrow> used (es[s := Some e]) = Suc (used es)"
proof (induction es arbitrary: s)
  case (Cons a es)
  then show ?case by (cases s) (auto simp: used_def)
qed simp

lemma elems_update:
  "s < length es \<Longrightarrow> es ! s = None \<Longrightarrow> table_elems (es[s := Some e]) = insert e (table_elems es)"
proof -
  assume s: "s < length es" "es ! s = None"
  have "Some x \<in> set (es[s := Some e]) \<longleftrightarrow> x = e \<or> Some x \<in> set es" for x
    using s by (auto simp: in_set_conv_nth nth_list_update) (metis option.distinct(1))+
  then show ?thesis by (auto simp: table_elems_def)
qed

lemma chain_update: "chain es k h s' \<Longrightarrow> s < length es \<Longrightarrow> chain (es[s := Some e]) k h s'"
  unfolding chain_def by (metis nth_list_update_eq nth_list_update_neq option.distinct(1))

lemma entry_compar_sym: "entry_compar a b = 0 \<longleftrightarrow> entry_compar b a = 0"
  using strcmp_spec_swap [of "key a" "key b"] by (auto simp: entry_compar_def)

lemma table_insert:
  assumes ok: "table_ok basis k es" and s: "s < 2 ^ k" "es ! s = None" "chain es k (ehash basis e) s"
    and new: "\<forall>x \<in> table_elems es. entry_compar e x \<noteq> 0"
  shows "table_ok basis k (es[s := Some e])"
proof -
  note ok' = ok [unfolded table_ok_def]
  have mem: "x \<in> table_elems es" if "s' < 2 ^ k" "es ! s' = Some x" for s' x
    using that ok' by (auto simp: table_elems_def) (metis nth_mem)
  have up: "(es[s := Some e]) ! s' = (if s' = s then Some e else es ! s')" if "s' < 2 ^ k" for s'
    using that s ok' by (simp add: nth_list_update)
  have "chain (es[s := Some e]) k (ehash basis x) s'" if "s' < 2 ^ k" "(es[s := Some e]) ! s' = Some x" for s' x
  proof -
    have "chain es k (ehash basis x) s'" using that up [of s'] s(3) ok' by (auto split: if_splits)
    then show ?thesis using s(1) ok' by (intro chain_update) auto
  qed
  moreover have "s1 = s2" if a: "s1 < 2 ^ k" "s2 < 2 ^ k" "(es[s := Some e]) ! s1 = Some x"
      "(es[s := Some e]) ! s2 = Some y" "entry_compar x y = 0" for s1 s2 x y
  proof -
    consider "s1 = s" "s2 = s" | "s1 = s" "s2 \<noteq> s" | "s1 \<noteq> s" "s2 = s" | "s1 \<noteq> s" "s2 \<noteq> s" by blast
    then show ?thesis
    proof cases
      case 2
      then have "x = e" "y \<in> table_elems es" using a up mem by auto
      then show ?thesis using new a(5) by blast
    next
      case 3
      then have "y = e" "x \<in> table_elems es" using a up mem by auto
      then show ?thesis using new a(5) entry_compar_sym by blast
    next
      case 4
      then have "es ! s1 = Some x" "es ! s2 = Some y" using a up by auto
      then show ?thesis using ok' a by blast
    qed simp
  qed
  ultimately show ?thesis using ok' by (auto simp: table_ok_def)
qed

lemma hsearch_rehash_ok:
  "table_ok basis k es \<Longrightarrow> used es + used old < 2 ^ k \<Longrightarrow>
     (\<forall>x \<in> table_elems old. \<forall>y \<in> table_elems es. entry_compar x y \<noteq> 0) \<Longrightarrow>
     (\<forall>i j x y. i < length old \<longrightarrow> j < length old \<longrightarrow> old ! i = Some x \<longrightarrow> old ! j = Some y \<longrightarrow>
        entry_compar x y = 0 \<longrightarrow> i = j) \<Longrightarrow>
     \<exists>es'. hsearch_rehash basis (mask k) old es = Some es' \<and> table_ok basis k es'
       \<and> used es' = used es + used old \<and> table_elems es' = table_elems es \<union> table_elems old"
proof (induction old arbitrary: es)
  case Nil
  then show ?case by (simp add: used_def table_elems_def)
next
  case (Cons a old)
  have tail: "\<forall>i j x y. i < length old \<longrightarrow> j < length old \<longrightarrow> old ! i = Some x \<longrightarrow> old ! j = Some y \<longrightarrow>
      entry_compar x y = 0 \<longrightarrow> i = j"
    using Cons.prems(4) by (metis Suc_less_eq length_Cons nat.inject nth_Cons_Suc)
  show ?case
  proof (cases a)
    case None
    have el: "table_elems (a # old) = table_elems old" "used (a # old) = used old"
      using None by (auto simp: table_elems_def used_def)
    show ?thesis using Cons.IH [OF Cons.prems(1) _ _ tail] Cons.prems(2,3) unfolding el by (simp add: None)
  next
    case (Some e)
    have el: "table_elems (a # old) = insert e (table_elems old)" "used (a # old) = Suc (used old)"
      using Some by (auto simp: table_elems_def used_def)
    have len: "k \<le> 64" "length es = 2 ^ k" using Cons.prems(1) by (auto simp: table_ok_def)
    obtain s where s: "hsearch_lookup_free es (mask k) (hsearch_hash basis (key e)) 0 = Some s" "s < 2 ^ k"
        "es ! s = None" "chain es k (ehash basis e) s"
      using lookup_free_finds [OF len] Cons.prems(2) unfolding ehash_def el by (metis add_lessD1)
    let ?es = "es[s := Some e]"
    have ok: "table_ok basis k ?es"
      using Cons.prems(1,3) s by (intro table_insert) (auto simp: el)
    have u: "used ?es = Suc (used es)" "table_elems ?es = insert e (table_elems es)"
      using s len by (auto simp: used_update elems_update)
    have "entry_compar x e \<noteq> 0" if x: "x \<in> table_elems old" for x
    proof
      assume c: "entry_compar x e = 0"
      obtain i where "i < length old" "old ! i = Some x" using x by (auto simp: table_elems_def in_set_conv_nth)
      then have "Suc i = 0" using Cons.prems(4) [rule_format, of "Suc i" 0 x e] c Some by simp
      then show False by simp
    qed
    then have "\<forall>x \<in> table_elems old. \<forall>y \<in> table_elems ?es. entry_compar x y \<noteq> 0"
      using Cons.prems(3) unfolding u el by blast
    from Cons.IH [OF ok _ this tail] Cons.prems(2) show ?thesis
      unfolding u el by (auto simp: Some s(1))
  qed
qed

section \<open>Hash tables\<close>

definition hs_ok :: "hsearch \<Rightarrow> bool" where
  "hs_ok t \<longleftrightarrow>
     (\<exists>k \<ge> 4. k \<le> 62 \<and> index_mask t = mask k \<and> table_ok (offset_basis t) k (entries t)
        \<and> unat (entries_used t) = used (entries t) \<and> 2 * used (entries t) \<le> 2 ^ k)"

text \<open>A table may grow while it has fewer than \<open>2 ^ 62\<close> entries, which no memory holds.\<close>

definition hs_room :: "hsearch \<Rightarrow> bool" where
  "hs_room t \<longleftrightarrow> length (entries t) < 2 ^ 62"

definition hs_elems :: "hsearch \<Rightarrow> ENTRY set" where
  "hs_elems t = table_elems (entries t)"

lemma unat_exp_u64: "n < 64 \<Longrightarrow> unat (2 ^ n :: u64) = 2 ^ n"
proof -
  assume "n < 64"
  then have "(2 :: nat) ^ n < 2 ^ 64" by (intro power_strict_increasing) auto
  moreover have "(2 ^ n :: u64) = of_nat (2 ^ n)" by simp
  ultimately show ?thesis by (simp only: unat_of_nat take_bit_nat_eq_self) simp
qed

lemma mask_u64:
  assumes "k \<le> 62"
  shows "(mask k + 1) * 2 - 1 = (mask (Suc k) :: u64)" "unat ((mask k + 1) * 2 :: u64) = 2 ^ Suc k"
    "unat (mask k :: u64) = 2 ^ k - 1"
proof -
  have e: "(mask k + 1) * 2 = (2 ^ Suc k :: u64)" by (simp add: mask_eq_exp_minus_1)
  then show "(mask k + 1) * 2 - 1 = (mask (Suc k) :: u64)" by (simp add: mask_eq_exp_minus_1)
  show "unat ((mask k + 1) * 2 :: u64) = 2 ^ Suc k" unfolding e using assms by (intro unat_exp_u64) simp
  have "(mask k :: u64) = of_nat (2 ^ k - 1)" by (simp add: of_nat_diff mask_eq_exp_minus_1)
  moreover have "(2 :: nat) ^ k - 1 < 2 ^ 64"
    using power_strict_increasing [of k 64 "2 :: nat"] assms by (simp add: less_imp_diff_less)
  ultimately show "unat (mask k :: u64) = 2 ^ k - 1" by (simp only: unat_of_nat take_bit_nat_eq_self) simp
qed

lemma grow_condition:
  assumes "k \<le> 62" "unat u = n" "2 * n \<le> 2 ^ k"
  shows "u * 2 \<ge> (mask k :: u64) \<longleftrightarrow> 2 * n \<ge> 2 ^ k - 1"
proof -
  have "(2 :: nat) ^ k \<le> 2 ^ 62" using assms(1) by (intro power_increasing) auto
  then have "unat (u * 2) = 2 * n" using assms by (simp add: unat_word_ariths)
  then show ?thesis by (simp add: word_le_nat_alt mask_u64 assms(1))
qed

lemma empty_table_ok: "k \<le> 64 \<Longrightarrow> table_ok basis k (replicate (2 ^ k) None)"
  by (simp add: table_ok_def)

lemma used_empty: "used (replicate n None) = 0" "table_elems (replicate n None) = {}"
  by (simp_all add: used_def table_elems_def)

lemma hs_free: "4 \<le> k \<Longrightarrow> 2 * n \<le> 2 ^ k \<Longrightarrow> n < (2 :: nat) ^ k"
proof -
  assume "2 * n \<le> 2 ^ k"
  moreover have "(0 :: nat) < 2 ^ k" by simp
  ultimately show ?thesis by linarith
qed

definition enter_result :: "bool \<Rightarrow> ENTRY \<Rightarrow> hsearch \<Rightarrow> errno + nat \<Rightarrow> hsearch \<Rightarrow> bool" where
  "enter_result c q t r t' \<longleftrightarrow> hs_ok t'
          \<and> (r = Inl ENOMEM \<and> \<not> c \<and> t' = t
             \<or> (\<exists>s. r = Inr s \<and> s < length (entries t') \<and> entries t' ! s = Some q \<and> hs_elems t' = insert q (hs_elems t)))"

lemma hsearch_r_cases:
  assumes ok: "hs_ok t"
  shows "(\<exists>s x. (\<forall>c a. hsearch_r c q a t = Some (Inr s, t)) \<and> s < length (entries t)
        \<and> entries t ! s = Some x \<and> entry_compar q x = 0)
    \<or> (\<forall>x \<in> hs_elems t. entry_compar q x \<noteq> 0) \<and> (\<forall>c. hsearch_r c q FIND t = Some (Inl ESRCH, t))
      \<and> (hs_room t \<longrightarrow> (\<forall>c. \<exists>r t'. hsearch_r c q ENTER t = Some (r, t') \<and> enter_result c q t r t'))"
proof -
  obtain k where k: "4 \<le> k" "k \<le> 62" "index_mask t = mask k" "table_ok (offset_basis t) k (entries t)"
      "unat (entries_used t) = used (entries t)" "2 * used (entries t) \<le> 2 ^ k"
    using ok by (auto simp: hs_ok_def)
  let ?es = "entries t" and ?b = "offset_basis t" and ?n = "used (entries t)"
  have len: "length ?es = 2 ^ k" using k(4) by (simp add: table_ok_def)
  have free: "?n < 2 ^ k" using hs_free k by blast
  obtain s where s: "hsearch_find (key q) ?es (mask k) (hsearch_hash ?b (key q)) 0 = Some s" "s < 2 ^ k"
    "?es ! s = None \<and> chain ?es k (ehash ?b q) s \<and> (\<forall>x \<in> table_elems ?es. entry_compar q x \<noteq> 0)
     \<or> (\<exists>x. ?es ! s = Some x \<and> entry_compar q x = 0)"
    using find_finds [OF k(4) free, of q] by metis
  show ?thesis
  proof (cases "?es ! s")
    case (Some x)
    then have "entry_compar q x = 0" using s(3) by auto
    moreover have "hsearch_r c q a t = Some (Inr s, t)" for c a
      using Some s(1) by (simp add: hsearch_r_def k(3) Let_def)
    ultimately show ?thesis using Some s(2) len by auto
  next
    case None
    then have n: "chain ?es k (ehash ?b q) s" "\<forall>x \<in> table_elems ?es. entry_compar q x \<noteq> 0" using s(3) by auto
    have inc: "unat (entries_used t + 1) = Suc ?n"
    proof -
      have "(2 :: nat) ^ k \<le> 2 ^ 62" using k(2) by (intro power_increasing) auto
      then show ?thesis using k(5) free by (simp add: unat_word_ariths)
    qed
    have find: "hsearch_r c q FIND t = Some (Inl ESRCH, t)" for c
      using None s(1) by (simp add: hsearch_r_def k(3) Let_def)
    have "\<exists>r t'. hsearch_r c q ENTER t = Some (r, t') \<and> enter_result c q t r t'"
      if room: "hs_room t" for c
    proof (cases "2 * ?n \<ge> 2 ^ k - 1")
      case False
      let ?t = "t\<lparr>entries := ?es[s := Some q], entries_used := entries_used t + 1\<rparr>"
      have "hsearch_r c q ENTER t = Some (Inr s, ?t)"
        using None s(1) False grow_condition [OF k(2,5,6)] by (simp add: hsearch_r_def k(3) Let_def)
      moreover have "hs_ok ?t"
        unfolding hs_ok_def
        by (rule exI [of _ k]) (use k False None s(2) len inc n table_insert [OF k(4) s(2) None n] in \<open>simp add: used_update\<close>)
      ultimately show ?thesis using s(2) len None by (auto simp: enter_result_def hs_elems_def elems_update)
    next
      case True
      show ?thesis
      proof (cases c)
        case c: False
        have "hsearch_r c q ENTER t = Some (Inl ENOMEM, t)"
          using None s(1) True c grow_condition [OF k(2,5,6)] by (simp add: hsearch_r_def k(3) Let_def)
        then show ?thesis using ok c by (auto simp: enter_result_def)
      next
        case c: True
        have k': "Suc k \<le> 62"
        proof (rule ccontr)
          assume "\<not> Suc k \<le> 62"
          then have "k = 62" using k(2) by simp
          then show False using room len by (simp add: hs_room_def)
        qed
        have big: "?n < 2 ^ Suc k" "Suc ?n \<le> 2 ^ k"
          using k(6) free by simp_all
        have b3: "Suc (Suc (2 * ?n)) \<le> 2 * 2 ^ k" using big(2) by linarith
        have uniq: "\<forall>i j x y. i < length ?es \<longrightarrow> j < length ?es \<longrightarrow> ?es ! i = Some x \<longrightarrow> ?es ! j = Some y \<longrightarrow>
            entry_compar x y = 0 \<longrightarrow> i = j"
          using k(4) by (simp add: table_ok_def)
        obtain es where es: "hsearch_rehash ?b (mask (Suc k)) ?es (replicate (2 ^ Suc k) None) = Some es"
            "table_ok ?b (Suc k) es" "used es = ?n" "table_elems es = table_elems ?es"
          using hsearch_rehash_ok [OF empty_table_ok, of "Suc k" ?es ?b] uniq k' big by (auto simp: used_empty)
        have len': "length es = 2 ^ Suc k" "Suc k \<le> 64" using es(2) by (simp_all add: table_ok_def)
        obtain s' where s': "hsearch_lookup_free es (mask (Suc k)) (hsearch_hash ?b (key q)) 0 = Some s'"
            "s' < 2 ^ Suc k" "es ! s' = None" "chain es (Suc k) (ehash ?b q) s'"
          using lookup_free_finds [OF len'(2,1)] es(3) big(1) unfolding ehash_def by metis
        let ?t = "t\<lparr>entries := es[s' := Some q], index_mask := mask (Suc k), entries_used := entries_used t + 1\<rparr>"
        have "hsearch_r c q ENTER t = Some (Inr s', ?t)"
          using None s(1) True c grow_condition [OF k(2,5,6)] es(1) s'(1) mask_u64 [OF k(2)]
          by (simp add: hsearch_r_def k(3) Let_def)
        moreover have "hs_ok ?t"
          unfolding hs_ok_def
          by (rule exI [of _ "Suc k"])
            (use k k' s' len' inc es b3 n table_insert [OF es(2) s'(2,3,4)] in \<open>simp add: used_update\<close>)
        ultimately show ?thesis using s' len' es by (auto simp: enter_result_def hs_elems_def elems_update)
      qed
    qed
    then show ?thesis using find n(2) by (auto simp: hs_elems_def)
  qed
qed

section \<open>The contract of keyed tables\<close>

definition hs_lookup :: "ENTRY \<Rightarrow> hsearch \<Rightarrow> ENTRY option" where
  "hs_lookup q t =
     (case hsearch_r True q FIND t of Some (Inr s, t') \<Rightarrow> entries t' ! s | _ \<Rightarrow> None)"

definition hs_enter :: "ENTRY \<Rightarrow> hsearch \<Rightarrow> hsearch" where
  "hs_enter q t = (case hsearch_r True q ENTER t of Some (r, t') \<Rightarrow> t' | None \<Rightarrow> t)"

lemma hcreate_r_ok: "hcreate_r True True basis = Some t \<Longrightarrow> hs_ok t \<and> hs_room t \<and> hs_elems t = {}"
  using empty_table_ok [of 4 basis] used_empty [of 16]
  by (auto simp: hcreate_r_def hs_ok_def hs_room_def hs_elems_def mask_eq_exp_minus_1 intro!: exI [of _ 4])

interpretation entry_order: comparator entry_compar
  by unfold_locales (auto simp: entry_compar_def intro: strings.compar_antisym strings.compar_trans)

lemma hs_elems_nth: "x \<in> hs_elems t \<longleftrightarrow> (\<exists>s < length (entries t). entries t ! s = Some x)"
  by (auto simp: hs_elems_def table_elems_def in_set_conv_nth)

lemma hs_lookup_cases:
  assumes "hs_ok t"
  obtains x where "hs_lookup q t = Some x" "x \<in> hs_elems t" "entry_compar q x = 0"
    | "hs_lookup q t = None" "\<forall>x \<in> hs_elems t. entry_compar q x \<noteq> 0"
  using hsearch_r_cases [OF assms, of q] that by (force simp: hs_lookup_def hs_elems_nth)

lemma hs_enter_cases:
  assumes "hs_ok t" "hs_room t"
  shows "hs_ok (hs_enter q t) \<and>
    hs_elems (hs_enter q t) = (if hs_lookup q t = None then insert q (hs_elems t) else hs_elems t)"
  using hsearch_r_cases [OF assms(1), of q]
proof
  assume "\<exists>s x. (\<forall>c a. hsearch_r c q a t = Some (Inr s, t)) \<and> s < length (entries t)
        \<and> entries t ! s = Some x \<and> entry_compar q x = 0"
  then show ?thesis using assms(1) by (auto simp: hs_enter_def hs_lookup_def)
next
  assume a: "(\<forall>x \<in> hs_elems t. entry_compar q x \<noteq> 0) \<and> (\<forall>c. hsearch_r c q FIND t = Some (Inl ESRCH, t))
      \<and> (hs_room t \<longrightarrow> (\<forall>c. \<exists>r t'. hsearch_r c q ENTER t = Some (r, t') \<and> enter_result c q t r t'))"
  then obtain r t' where "hsearch_r True q ENTER t = Some (r, t')" "enter_result True q t r t'"
    using assms(2) by blast
  then have "hsearch_r True q ENTER t = Some (r, t')" "hs_ok t'" "hs_elems t' = insert q (hs_elems t)"
    by (auto simp: enter_result_def)
  moreover have "hs_lookup q t = None" using a by (simp add: hs_lookup_def)
  ultimately show ?thesis by (simp add: hs_enter_def)
qed

lemma hs_elems_unique: "hs_ok t \<Longrightarrow> x \<in> hs_elems t \<Longrightarrow> y \<in> hs_elems t \<Longrightarrow> entry_compar x y = 0 \<Longrightarrow> x = y"
  unfolding hs_elems_nth hs_ok_def table_ok_def by (metis option.inject)

interpretation hs: search_table entry_compar hs_ok hs_room hs_elems hs_lookup hs_enter
proof
  show "x \<in> hs_elems t \<and> entry_compar q x = 0" if "hs_ok t" "hs_lookup q t = Some x" for t q x
    using hs_lookup_cases [OF that(1), of q] that(2) by (metis option.inject option.distinct(1))
  show "entry_compar q x \<noteq> 0" if "hs_ok t" "hs_lookup q t = None" "x \<in> hs_elems t" for t q x
    using hs_lookup_cases [OF that(1), of q] that(2,3) by (metis option.distinct(1))
qed (use hs_elems_unique hs_enter_cases in blast)+

section \<open>Properties\<close>

text \<open>
  C14: every call of \<open>hsearch_r()\<close> on a well-formed table returns: the quadratic probing of both loops
  reaches a free entry, also after the table has grown, because the table is never more than half
  full and its size is a power of two. The table stays well-formed, and a call that fails
  leaves it unchanged.
\<close>

theorem hsearch_r_returns:
  assumes "hs_ok t" "hs_room t"
  shows "\<exists>r t'. hsearch_r calloc_ok item action t = Some (r, t') \<and> hs_ok t' \<and> (\<forall>e. r = Inl e \<longrightarrow> t' = t)"
proof -
  consider s where "\<forall>c a. hsearch_r c item a t = Some (Inr s, t)"
    | "\<forall>c. hsearch_r c item FIND t = Some (Inl ESRCH, t)"
      "\<forall>c. \<exists>r t'. hsearch_r c item ENTER t = Some (r, t') \<and> enter_result c item t r t'"
    using hsearch_r_cases [OF assms(1), of item] assms(2) by blast
  then show ?thesis
  proof cases
    case 2
    show ?thesis
    proof (cases action)
      case ENTER
      obtain r t' where "hsearch_r calloc_ok item ENTER t = Some (r, t')" "enter_result calloc_ok item t r t'"
        using 2(2) by blast
      then show ?thesis using ENTER by (auto simp: enter_result_def)
    qed (use 2 assms in auto)
  qed (use assms in auto)
qed

theorem hsearch_r_returns_witness:
  "\<exists>r t'. hsearch_r True \<lparr>key = [0x61], data = 1\<rparr> ENTER
       \<lparr>offset_basis = 42, index_mask = 0xf, entries_used = 0, entries = replicate 16 None\<rparr> = Some (r, t')
     \<and> hs_ok t' \<and> (\<forall>e. r = Inl e \<longrightarrow>
       t' = \<lparr>offset_basis = 42, index_mask = 0xf, entries_used = 0, entries = replicate 16 None\<rparr>)"
  using hcreate_r_ok [of 42] by (intro hsearch_r_returns) (simp_all add: hcreate_r_def)

text \<open>
  C16: the hash table implements the contract of a keyed table: after \<open>ENTER\<close>, looking up a key
  finds the entered entry, or the entry that was there before for an equal key, and every other
  key is found as before, whether or not the table was resized.
\<close>

theorem hsearch_lookup_enter:
  assumes "hs_ok t" "hs_room t"
  shows "hs_lookup q (hs_enter item t) =
    (if entry_compar q item = 0 then (case hs_lookup item t of None \<Rightarrow> Some item | Some x \<Rightarrow> Some x)
     else hs_lookup q t)"
  by (rule hs.lookup_enter [OF assms])

theorem hsearch_lookup_enter_witness:
  "hs_lookup \<lparr>key = [0x61], data = 0\<rparr> (hs_enter \<lparr>key = [0x61], data = 7\<rparr>
       \<lparr>offset_basis = 42, index_mask = 0xf, entries_used = 0, entries = replicate 16 None\<rparr>)
     = (if entry_compar \<lparr>key = [0x61], data = 0\<rparr> \<lparr>key = [0x61], data = 7\<rparr> = 0
        then (case hs_lookup \<lparr>key = [0x61], data = 7\<rparr>
                \<lparr>offset_basis = 42, index_mask = 0xf, entries_used = 0, entries = replicate 16 None\<rparr> of
                None \<Rightarrow> Some \<lparr>key = [0x61], data = 7\<rparr> | Some x \<Rightarrow> Some x)
        else hs_lookup \<lparr>key = [0x61], data = 0\<rparr>
               \<lparr>offset_basis = 42, index_mask = 0xf, entries_used = 0, entries = replicate 16 None\<rparr>)"
  using hcreate_r_ok [of 42] by (intro hsearch_lookup_enter) (simp_all add: hcreate_r_def)

end
