(* ===== verification/Calendar.thy ===== *)
theory Calendar
  imports Prelude
begin

text \<open>
  The calendar arithmetic of \<^verbatim>\<open>libc/time\<close>: \<open>__localtime_utc()\<close> and \<open>__mktime_utc()\<close> with the year
  tables of \<^verbatim>\<open>common/time.h\<close>. The fields of \<open>struct tm\<close> and \<open>time_t\<close> are integers; \<open>mktime_utc_bounds\<close>
  shows that the result fits the 64 bits of \<open>time_t\<close> for all field values. A read past the end of
  the table of months is \<open>None\<close>.
\<close>

section \<open>Operations\<close>

record tm =
  tm_sec :: int
  tm_min :: int
  tm_hour :: int
  tm_mday :: int
  tm_mon :: int
  tm_year :: int
  tm_wday :: int
  tm_yday :: int
  tm_isdst :: int
  tm_gmtoff :: int
  tm_zone :: "string option"
  tm_nsec :: int

record timespec =
  tv_sec :: int
  tv_nsec :: int

definition NSEC_PER_SEC :: int where
  "NSEC_PER_SEC = 1000000000"

definition ERALENGTH :: int where
  "ERALENGTH = 146097 * 86400"

definition is_leap :: "int \<Rightarrow> bool" where
  "is_leap year =
     (let year = cmod year 400;
          year = (if year < 0 then year + 400 else year)
      in (cmod year 4 = 0 \<and> cmod year 100 \<noteq> 0) \<or> year = 100)"

definition get_months :: "int \<Rightarrow> int list" where
  "get_months year =
     (if is_leap year then [31, 29, 31, 30, 31, 30, 31, 31, 30, 31, 30, 31]
      else [31, 28, 31, 30, 31, 30, 31, 31, 30, 31, 30, 31])"

definition get_months_cumulative :: "int \<Rightarrow> int list" where
  "get_months_cumulative year =
     (if is_leap year then [0, 31, 60, 91, 121, 152, 182, 213, 244, 274, 305, 335, 366]
      else [0, 31, 59, 90, 120, 151, 181, 212, 243, 273, 304, 334, 365])"

definition get_ydays :: "int \<Rightarrow> int" where
  "get_ydays year = (if is_leap year then 366 else 365)"

function localtime_month :: "int list \<Rightarrow> int \<Rightarrow> nat \<Rightarrow> nat option" where
  "localtime_month months yday mon =
     (if mon + 1 \<ge> length months then None
      else if yday \<ge> months ! (mon + 1) then localtime_month months yday (mon + 1)
      else Some mon)"
  by pat_completeness auto
termination by (relation "measure (\<lambda>(months, yday, mon). length months - mon)") auto

declare localtime_month.simps [simp del]

definition localtime_utc :: "int \<Rightarrow> (errno option \<times> tm) option" where
  "localtime_utc timer =
     (let era = cdiv timer ERALENGTH;
          timer = cmod timer ERALENGTH;
          (timer, era) = (if timer < 0 then (timer + ERALENGTH, era - 1) else (timer, era));
          seconds = timer mod 86400;
          minutes = seconds div 60;
          days = timer div 86400;
          wday = (days + 4) mod 7;
          days = days + cdiv (days - 11323) 36524;
          days = days + (days div 1461 + (days + 731) div 1461 + (days + 1096) div 1461);
          yday = days mod 366;
          local_year = days div 366 + 70;
          year = era * 400 + local_year;
          months = get_months_cumulative local_year
      in case localtime_month months yday 0 of
           None \<Rightarrow> None
         | Some mon \<Rightarrow>
             (let tm = \<lparr>tm_sec = seconds mod 60, tm_min = minutes mod 60, tm_hour = minutes div 60,
                        tm_mday = yday - months ! mon + 1, tm_mon = int mon, tm_year = 0,
                        tm_wday = wday, tm_yday = yday, tm_isdst = 0, tm_gmtoff = 0, tm_zone = None,
                        tm_nsec = 0\<rparr>
              in if year < - (2 ^ 31) then Some (Some EOVERFLOW, tm\<lparr>tm_year := - (2 ^ 31)\<rparr>)
                 else if year > 2 ^ 31 - 1 then Some (Some EOVERFLOW, tm\<lparr>tm_year := 2 ^ 31 - 1\<rparr>)
                 else Some (None, tm\<lparr>tm_year := year\<rparr>)))"

definition modulo_quotient :: "int \<Rightarrow> int \<Rightarrow> int \<times> int" where
  "modulo_quotient numer denom =
     (let quot = cdiv numer denom;
          numer = cmod numer denom
      in if numer < 0 then (quot - 1, numer + denom) else (quot, numer))"

definition mktime_utc :: "tm \<Rightarrow> timespec" where
  "mktime_utc tm =
     (let (quot, nsec) = modulo_quotient (tm_nsec tm) NSEC_PER_SEC;
          sec = tm_sec tm + tm_min tm * 60 + tm_hour tm * 3600 + quot;
          (quot, mon) = modulo_quotient (tm_mon tm) 12;
          year = tm_year tm + quot;
          yday = tm_mday tm + get_months_cumulative year ! nat mon - 1;
          era = cdiv year 400 - 2;
          local_year = cmod year 400 + 800;
          day = yday + (local_year - 70) * 365 + (local_year - 69) div 4
                - (local_year - 1) div 100 + (local_year + 299) div 400 + era * 146097
      in \<lparr>tv_sec = sec + day * 86400, tv_nsec = nsec\<rparr>)"

definition timespec_to_timestamp_exact :: "timespec \<Rightarrow> u64 option" where
  "timespec_to_timestamp_exact ts =
     (if tv_nsec ts < 0 \<or> tv_nsec ts \<ge> NSEC_PER_SEC then None
      else if tv_sec ts < 0 then None
      else if tv_sec ts * NSEC_PER_SEC \<ge> 2 ^ 64 then None
      else if tv_sec ts * NSEC_PER_SEC + tv_nsec ts \<ge> 2 ^ 64 then None
      else Some (word_of_int (tv_sec ts * NSEC_PER_SEC + tv_nsec ts)))"

definition timespec_to_timestamp_clamp :: "timespec \<Rightarrow> u64 option" where
  "timespec_to_timestamp_clamp ts =
     (if tv_nsec ts < 0 \<or> tv_nsec ts \<ge> NSEC_PER_SEC then None
      else if tv_sec ts < 0 then Some 0
      else if tv_sec ts * NSEC_PER_SEC \<ge> 2 ^ 64 \<or> tv_sec ts * NSEC_PER_SEC + tv_nsec ts \<ge> 2 ^ 64
      then Some (- 1)
      else Some (word_of_int (tv_sec ts * NSEC_PER_SEC + tv_nsec ts)))"

definition timestamp_to_timespec :: "u64 \<Rightarrow> timespec" where
  "timestamp_to_timespec timestamp =
     \<lparr>tv_sec = uint timestamp div NSEC_PER_SEC, tv_nsec = uint timestamp mod NSEC_PER_SEC\<rparr>"

section \<open>Truncating and flooring division\<close>

lemma modulo_quotient_floor: "0 < d \<Longrightarrow> modulo_quotient n d = (n div d, n mod d)"
  using floor_adjust [of d n] by (auto simp: modulo_quotient_def Let_def split: if_splits)

lemma is_leap_iff: "is_leap y \<longleftrightarrow> y mod 4 = 0 \<and> y mod 100 \<noteq> 0 \<or> y mod 400 = 100"
proof -
  have "(if cmod y 400 < 0 then cmod y 400 + 400 else cmod y 400) = y mod 400"
    using floor_adjust [of 400 y] by (auto split: if_splits)
  then have "is_leap y \<longleftrightarrow> y mod 400 mod 4 = 0 \<and> y mod 400 mod 100 \<noteq> 0 \<or> y mod 400 = 100"
    by (simp add: is_leap_def Let_def cmod_nonneg)
  then show ?thesis by (simp add: mod_mod_cancel)
qed

lemma is_leap_period: "is_leap (k * 400 + y) \<longleftrightarrow> is_leap y"
proof -
  have "k * 400 + y = y + 4 * (k * 100)" "k * 400 + y = y + 100 * (k * 4)" "k * 400 + y = y + 400 * k" by simp_all
  then show ?thesis unfolding is_leap_iff by (metis mod_mult_self2)
qed

lemma div_succ:
  assumes n: "0 < n"
  shows "((a :: int) + 1) div n = a div n + (if (a + 1) mod n = 0 then 1 else 0)"
proof -
  obtain q r where q: "a div n = q" and a: "a = n * q + r" "0 \<le> r" "r < n"
    by (rule that [of "a div n" "a mod n"]) (use n in simp_all)
  show ?thesis
  proof (cases "r + 1 = n")
    case True
    then have e: "a + 1 = n * (q + 1) + 0" using a(1) by (simp add: distrib_left)
    show ?thesis using int_div_pos_eq [OF e] int_mod_pos_eq [OF e] n q by simp
  next
    case False
    have e: "a + 1 = n * q + (r + 1)" using a(1) by simp
    have "(a + 1) div n = q" by (rule int_div_pos_eq [OF e]) (use a False in simp_all)
    moreover have "(a + 1) mod n = r + 1" by (rule int_mod_pos_eq [OF e]) (use a False in simp_all)
    ultimately show ?thesis using a(2) q by simp
  qed
qed

section \<open>The first day of a year\<close>

definition year_start :: "int \<Rightarrow> int" where
  "year_start y = (y - 70) * 365 + (y - 69) div 4 - (y - 1) div 100 + (y + 299) div 400"

lemma div_shift: "0 < (n :: int) \<Longrightarrow> a = b + k * n \<Longrightarrow> a div n = b div n + k"
  by simp

lemma year_start_period: "year_start (y + 400 * k) = year_start y + k * 146097"
proof -
  have "(y + 400 * k - 69) div 4 = (y - 69) div 4 + 100 * k" by (rule div_shift) simp_all
  moreover have "(y + 400 * k - 1) div 100 = (y - 1) div 100 + 4 * k" by (rule div_shift) simp_all
  moreover have "(y + 400 * k + 299) div 400 = (y + 299) div 400 + k" by (rule div_shift) simp_all
  moreover have "(y + 400 * k - 70) * 365 + (a + 100 * k) - (b + 4 * k) + (c + k)
      = (y - 70) * 365 + a - b + c + k * 146097" for a b c by simp
  ultimately show ?thesis unfolding year_start_def by (simp only:)
qed

lemma year_start_succ: "year_start (y + 1) = year_start y + get_ydays y"
proof -
  have m4: "(y - 69 + 1) mod 4 = 0 \<longleftrightarrow> y mod 4 = 0" by presburger
  have m400: "(y + 299 + 1) mod 400 = 0 \<longleftrightarrow> y mod 400 = 100"
    using mod_eq_dvd_iff [of y 400 100] dvd_add_triv_right_iff [of 400 "y - 100"] by (simp add: dvd_eq_mod_eq_0)
  have m100: "y - 1 + 1 = y" by simp
  have i: "y mod 100 = 0 \<Longrightarrow> y mod 4 = 0" "y mod 400 = 100 \<Longrightarrow> y mod 100 = 0"
    using mod_mod_cancel [of 4 100 y] mod_mod_cancel [of 100 400 y] by simp_all
  have "year_start (y + 1) = (y - 70) * 365 + 365 + (y - 69 + 1) div 4 - (y - 1 + 1) div 100 + (y + 299 + 1) div 400"
    unfolding year_start_def by (simp add: add.commute)
  also have "\<dots> = (y - 70) * 365 + 365 + ((y - 69) div 4 + (if y mod 4 = 0 then 1 else 0))
      - ((y - 1) div 100 + (if y mod 100 = 0 then 1 else 0)) + ((y + 299) div 400 + (if y mod 400 = 100 then 1 else 0))"
    using div_succ [of 4 "y - 69"] div_succ [of 100 "y - 1"] div_succ [of 400 "y + 299"]
    by (simp only: m4 m400 m100 zero_less_numeral simp_thms)
  also have "\<dots> = year_start y + get_ydays y"
    using i unfolding year_start_def get_ydays_def is_leap_iff by (simp split: if_split)
  finally show ?thesis .
qed

lemma mktime_utc_year_start:
  "mktime_utc tm =
     (let year = tm_year tm + tm_mon tm div 12
      in \<lparr>tv_sec = tm_sec tm + tm_min tm * 60 + tm_hour tm * 3600 + tm_nsec tm div NSEC_PER_SEC
            + (tm_mday tm + get_months_cumulative year ! nat (tm_mon tm mod 12) - 1 + year_start year) * 86400,
          tv_nsec = tm_nsec tm mod NSEC_PER_SEC\<rparr>)"
proof -
  have y: "x + (cmod y 400 + 800 - 70) * 365 + (cmod y 400 + 800 - 69) div 4 - (cmod y 400 + 800 - 1) div 100
      + (cmod y 400 + 800 + 299) div 400 + (cdiv y 400 - 2) * 146097 = x + year_start y" for x y
  proof -
    have "cmod y 400 + 800 + 400 * (cdiv y 400 - 2) = y" by (simp add: cmod_def)
    then have "year_start y = year_start (cmod y 400 + 800) + (cdiv y 400 - 2) * 146097"
      using year_start_period [of "cmod y 400 + 800" "cdiv y 400 - 2"] by simp
    then show ?thesis unfolding year_start_def [of "cmod y 400 + 800"] by (simp only: add.assoc add_diff_eq)
  qed
  have pos: "0 < NSEC_PER_SEC" by (simp add: NSEC_PER_SEC_def)
  show ?thesis
    unfolding mktime_utc_def Let_def modulo_quotient_floor [OF pos] modulo_quotient_floor [OF zero_less_numeral] prod.case y
    by (rule refl)
qed

section \<open>Splitting a day number\<close>

definition spread :: "int \<Rightarrow> int" where
  "spread d = d + (d div 1461 + (d + 731) div 1461 + (d + 1096) div 1461)"

lemma spread_julian:
  assumes "0 \<le> d"
  obtains y r where "spread d div 366 = y" "spread d mod 366 = r" "0 \<le> y" "0 \<le> r" "r \<le> 365"
    "d = r + 365 * y + (y + 1) div 4" "r = 365 \<longrightarrow> y mod 4 = 2"
proof -
  obtain q m where q: "d div 1461 = q" and d: "d = 1461 * q + m" "0 \<le> m" "m < 1461" "0 \<le> q"
    by (rule that [of "d div 1461" "d mod 1461"]) (use assms in \<open>simp_all add: pos_imp_zdiv_nonneg_iff\<close>)
  have e1: "(d + 731) div 1461 = q + (if m < 730 then 0 else 1)"
    by (rule int_div_pos_eq [of _ _ _ "if m < 730 then m + 731 else m - 730"]) (use d in auto)
  have e2: "(d + 1096) div 1461 = q + (if m < 365 then 0 else 1)"
    by (rule int_div_pos_eq [of _ _ _ "if m < 365 then m + 1096 else m - 365"]) (use d in auto)
  have s: "spread d = 1461 * q + m + (q + (q + (if m < 730 then 0 else 1)) + (q + (if m < 365 then 0 else 1)))"
    unfolding spread_def q e1 e2 using d(1) by simp
  obtain j r where j: "0 \<le> j" "j \<le> 3" "spread d = 366 * (4 * q + j) + r" "0 \<le> r" "r \<le> 365"
      "m = r + 365 * j + (j + 1) div 4" "r = 365 \<longrightarrow> j = 2"
  proof -
    consider "m < 365" | "365 \<le> m" "m < 730" | "730 \<le> m" "m < 1096" | "1096 \<le> m" by linarith
    then show thesis
    proof cases
      case 1 then show thesis using d(2,3) s by (intro that [of 0 m]) simp_all
    next
      case 2 then show thesis using d(2,3) s by (intro that [of 1 "m - 365"]) simp_all
    next
      case 3 then show thesis using d(2,3) s by (intro that [of 2 "m - 730"]) simp_all
    next
      case 4 then show thesis using d(2,3) s by (intro that [of 3 "m - 1096"]) simp_all
    qed
  qed
  let ?y = "4 * q + j"
  have "spread d div 366 = ?y" by (rule int_div_pos_eq [OF j(3)]) (use j in simp_all)
  moreover have "spread d mod 366 = r" by (rule int_mod_pos_eq [OF j(3)]) (use j in simp_all)
  moreover have "(?y + 1) div 4 = (j + 1) div 4 + q" by (rule div_shift) simp_all
  then have "d = r + 365 * ?y + (?y + 1) div 4" unfolding d(1) j(6) by (simp only:) simp
  moreover have "r = 365 \<longrightarrow> ?y mod 4 = 2" using j(7) by auto
  ultimately show thesis using d(4) j(1,4,5) by (intro that [of ?y r]) simp_all
qed

text \<open>The leap days of the centuries that a day number of an era has skipped.\<close>

lemma skipped_days:
  assumes "0 \<le> d" "d < 146097"
  shows "cdiv (d - 11323) 36524 = (if d < 47847 then 0 else if d < 84371 then 1 else if d < 120895 then 2 else 3)"
proof (cases "d < 11323")
  case True
  then show ?thesis using assms by (simp add: cdiv_neg)
next
  case False
  then have "cdiv (d - 11323) 36524 = (d - 11323) div 36524" by (simp add: cdiv_nonneg)
  also have "\<dots> = (if d < 47847 then 0 else if d < 84371 then 1 else if d < 120895 then 2 else 3)"
    by (rule int_div_pos_eq [of _ _ _ "d - 11323 - 36524 *
        (if d < 47847 then 0 else if d < 84371 then 1 else if d < 120895 then 2 else 3)"])
      (use assms False in auto)
  finally show ?thesis .
qed

lemma div_bounds: "0 < n \<Longrightarrow> n * ((a :: int) div n) \<le> a \<and> a < n * (a div n) + n"
  using mult_div_mod_eq [of n a] pos_mod_sign [of n a] pos_mod_bound [of n a] by linarith

lemma century_year:
  assumes d: "0 \<le> d" "d < 146097" and y: "0 \<le> y" "0 \<le> r" "r \<le> 365"
    and e: "d + cdiv (d - 11323) 36524 = r + 365 * y + (y + 1) div 4"
  shows "y < 400 \<and> cdiv (d - 11323) 36524 = (y + 69) div 100 - (y + 369) div 400
    \<and> (r = 365 \<longrightarrow> y \<noteq> 130 \<and> y \<noteq> 230 \<and> y \<noteq> 330)"
proof -
  obtain a where a: "(y + 1) div 4 = a" and b: "4 * a \<le> y + 1" "y + 1 < 4 * a + 4"
    using div_bounds [of 4 "y + 1"] by fastforce
  note e = e [unfolded a]
  consider "d < 47847" "cdiv (d - 11323) 36524 = 0" | "47847 \<le> d" "d < 84371" "cdiv (d - 11323) 36524 = 1"
    | "84371 \<le> d" "d < 120895" "cdiv (d - 11323) 36524 = 2" | "120895 \<le> d" "cdiv (d - 11323) 36524 = 3"
    using skipped_days [OF d] by (auto split: if_splits)
  then show ?thesis
  proof cases
    case 1
    have "y < 131" using 1 e b y by linarith
    moreover have "(y + 69) div 100 = (y + 369) div 400"
    proof (cases "y < 31")
      case True
      then show ?thesis using y by (simp add: div_pos_pos_trivial)
    next
      case False
      have "(y + 69) div 100 = 1"
        by (rule int_div_pos_eq [of _ _ _ "y - 31"]) (use False \<open>y < 131\<close> in simp_all)
      moreover have "(y + 369) div 400 = 1"
        by (rule int_div_pos_eq [of _ _ _ "y - 31"]) (use False \<open>y < 131\<close> in simp_all)
      ultimately show ?thesis by simp
    qed
    moreover have "r \<noteq> 365" if "y = 130" using 1 e b that by linarith
    ultimately show ?thesis using 1 by auto
  next
    case 2
    have "131 \<le> y" using 2 e b y by linarith
    moreover have "y < 231" using 2 d e b y by linarith
    moreover have "(y + 69) div 100 = 2"
      by (rule int_div_pos_eq [of _ _ _ "y - 131"]) (use calculation in simp_all)
    moreover have "(y + 369) div 400 = 1"
      by (rule int_div_pos_eq [of _ _ _ "y - 31"]) (use calculation in simp_all)
    moreover have "r \<noteq> 365" if "y = 230" using 2 e b that by linarith
    ultimately show ?thesis using 2 by auto
  next
    case 3
    have "231 \<le> y" using 3 e b y by linarith
    moreover have "y < 331" using 3 d e b y by linarith
    moreover have "(y + 69) div 100 = 3"
      by (rule int_div_pos_eq [of _ _ _ "y - 231"]) (use calculation in simp_all)
    moreover have "(y + 369) div 400 = 1"
      by (rule int_div_pos_eq [of _ _ _ "y - 31"]) (use calculation in simp_all)
    moreover have "r \<noteq> 365" if "y = 330" using 3 e b that by linarith
    ultimately show ?thesis using 3 by auto
  next
    case 4
    have "331 \<le> y" using 4 e b y by linarith
    moreover have "y < 400" using 4 d e b y by linarith
    moreover have "(y + 69) div 100 = 4"
      by (rule int_div_pos_eq [of _ _ _ "y - 331"]) (use calculation in simp_all)
    moreover have "(y + 369) div 400 = 1"
      by (rule int_div_pos_eq [of _ _ _ "y - 31"]) (use calculation in simp_all)
    ultimately show ?thesis using 4 by auto
  qed
qed

lemma leap_in_era:
  assumes "0 \<le> y" "y < 400" "y mod 4 = 2" "y \<noteq> 130" "y \<noteq> 230" "y \<noteq> 330"
  shows "is_leap (y + 70)"
proof -
  have "(y + 70) mod 4 = 0" using assms(3) by presburger
  moreover have "y = 30" if "(y + 70) mod 100 = 0"
  proof -
    obtain k where "y + 70 = 100 * k" using \<open>(y + 70) mod 100 = 0\<close> by (meson dvdE mod_0_imp_dvd)
    moreover from this have "k = 1 \<or> k = 2 \<or> k = 3 \<or> k = 4" using assms(1,2) by presburger
    ultimately show ?thesis using assms(4-6) by auto
  qed
  ultimately show ?thesis unfolding is_leap_iff by auto
qed

lemma split_day:
  assumes d: "0 \<le> d" "d < 146097"
  obtains y r where "spread (d + cdiv (d - 11323) 36524) div 366 = y" "spread (d + cdiv (d - 11323) 36524) mod 366 = r"
    "0 \<le> y" "y < 400" "0 \<le> r" "r < get_ydays (y + 70)" "d = r + year_start (y + 70)"
proof -
  let ?c = "cdiv (d - 11323) 36524"
  have "0 \<le> d + ?c" using d by (simp add: skipped_days)
  then obtain y r where y: "spread (d + ?c) div 366 = y" "spread (d + ?c) mod 366 = r" "0 \<le> y" "0 \<le> r" "r \<le> 365"
    "d + ?c = r + 365 * y + (y + 1) div 4" "r = 365 \<longrightarrow> y mod 4 = 2"
    by (rule spread_julian)
  note c = century_year [OF d y(3-6)]
  have "r = 365 \<longrightarrow> is_leap (y + 70)" using leap_in_era [of y] y(3,7) c by blast
  then have "r < get_ydays (y + 70)" using y(5) by (auto simp: get_ydays_def)
  moreover have "d = r + year_start (y + 70)" using y(6) c by (simp add: year_start_def add.commute)
  ultimately show thesis using y c that by blast
qed

section \<open>The fields of a point in time\<close>

lemma localtime_month_finds:
  assumes "mon + 1 < length months" "months ! mon \<le> yday" "yday < months ! (length months - 1)"
  shows "\<exists>m. localtime_month months yday mon = Some m \<and> m + 1 < length months
    \<and> months ! m \<le> yday \<and> yday < months ! (m + 1)"
  using assms
proof (induction months yday mon rule: localtime_month.induct)
  case (1 months yday mon)
  show ?case
  proof (cases "yday \<ge> months ! (mon + 1)")
    case True
    have "mon + 1 + 1 < length months"
    proof (rule ccontr)
      assume "\<not> ?thesis"
      then have "length months - 1 = mon + 1" using "1.prems"(1) by simp
      then show False using True "1.prems"(3) by simp
    qed
    then show ?thesis using 1 True by (subst localtime_month.simps) simp
  next
    case False
    then show ?thesis using "1.prems" by (subst localtime_month.simps) simp
  qed
qed

lemma months_cumulative_ends:
  "length (get_months_cumulative y) = 13" "get_months_cumulative y ! 0 = 0" "get_months_cumulative y ! 12 = get_ydays y"
  by (simp_all add: get_months_cumulative_def get_ydays_def)

lemma months_cumulative_step:
  "m < 12 \<Longrightarrow> get_months_cumulative y ! (m + 1) = get_months_cumulative y ! m + get_months y ! m"
proof -
  assume "m < 12"
  then have "m \<in> set [0..<12]" by simp
  moreover have "\<forall>m \<in> set [0..<12]. get_months_cumulative y ! (m + 1) = get_months_cumulative y ! m + get_months y ! m"
    by (simp add: get_months_cumulative_def get_months_def upt_rec)
  ultimately show ?thesis by blast
qed

lemma months_cumulative_bound:
  assumes "m < 13"
  shows "0 \<le> get_months_cumulative y ! m \<and> get_months_cumulative y ! m \<le> 366"
proof -
  have "\<forall>x \<in> set (get_months_cumulative y). 0 \<le> x \<and> x \<le> 366" by (simp add: get_months_cumulative_def)
  then show ?thesis using assms nth_mem [of m "get_months_cumulative y"] by (simp add: months_cumulative_ends)
qed

definition tm_at :: "int \<Rightarrow> int \<Rightarrow> int \<Rightarrow> nat \<Rightarrow> int \<Rightarrow> tm" where
  "tm_at timer year yday mon y =
     \<lparr>tm_sec = timer mod 86400 mod 60, tm_min = timer mod 86400 div 60 mod 60,
      tm_hour = timer mod 86400 div 60 div 60, tm_mday = yday - get_months_cumulative year ! mon + 1,
      tm_mon = int mon, tm_year = y, tm_wday = (timer div 86400 + 4) mod 7, tm_yday = yday, tm_isdst = 0,
      tm_gmtoff = 0, tm_zone = None, tm_nsec = 0\<rparr>"

lemma localtime_utc_split:
  obtains year yday mon where "0 \<le> yday" "yday < get_ydays year" "timer div 86400 = yday + year_start year" "mon < 12"
    "get_months_cumulative year ! mon \<le> yday" "yday < get_months_cumulative year ! (mon + 1)"
    "localtime_utc timer =
       (if year < - (2 ^ 31) then Some (Some EOVERFLOW, tm_at timer year yday mon (- (2 ^ 31)))
        else if year > 2 ^ 31 - 1 then Some (Some EOVERFLOW, tm_at timer year yday mon (2 ^ 31 - 1))
        else Some (None, tm_at timer year yday mon year))"
proof -
  let ?era = "timer div ERALENGTH" and ?t = "timer mod ERALENGTH"
  define d where "d = ?t div 86400"
  have pos: "0 < ERALENGTH" by (simp add: ERALENGTH_def)
  have "0 \<le> ?t" "?t < 146097 * 86400" using pos_mod_sign [OF pos] pos_mod_bound [OF pos] by (simp_all add: ERALENGTH_def)
  moreover have "86400 * d \<le> ?t" "?t < 86400 * d + 86400" using div_bounds [of 86400 ?t] by (simp_all add: d_def)
  ultimately have d: "0 \<le> d" "d < 146097" by linarith+
  obtain y r where y: "spread (d + cdiv (d - 11323) 36524) div 366 = y" "spread (d + cdiv (d - 11323) 36524) mod 366 = r"
    "0 \<le> y" "y < 400" "0 \<le> r" "r < get_ydays (y + 70)" "d = r + year_start (y + 70)"
    by (rule split_day [OF d])
  define year where "year = ?era * 400 + (y + 70)"
  have leap: "is_leap year = is_leap (y + 70)" unfolding year_def by (rule is_leap_period)
  then have tables: "get_months_cumulative (y + 70) = get_months_cumulative year" "get_ydays (y + 70) = get_ydays year"
    by (simp_all add: get_months_cumulative_def get_ydays_def)
  have seconds: "?t mod 86400 = timer mod 86400" by (simp add: ERALENGTH_def mod_mod_cancel)
  have split: "timer = d * 86400 + timer mod 86400 + ?era * 146097 * 86400"
  proof -
    have "86400 * d + timer mod 86400 = ?t" using mult_div_mod_eq [of 86400 ?t] by (simp only: d_def seconds)
    moreover have "timer = 146097 * 86400 * ?era + ?t"
      using mult_div_mod_eq [of ERALENGTH timer] by (simp only: ERALENGTH_def)
    ultimately show ?thesis by (simp only: mult.assoc mult.commute add_ac)
  qed
  have days: "timer div 86400 = d + ?era * 146097"
    by (rule int_div_pos_eq [of _ _ _ "timer mod 86400"]) (use split in simp_all)
  have wday: "(d + 4) mod 7 = (timer div 86400 + 4) mod 7"
    using mod_mult_self2 [of "d + 4" 7 "?era * 20871"] by (simp add: days algebra_simps)
  have start: "timer div 86400 = r + year_start year"
    using year_start_period [of "y + 70" ?era] y(7) by (simp add: days year_def add.commute mult.commute)
  obtain mon where mon: "localtime_month (get_months_cumulative year) r 0 = Some mon" "mon + 1 < 13"
      "get_months_cumulative year ! mon \<le> r" "r < get_months_cumulative year ! (mon + 1)"
    using localtime_month_finds [of 0 "get_months_cumulative year" r] y(5,6) tables by (auto simp: months_cumulative_ends)
  note floor_adjust [OF pos, of timer]
  note eq = localtime_utc_def [of timer, unfolded Let_def this prod.case, folded d_def spread_def,
      unfolded y(1,2), folded year_def, unfolded tables mon(1) option.case seconds wday]
  show thesis
    by (rule that [of r year mon]) (use y(5,6) tables start mon eq in \<open>simp_all add: tm_at_def\<close>)
qed

lemma second_of_day:
  "(s :: int) mod 86400 mod 60 + s mod 86400 div 60 mod 60 * 60 + s mod 86400 div 60 div 60 * 3600 = s mod 86400"
proof -
  have "x mod 60 + x div 60 mod 60 * 60 + x div 60 div 60 * 3600 = x" for x :: int
  proof -
    have "x div 60 mod 60 + x div 60 div 60 * 60 = x div 60" by (rule mod_div_mult_eq)
    moreover have "x mod 60 + x div 60 * 60 = x" by (rule mod_div_mult_eq)
    moreover have "a + b * 60 + c * 3600 = x" if "b + c * 60 = d" "a + d * 60 = x" for a b c d :: int using that by simp
    ultimately show ?thesis by blast
  qed
  then show ?thesis by simp
qed

lemma mktime_tm_at:
  assumes "mon < 12"
  shows "mktime_utc (tm_at t year yday mon year) = \<lparr>tv_sec = t mod 86400 + (yday + year_start year) * 86400, tv_nsec = 0\<rparr>"
proof -
  have cancel: "x - k + 1 + k - 1 = x" for x k :: int by simp
  have m: "int mon div 12 = 0" "int mon mod 12 = int mon" using assms by simp_all
  show ?thesis
    unfolding mktime_utc_year_start Let_def tm_at_def tm.select_convs m
    by (simp only: second_of_day div_0 mod_0 add_0_right nat_int cancel)
qed

lemma tm_at_ranges:
  assumes "mon < 12" "get_months_cumulative year ! mon \<le> yday" "yday < get_months_cumulative year ! (mon + 1)"
  shows "tm_yday (tm_at t year yday mon y) = yday \<and> tm_wday (tm_at t year yday mon y) = (t div 86400 + 4) mod 7
    \<and> tm_year (tm_at t year yday mon y) = y
    \<and> 0 \<le> tm_mon (tm_at t year yday mon y) \<and> tm_mon (tm_at t year yday mon y) < 12
    \<and> 1 \<le> tm_mday (tm_at t year yday mon y)
    \<and> tm_mday (tm_at t year yday mon y) \<le> get_months year ! nat (tm_mon (tm_at t year yday mon y))
    \<and> 0 \<le> tm_sec (tm_at t year yday mon y) \<and> tm_sec (tm_at t year yday mon y) < 60
    \<and> 0 \<le> tm_min (tm_at t year yday mon y) \<and> tm_min (tm_at t year yday mon y) < 60
    \<and> 0 \<le> tm_hour (tm_at t year yday mon y) \<and> tm_hour (tm_at t year yday mon y) < 24"
proof -
  define s where "s = t mod 86400"
  define m where "m = s div 60"
  define h where "h = m div 60"
  have "0 \<le> s" "s < 86400" by (simp_all add: s_def)
  moreover have "60 * m \<le> s" "s < 60 * m + 60" using div_bounds [of 60 s] by (simp_all add: m_def)
  moreover have "60 * h \<le> m" "m < 60 * h + 60" using div_bounds [of 60 m] by (simp_all add: h_def)
  ultimately have h: "0 \<le> h" "h < 24" by linarith+
  have mday: "yday - get_months_cumulative year ! mon + 1 \<le> get_months year ! mon"
    using assms(3) months_cumulative_step [OF assms(1), of year] by simp
  show ?thesis
    unfolding tm_at_def tm.select_convs s_def [symmetric] m_def [symmetric] h_def [symmetric]
    using assms h mday by simp
qed

section \<open>Timestamps of the kernel\<close>

lemma timestamp_roundtrip_exact: "timespec_to_timestamp_exact (timestamp_to_timespec w) = Some w"
proof -
  have e: "uint w div NSEC_PER_SEC * NSEC_PER_SEC + uint w mod NSEC_PER_SEC = uint w" by (rule div_mult_mod_eq)
  have b: "0 \<le> uint w mod NSEC_PER_SEC" "uint w mod NSEC_PER_SEC < NSEC_PER_SEC" "0 \<le> uint w div NSEC_PER_SEC"
    by (simp_all add: NSEC_PER_SEC_def pos_imp_zdiv_nonneg_iff)
  have u: "uint w < 2 ^ 64" using uint_lt2p [of w] by simp
  then have m: "uint w div NSEC_PER_SEC * NSEC_PER_SEC < 2 ^ 64" using e b(1) by linarith
  show ?thesis
    unfolding timespec_to_timestamp_exact_def timestamp_to_timespec_def timespec.select_convs e
    using b u m by (simp add: not_le [symmetric])
qed

lemma timestamp_clamp_exact:
  "timespec_to_timestamp_exact ts = Some w \<Longrightarrow> timespec_to_timestamp_clamp ts = Some w"
  by (auto simp: timespec_to_timestamp_exact_def timespec_to_timestamp_clamp_def split: if_splits)

section \<open>Properties\<close>

text \<open>
  C15: converting a time to its calendar fields and back gives the time: when \<open>__localtime_utc()\<close>
  reports no overflow, \<open>__mktime_utc()\<close> of its result is the time it was given, before and after the
  epoch.
\<close>

theorem localtime_mktime_roundtrip:
  assumes "localtime_utc t = Some (None, tm)"
  shows "mktime_utc tm = \<lparr>tv_sec = t, tv_nsec = 0\<rparr>"
proof -
  obtain year yday mon where s: "t div 86400 = yday + year_start year" "mon < 12"
    and tm: "tm = tm_at t year yday mon year"
    by (rule localtime_utc_split [of t]) (use assms in \<open>auto split: if_splits\<close>)
  show ?thesis unfolding tm mktime_tm_at [OF s(2)] s(1) [symmetric] mod_div_mult_eq by (rule refl)
qed

theorem localtime_mktime_roundtrip_witness:
  "mktime_utc \<lparr>tm_sec = 59, tm_min = 59, tm_hour = 23, tm_mday = 31, tm_mon = 11, tm_year = 69,
     tm_wday = 3, tm_yday = 364, tm_isdst = 0, tm_gmtoff = 0, tm_zone = None, tm_nsec = 0\<rparr> = \<lparr>tv_sec = - 1, tv_nsec = 0\<rparr>"
proof (rule localtime_mktime_roundtrip)
  show "localtime_utc (- 1) = Some (None, \<lparr>tm_sec = 59, tm_min = 59, tm_hour = 23, tm_mday = 31, tm_mon = 11, tm_year = 69,
     tm_wday = 3, tm_yday = 364, tm_isdst = 0, tm_gmtoff = 0, tm_zone = None, tm_nsec = 0\<rparr>)"
    by code_simp
qed

text \<open>
  C28: \<open>__localtime_utc()\<close> is total, its search for the month stays inside the table, and all fields
  are in their ranges: the year is the one whose days contain the day of the time, the day of the
  month exists in that month of that year, the weekday counts on from Thursday, 1 January 1970.
  It reports \<open>EOVERFLOW\<close>, with the year clamped, exactly when the year does not fit an \<open>int\<close>.
\<close>

theorem localtime_utc_fields:
  "\<exists>err tm year. localtime_utc t = Some (err, tm)
     \<and> year_start year \<le> t div 86400 \<and> t div 86400 < year_start (year + 1)
     \<and> tm_yday tm = t div 86400 - year_start year
     \<and> 0 \<le> tm_mon tm \<and> tm_mon tm < 12 \<and> 1 \<le> tm_mday tm \<and> tm_mday tm \<le> get_months year ! nat (tm_mon tm)
     \<and> 0 \<le> tm_sec tm \<and> tm_sec tm < 60 \<and> 0 \<le> tm_min tm \<and> tm_min tm < 60 \<and> 0 \<le> tm_hour tm \<and> tm_hour tm < 24
     \<and> tm_wday tm = (t div 86400 + 4) mod 7
     \<and> (if year < - (2 ^ 31) then err = Some EOVERFLOW \<and> tm_year tm = - (2 ^ 31)
        else if year > 2 ^ 31 - 1 then err = Some EOVERFLOW \<and> tm_year tm = 2 ^ 31 - 1
        else err = None \<and> tm_year tm = year)"
proof -
  obtain year yday mon where s: "0 \<le> yday" "yday < get_ydays year" "t div 86400 = yday + year_start year" "mon < 12"
    "get_months_cumulative year ! mon \<le> yday" "yday < get_months_cumulative year ! (mon + 1)"
    and eq: "localtime_utc t =
       (if year < - (2 ^ 31) then Some (Some EOVERFLOW, tm_at t year yday mon (- (2 ^ 31)))
        else if year > 2 ^ 31 - 1 then Some (Some EOVERFLOW, tm_at t year yday mon (2 ^ 31 - 1))
        else Some (None, tm_at t year yday mon year))"
    by (rule localtime_utc_split [of t])
  have "year_start year \<le> t div 86400" "t div 86400 < year_start (year + 1)" "yday = t div 86400 - year_start year"
    using s(1,2) unfolding s(3) year_start_succ by simp_all
  note facts = this tm_at_ranges [OF s(4-6), of t]
  consider "year < - (2 ^ 31)" | "\<not> year < - (2 ^ 31)" "year > 2 ^ 31 - 1" | "\<not> year < - (2 ^ 31)" "\<not> year > 2 ^ 31 - 1"
    by blast
  then show ?thesis
  proof cases
    case 1
    then show ?thesis using facts unfolding eq
      by (intro exI [of _ "Some EOVERFLOW"] exI [of _ year] exI [of _ "tm_at t year yday mon (- (2 ^ 31))"]) simp
  next
    case 2
    then show ?thesis using facts unfolding eq
      by (intro exI [of _ "Some EOVERFLOW"] exI [of _ year] exI [of _ "tm_at t year yday mon (2 ^ 31 - 1)"]) simp
  next
    case 3
    then show ?thesis using facts unfolding eq
      by (intro exI [of _ None] exI [of _ year] exI [of _ "tm_at t year yday mon year"]) simp
  qed
qed

definition new_year :: "int \<Rightarrow> tm" where
  "new_year y =
     \<lparr>tm_sec = 0, tm_min = 0, tm_hour = 0, tm_mday = 1, tm_mon = 0, tm_year = y, tm_wday = 0, tm_yday = 0,
      tm_isdst = 0, tm_gmtoff = 0, tm_zone = None, tm_nsec = 0\<rparr>"

text \<open>
  The closed formula that \<open>__mktime_utc()\<close> has for the first day of a year counts the days of the
  years: 1 January 1970 is time zero, and each new year comes \<open>get_ydays()\<close> days after the one before
  it, for all years of both signs.
\<close>

theorem mktime_counts_years:
  "mktime_utc (new_year 70) = \<lparr>tv_sec = 0, tv_nsec = 0\<rparr>
   \<and> tv_sec (mktime_utc (new_year (y + 1))) = tv_sec (mktime_utc (new_year y)) + get_ydays y * 86400"
proof -
  have "mktime_utc (new_year y) = \<lparr>tv_sec = year_start y * 86400, tv_nsec = 0\<rparr>" for y
    unfolding mktime_utc_year_start Let_def by (simp add: new_year_def months_cumulative_ends)
  then show ?thesis by (simp only: year_start_succ timespec.select_convs distrib_right) (simp add: year_start_def)
qed

text \<open>
  For all values of the fields, each any \<open>int\<close> (and the nanoseconds any \<open>long\<close>), the time that
  \<open>__mktime_utc()\<close> computes fits \<open>time_t\<close>, and the nanoseconds are normalised.
\<close>

theorem mktime_utc_bounds:
  assumes "\<forall>f \<in> {tm_sec tm, tm_min tm, tm_hour tm, tm_mday tm, tm_mon tm, tm_year tm}. - (2 ^ 31) \<le> f \<and> f < 2 ^ 31"
    and "- (2 ^ 63) \<le> tm_nsec tm" "tm_nsec tm < 2 ^ 63"
  shows "- (2 ^ 63) \<le> tv_sec (mktime_utc tm) \<and> tv_sec (mktime_utc tm) < 2 ^ 63
    \<and> 0 \<le> tv_nsec (mktime_utc tm) \<and> tv_nsec (mktime_utc tm) < NSEC_PER_SEC"
proof -
  define m where "m = tm_mon tm div 12"
  define n where "n = tm_nsec tm div NSEC_PER_SEC"
  define y where "y = tm_year tm + m"
  define a where "a = (y - 69) div 4"
  define b where "b = (y - 1) div 100"
  define c where "c = (y + 299) div 400"
  define k where "k = get_months_cumulative y ! nat (tm_mon tm mod 12)"
  have "nat (tm_mon tm mod 12) < 13" using pos_mod_bound [of 12 "tm_mon tm"] by linarith
  then have k: "0 \<le> k" "k \<le> 366" using months_cumulative_bound unfolding k_def by blast+
  have bounds: "12 * m \<le> tm_mon tm" "tm_mon tm < 12 * m + 12" "1000000000 * n \<le> tm_nsec tm"
      "tm_nsec tm < 1000000000 * n + 1000000000" "4 * a \<le> y - 69" "y - 69 < 4 * a + 4" "100 * b \<le> y - 1"
      "y - 1 < 100 * b + 100" "400 * c \<le> y + 299" "y + 299 < 400 * c + 400"
    using div_bounds [of 12 "tm_mon tm"] div_bounds [of 1000000000 "tm_nsec tm"] div_bounds [of 4 "y - 69"]
      div_bounds [of 100 "y - 1"] div_bounds [of 400 "y + 299"]
    unfolding m_def n_def a_def b_def c_def NSEC_PER_SEC_def by simp_all
  have e: "mktime_utc tm = \<lparr>tv_sec = tm_sec tm + tm_min tm * 60 + tm_hour tm * 3600 + n
      + (tm_mday tm + k - 1 + ((y - 70) * 365 + a - b + c)) * 86400, tv_nsec = tm_nsec tm mod NSEC_PER_SEC\<rparr>"
    unfolding mktime_utc_year_start Let_def year_start_def m_def n_def y_def a_def b_def c_def k_def by (rule refl)
  have f: "- 2147483648 \<le> tm_sec tm" "tm_sec tm < 2147483648" "- 2147483648 \<le> tm_min tm" "tm_min tm < 2147483648"
      "- 2147483648 \<le> tm_hour tm" "tm_hour tm < 2147483648" "- 2147483648 \<le> tm_mday tm" "tm_mday tm < 2147483648"
      "- 2147483648 \<le> tm_mon tm" "tm_mon tm < 2147483648" "- 2147483648 \<le> tm_year tm" "tm_year tm < 2147483648"
      "- 9223372036854775808 \<le> tm_nsec tm" "tm_nsec tm < 9223372036854775808"
    using assms by simp_all
  have n: "- 9300000000 \<le> n" using f(13) bounds(4) by linarith
  have n': "n \<le> 9300000000" using f(14) bounds(3) by linarith
  have m: "- 200000000 \<le> m" using f(9) bounds(2) by linarith
  have m': "m \<le> 200000000" using f(10) bounds(1) by linarith
  have y: "- 2400000000 \<le> y" using m f(11) unfolding y_def by linarith
  have y': "y \<le> 2400000000" using m' f(12) unfolding y_def by linarith
  have abc: "- 700000000 \<le> a" "a \<le> 700000000" "- 700000000 \<le> b" "b \<le> 700000000" "- 700000000 \<le> c" "c \<le> 700000000"
    using y y' bounds(5-10) by linarith+
  define day where "day = tm_mday tm + k - 1 + ((y - 70) * 365 + a - b + c)"
  have ym: "(y - 70) * 365 = y * 365 - 25550" by simp
  have day: "- 2000000000000 \<le> day" using f(7) k(1) y abc unfolding day_def ym by linarith
  have day': "day \<le> 2000000000000" using f(8) k(2) y' abc unfolding day_def ym by linarith
  have "- 9223372036854775808 \<le> tv_sec (mktime_utc tm)"
    unfolding e timespec.select_convs day_def [symmetric] using f(1,3,5) n day by linarith
  moreover have "tv_sec (mktime_utc tm) < 9223372036854775808"
    unfolding e timespec.select_convs day_def [symmetric] using f(2,4,6) n' day' by linarith
  ultimately show ?thesis by (simp add: e NSEC_PER_SEC_def)
qed

end
