(* ===== verification/Qsort.thy ===== *)
theory Qsort
  imports Prelude "HOL-Library.Multiset"
begin

text \<open>
  Sorting and binary search, the inline functions of \<^verbatim>\<open><stdlib.h>\<close>: Bentley and McIlroy's quicksort with
  insertion sort for short arrays, and \<open>bsearch()\<close>. An array is the list of its elements and a
  pointer into it is an index: all pointers of the code are at multiples of the width of an
  element, and the byte ranges that it swaps are whole elements. A recursive call works on the
  slice of the array that its pointer and its count describe. Whether the recursion ends depends on
  the callback, so that the sort is a partial function.
\<close>

section \<open>Operations\<close>

fun qsort_swap :: "'a list \<Rightarrow> nat \<Rightarrow> nat \<Rightarrow> nat \<Rightarrow> 'a list" where
  "qsort_swap xs a b 0 = xs"
| "qsort_swap xs a b (Suc n) = qsort_swap (xs[a := xs ! b, b := xs ! a]) (Suc a) (Suc b) n"

fun qsort_sink :: "('a \<Rightarrow> 'a \<Rightarrow> int) \<Rightarrow> 'a list \<Rightarrow> nat \<Rightarrow> 'a list" where
  "qsort_sink cmp xs 0 = xs"
| "qsort_sink cmp xs (Suc pl) =
     (if cmp (xs ! pl) (xs ! Suc pl) > 0 then qsort_sink cmp (qsort_swap xs (Suc pl) pl 1) pl else xs)"

definition qsort_insertionsort :: "('a \<Rightarrow> 'a \<Rightarrow> int) \<Rightarrow> 'a list \<Rightarrow> 'a list" where
  "qsort_insertionsort cmp xs = fold (\<lambda>pm xs. qsort_sink cmp xs pm) [1..<length xs] xs"

definition qsort_med3 :: "('a \<Rightarrow> 'a \<Rightarrow> int) \<Rightarrow> 'a list \<Rightarrow> nat \<Rightarrow> nat \<Rightarrow> nat \<Rightarrow> nat" where
  "qsort_med3 cmp xs a b c =
     (if cmp (xs ! a) (xs ! b) < 0
      then (if cmp (xs ! b) (xs ! c) < 0 then b else if cmp (xs ! a) (xs ! c) < 0 then c else a)
      else (if cmp (xs ! b) (xs ! c) > 0 then b else if cmp (xs ! a) (xs ! c) > 0 then c else a))"

definition qsort_pickpivot :: "('a \<Rightarrow> 'a \<Rightarrow> int) \<Rightarrow> 'a list \<Rightarrow> nat" where
  "qsort_pickpivot cmp xs =
     (let nel = length xs; pl = 0; pm = nel div 2; pn = nel - 1
      in if nel > 40 then
           (let s = nel div 8;
                pl = qsort_med3 cmp xs pl (pl + s) (pl + 2 * s);
                pm = qsort_med3 cmp xs (pm - s) pm (pm + s);
                pn = qsort_med3 cmp xs (pn - 2 * s) (pn - s) pn
            in qsort_med3 cmp xs pl pm pn)
         else qsort_med3 cmp xs pl pm pn)"

function qsort_scan_up :: "('a \<Rightarrow> 'a \<Rightarrow> int) \<Rightarrow> 'a list \<Rightarrow> int \<Rightarrow> int \<Rightarrow> int \<Rightarrow> 'a list \<times> int \<times> int" where
  "qsort_scan_up cmp xs pa pb pc =
     (if pb \<le> pc \<and> cmp (xs ! nat pb) (xs ! 0) \<le> 0 then
        if cmp (xs ! nat pb) (xs ! 0) = 0
        then qsort_scan_up cmp (qsort_swap xs (nat pa) (nat pb) 1) (pa + 1) (pb + 1) pc
        else qsort_scan_up cmp xs pa (pb + 1) pc
      else (xs, pa, pb))"
  by pat_completeness auto
termination by (relation "measure (\<lambda>(cmp, xs, pa, pb, pc). nat (pc + 1 - pb))") auto

function qsort_scan_down :: "('a \<Rightarrow> 'a \<Rightarrow> int) \<Rightarrow> 'a list \<Rightarrow> int \<Rightarrow> int \<Rightarrow> int \<Rightarrow> 'a list \<times> int \<times> int" where
  "qsort_scan_down cmp xs pb pc pd =
     (if pc \<ge> pb \<and> cmp (xs ! nat pc) (xs ! 0) \<ge> 0 then
        if cmp (xs ! nat pc) (xs ! 0) = 0
        then qsort_scan_down cmp (qsort_swap xs (nat pc) (nat pd) 1) pb (pc - 1) (pd - 1)
        else qsort_scan_down cmp xs pb (pc - 1) pd
      else (xs, pc, pd))"
  by pat_completeness auto
termination by (relation "measure (\<lambda>(cmp, xs, pb, pc, pd). nat (pc + 1 - pb))") auto

declare qsort_scan_up.simps [simp del] qsort_scan_down.simps [simp del]

lemma scan_up_advances: "qsort_scan_up cmp xs pa pb pc = (xs', pa', pb') \<Longrightarrow> pb \<le> pb'"
proof (induction cmp xs pa pb pc rule: qsort_scan_up.induct)
  case (1 cmp xs pa pb pc)
  then show ?case unfolding qsort_scan_up.simps [of cmp xs pa pb pc] by (fastforce split: if_splits)
qed

lemma scan_down_retreats: "qsort_scan_down cmp xs pb pc pd = (xs', pc', pd') \<Longrightarrow> pc' \<le> pc"
proof (induction cmp xs pb pc pd rule: qsort_scan_down.induct)
  case (1 cmp xs pb pc pd)
  then show ?case unfolding qsort_scan_down.simps [of cmp xs pb pc pd] by (fastforce split: if_splits)
qed

function qsort_partition ::
    "('a \<Rightarrow> 'a \<Rightarrow> int) \<Rightarrow> 'a list \<Rightarrow> int \<Rightarrow> int \<Rightarrow> int \<Rightarrow> int \<Rightarrow> 'a list \<times> int \<times> int \<times> int \<times> int" where
  "qsort_partition cmp xs pa pb pc pd =
     (case qsort_scan_up cmp xs pa pb pc of
        (xs, pa, pb') \<Rightarrow>
          (case qsort_scan_down cmp xs pb' pc pd of
             (xs, pc', pd) \<Rightarrow>
               if pb' > pc' then (xs, pa, pb', pc', pd)
               else qsort_partition cmp (qsort_swap xs (nat pb') (nat pc') 1) pa (pb' + 1) (pc' - 1) pd))"
  by pat_completeness auto
termination
  by (relation "measure (\<lambda>(cmp, xs, pa, pb, pc, pd). nat (pc + 1 - pb))")
    (auto dest!: scan_up_advances [OF sym] scan_down_retreats [OF sym])

declare qsort_partition.simps [simp del]

definition qsort_rearrange :: "('a \<Rightarrow> 'a \<Rightarrow> int) \<Rightarrow> 'a list \<Rightarrow> 'a list \<times> nat \<times> nat" where
  "qsort_rearrange cmp xs =
     (let n = length xs;
          xs = qsort_swap xs 0 (qsort_pickpivot cmp xs) 1;
          (xs, pa, pb, pc, pd) = qsort_partition cmp xs 0 0 (int n - 1) (int n - 1);
          s = nat (min pa (pb - pa));
          xs = qsort_swap xs 0 (nat pb - s) s;
          s = nat (min (pd - pc) (int n - pd - 1));
          xs = qsort_swap xs (nat pb) (n - s) s
      in (xs, nat (pb - pa), nat (pd - pc)))"

partial_function (option) qsort_sort :: "('a \<Rightarrow> 'a \<Rightarrow> int) \<Rightarrow> 'a list \<Rightarrow> 'a list option" where
  "qsort_sort cmp xs =
     (if length xs < 8 then Some (qsort_insertionsort cmp xs)
      else
        (case qsort_rearrange cmp xs of
           (xs, s1, s2) \<Rightarrow>
             Option.bind (qsort_sort cmp (take s1 xs))
               (\<lambda>ys. Option.bind (qsort_sort cmp (drop (length xs - s2) (ys @ drop s1 xs)))
                  (\<lambda>zs. Some (take (length xs - s2) (ys @ drop s1 xs) @ zs)))))"

definition qsort_r :: "'a list \<Rightarrow> ('a \<Rightarrow> 'a \<Rightarrow> 't \<Rightarrow> int) \<Rightarrow> 't \<Rightarrow> 'a list option" where
  "qsort_r xs cmp thunk = qsort_sort (\<lambda>a b. cmp a b thunk) xs"

definition qsort_cmp :: "'a \<Rightarrow> 'a \<Rightarrow> ('a \<Rightarrow> 'a \<Rightarrow> int) \<Rightarrow> int" where
  "qsort_cmp a b thunk = thunk a b"

definition qsort :: "'a list \<Rightarrow> ('a \<Rightarrow> 'a \<Rightarrow> int) \<Rightarrow> 'a list option" where
  "qsort xs cmp = qsort_r xs qsort_cmp cmp"

function bsearch_loop :: "('k \<Rightarrow> 'a \<Rightarrow> int) \<Rightarrow> 'k \<Rightarrow> 'a list \<Rightarrow> nat \<Rightarrow> nat \<Rightarrow> nat option" where
  "bsearch_loop compar key xs basep nel =
     (if nel > 0 then
        (let mid = nel div 2; obj = basep + mid; cmp = compar key (xs ! obj)
         in if cmp < 0 then bsearch_loop compar key xs basep mid
            else if cmp > 0 then bsearch_loop compar key xs (basep + (mid + 1)) (nel - (mid + 1))
            else Some obj)
      else None)"
  by pat_completeness auto
termination by (relation "measure (\<lambda>(compar, key, xs, basep, nel). nel)") auto

declare bsearch_loop.simps [simp del]

definition bsearch :: "'k \<Rightarrow> 'a list \<Rightarrow> ('k \<Rightarrow> 'a \<Rightarrow> int) \<Rightarrow> nat option" where
  "bsearch key xs compar = bsearch_loop compar key xs 0 (length xs)"

section \<open>Swapping keeps the elements\<close>

lemma swap_1: "qsort_swap xs a b 1 = xs[a := xs ! b, b := xs ! a]"
  by simp

lemma length_swap [simp]: "length (qsort_swap xs a b n) = length xs"
  by (induction xs a b n rule: qsort_swap.induct) simp_all

lemma mset_swap_range [simp]: "a + n \<le> length xs \<Longrightarrow> b + n \<le> length xs \<Longrightarrow> mset (qsort_swap xs a b n) = mset xs"
  by (induction xs a b n rule: qsort_swap.induct) (simp_all add: mset_swap)

lemma swap_outside:
  "i < a \<or> a + n \<le> i \<Longrightarrow> i < b \<or> b + n \<le> i \<Longrightarrow> qsort_swap xs a b n ! i = xs ! i"
proof (induction xs a b n rule: qsort_swap.induct)
  case (2 xs a b n)
  have "i \<noteq> a" "i \<noteq> b" using "2.prems" by auto
  then show ?case using 2 by auto
qed simp

lemma swap_first: "a + n \<le> b \<Longrightarrow> b + n \<le> length xs \<Longrightarrow> k < n \<Longrightarrow> qsort_swap xs a b n ! (a + k) = xs ! (b + k)"
proof (induction xs a b n arbitrary: k rule: qsort_swap.induct)
  case (2 xs a b n)
  show ?case
  proof (cases k)
    case 0
    then show ?thesis using "2.prems" by (simp add: swap_outside)
  next
    case (Suc j)
    then show ?thesis using "2.IH" [of j] "2.prems" by simp
  qed
qed simp

lemma swap_second: "a + n \<le> b \<Longrightarrow> b + n \<le> length xs \<Longrightarrow> k < n \<Longrightarrow> qsort_swap xs a b n ! (b + k) = xs ! (a + k)"
proof (induction xs a b n arbitrary: k rule: qsort_swap.induct)
  case (2 xs a b n)
  show ?case
  proof (cases k)
    case 0
    then show ?thesis using "2.prems" by (simp add: swap_outside)
  next
    case (Suc j)
    then show ?thesis using "2.IH" [of j] "2.prems" by simp
  qed
qed simp

section \<open>Insertion sort\<close>

context comparator
begin

abbreviation sorted_by :: "'a list \<Rightarrow> bool" where
  "sorted_by xs \<equiv> sorted_wrt (\<lambda>a b. compar a b \<le> 0) xs"

lemma sink_split:
  "\<exists>us1 us2. us = us1 @ us2 \<and> qsort_sink compar (us @ x # vs) (length us) = us1 @ x # us2 @ vs
    \<and> (\<forall>u \<in> set us2. 0 < compar u x) \<and> (us1 = [] \<or> compar (last us1) x \<le> 0)"
proof (induction us arbitrary: vs rule: rev_induct)
  case (snoc u us)
  have step: "qsort_sink compar ((us @ [u]) @ x # vs) (length (us @ [u])) =
      (if 0 < compar u x then qsort_sink compar (us @ x # (u # vs)) (length us) else us @ u # x # vs)"
    by (simp add: nth_append list_update_append)
  show ?case
  proof (cases "0 < compar u x")
    case True
    obtain us1 us2 where "us = us1 @ us2" "qsort_sink compar (us @ x # (u # vs)) (length us) = us1 @ x # us2 @ u # vs"
      "\<forall>u \<in> set us2. 0 < compar u x" "us1 = [] \<or> compar (last us1) x \<le> 0"
      using snoc [of "u # vs"] by blast
    then show ?thesis unfolding step using True by (intro exI [of _ us1] exI [of _ "us2 @ [u]"]) simp
  next
    case False
    then show ?thesis unfolding step by (intro exI [of _ "us @ [u]"] exI [of _ "[]"]) simp
  qed
qed simp

lemma sink_sorted:
  assumes "sorted_by us"
  obtains us' where "qsort_sink compar (us @ x # vs) (length us) = us' @ vs" "sorted_by us'"
    "mset us' = mset (us @ [x])" "length us' = Suc (length us)"
proof -
  obtain us1 us2 where u: "us = us1 @ us2" "qsort_sink compar (us @ x # vs) (length us) = us1 @ x # us2 @ vs"
    "\<forall>u \<in> set us2. 0 < compar u x" "us1 = [] \<or> compar (last us1) x \<le> 0"
    using sink_split by blast
  have "compar a x \<le> 0" if a: "a \<in> set us1" for a
  proof -
    obtain bs b where b: "us1 = bs @ [b]" using a by (metis empty_iff list.set(1) rev_exhaust)
    then have "compar a b \<le> 0" using a assms u(1) by (auto simp: sorted_wrt_append)
    then show ?thesis using u(4) b compar_trans by auto
  qed
  moreover have "compar x a \<le> 0" if "a \<in> set us2" for a
    using u(3) that compar_pos_iff less_imp_le by blast
  ultimately have "sorted_by (us1 @ x # us2)" using assms u(1) by (auto simp: sorted_wrt_append)
  then show thesis using u(1,2) by (intro that [of "us1 @ x # us2"]) simp_all
qed

lemma insertionsort_loop:
  "sorted_by us \<Longrightarrow>
     sorted_by (fold (\<lambda>pm xs. qsort_sink compar xs pm) [length us..<length us + length vs] (us @ vs))
     \<and> mset (fold (\<lambda>pm xs. qsort_sink compar xs pm) [length us..<length us + length vs] (us @ vs)) = mset (us @ vs)"
proof (induction vs arbitrary: us)
  case (Cons x vs)
  obtain us' where u: "qsort_sink compar (us @ x # vs) (length us) = us' @ vs" "sorted_by us'"
    "mset us' = mset (us @ [x])" "length us' = Suc (length us)"
    by (rule sink_sorted [OF Cons.prems, of x vs])
  have "[length us..<length us + length (x # vs)] = length us # [length us'..<length us' + length vs]"
    using u(4) upt_conv_Cons [of "length us" "length us + length (x # vs)"] by simp
  then show ?case using Cons.IH [OF u(2)] u(1,3) by simp
qed simp

lemma insertionsort_correct: "sorted_by (qsort_insertionsort compar xs) \<and> mset (qsort_insertionsort compar xs) = mset xs"
proof (cases xs)
  case (Cons x vs)
  then show ?thesis using insertionsort_loop [of "[x]" vs] by (simp add: qsort_insertionsort_def)
qed (simp add: qsort_insertionsort_def)

end

section \<open>Partitioning\<close>

definition split_at :: "('a \<Rightarrow> 'a \<Rightarrow> int) \<Rightarrow> 'a list \<Rightarrow> 'a \<Rightarrow> int \<Rightarrow> int \<Rightarrow> int \<Rightarrow> int \<Rightarrow> bool" where
  "split_at cmp xs p pa pb pc pd \<longleftrightarrow>
     0 \<le> pa \<and> pa \<le> pb \<and> pb \<le> pc + 1 \<and> pc \<le> pd \<and> pd < int (length xs) \<and> xs ! 0 = p \<and> (pa = 0 \<longrightarrow> pb = 0)
     \<and> (\<forall>i. 0 \<le> i \<and> i < pa \<longrightarrow> cmp (xs ! nat i) p = 0) \<and> (\<forall>i. pa \<le> i \<and> i < pb \<longrightarrow> cmp (xs ! nat i) p < 0)
     \<and> (\<forall>i. pc < i \<and> i \<le> pd \<longrightarrow> cmp (xs ! nat i) p > 0)
     \<and> (\<forall>i. pd < i \<and> i < int (length xs) \<longrightarrow> cmp (xs ! nat i) p = 0)"

lemma nth_swap_1:
  assumes "0 \<le> a" "a < int (length xs)" "0 \<le> b" "b < int (length xs)" "0 \<le> i"
  shows "qsort_swap xs (nat a) (nat b) 1 ! nat i =
    (if i = b then xs ! nat a else if i = a then xs ! nat b else xs ! nat i)"
  using assms by (auto simp: nth_list_update eq_nat_nat_iff nat_less_iff)

lemma mset_swap_1:
  "0 \<le> a \<Longrightarrow> a < int (length xs) \<Longrightarrow> 0 \<le> b \<Longrightarrow> b < int (length xs) \<Longrightarrow> mset (qsort_swap xs (nat a) (nat b) 1) = mset xs"
  by (rule mset_swap_range) linarith+

context comparator
begin

lemma split_grow_equal:
  assumes s: "split_at compar xs p pa pb pc pd" and "pb \<le> pc" "compar (xs ! nat pb) p = 0"
  shows "split_at compar (qsort_swap xs (nat pa) (nat pb) 1) p (pa + 1) (pb + 1) pc pd"
proof -
  have b: "0 \<le> pa" "pa < int (length xs)" "0 \<le> pb" "pb < int (length xs)" using assms by (auto simp: split_at_def)
  have "qsort_swap xs (nat pa) (nat pb) 1 ! nat 0 = p"
    using nth_swap_1 [OF b, of 0] s b by (cases "pa = 0") (auto simp: split_at_def)
  then show ?thesis using assms b unfolding split_at_def by (auto simp: nth_swap_1 simp del: qsort_swap.simps One_nat_def)
qed

lemma split_grow_less:
  "split_at compar xs p pa pb pc pd \<Longrightarrow> pb \<le> pc \<Longrightarrow> compar (xs ! nat pb) p < 0 \<Longrightarrow> split_at compar xs p pa (pb + 1) pc pd"
  unfolding split_at_def by (smt (verit) compar_refl nat_0_iff)

lemma scan_up_split:
  "split_at compar xs p pa pb pc pd \<Longrightarrow> 0 \<le> pc \<Longrightarrow> qsort_scan_up compar xs pa pb pc = (xs', pa', pb') \<Longrightarrow>
     split_at compar xs' p pa' pb' pc pd \<and> mset xs' = mset xs \<and> 1 \<le> pa'
     \<and> (pb' \<le> pc \<longrightarrow> 0 < compar (xs' ! nat pb') p)"
proof (induction "nat (pc + 1 - pb)" arbitrary: xs pa pb rule: less_induct)
  case less
  have s: "0 \<le> pa" "pa \<le> pb" "pd < int (length xs)" "pc \<le> pd" "xs ! 0 = p" "pa = 0 \<longrightarrow> pb = 0"
    using less.prems(1) by (auto simp: split_at_def)
  consider "pb \<le> pc" "compar (xs ! nat pb) p = 0" | "pb \<le> pc" "compar (xs ! nat pb) p < 0"
    | "\<not> (pb \<le> pc \<and> compar (xs ! nat pb) p \<le> 0)" by linarith
  then show ?case
  proof cases
    case 1
    let ?xs = "qsort_swap xs (nat pa) (nat pb) 1"
    have "qsort_scan_up compar ?xs (pa + 1) (pb + 1) pc = (xs', pa', pb')"
      using less.prems(3) 1 s(5) by (simp add: qsort_scan_up.simps [of compar xs])
    moreover have "mset ?xs = mset xs" using s 1 by (intro mset_swap_1) linarith+
    ultimately show ?thesis
      using less.hyps [of "pb + 1" ?xs "pa + 1"] split_grow_equal [OF less.prems(1) 1] less.prems(2) 1(1) by simp
  next
    case 2
    then have "qsort_scan_up compar xs pa (pb + 1) pc = (xs', pa', pb')"
      using less.prems(3) s(5) by (simp add: qsort_scan_up.simps [of compar xs])
    then show ?thesis
      using less.hyps [of "pb + 1" xs pa] split_grow_less [OF less.prems(1) 2] less.prems(2) 2(1) by simp
  next
    case 3
    then have e: "xs' = xs" "pa' = pa" "pb' = pb"
      using less.prems(3) s(5) by (auto simp: qsort_scan_up.simps [of compar xs])
    have "pa \<noteq> 0" using 3 s(5,6) less.prems(2) by auto
    then show ?thesis using e less.prems(1) 3 s(1) by auto
  qed
qed

lemma split_shrink_equal:
  assumes s: "split_at compar xs p pa pb pc pd" and "pb \<le> pc" "compar (xs ! nat pc) p = 0" "1 \<le> pa"
  shows "split_at compar (qsort_swap xs (nat pc) (nat pd) 1) p pa pb (pc - 1) (pd - 1)"
proof -
  have b: "0 \<le> pc" "pc < int (length xs)" "0 \<le> pd" "pd < int (length xs)" using assms by (auto simp: split_at_def)
  have "qsort_swap xs (nat pc) (nat pd) 1 ! nat 0 = p"
    using nth_swap_1 [OF b, of 0] assms by (auto simp: split_at_def)
  then show ?thesis using assms b unfolding split_at_def by (auto simp: nth_swap_1 simp del: qsort_swap.simps One_nat_def)
qed

lemma split_shrink_greater:
  "split_at compar xs p pa pb pc pd \<Longrightarrow> pb \<le> pc \<Longrightarrow> 0 < compar (xs ! nat pc) p \<Longrightarrow> split_at compar xs p pa pb (pc - 1) pd"
  unfolding split_at_def by (smt (verit))

lemma scan_down_split:
  "split_at compar xs p pa pb pc pd \<Longrightarrow> 1 \<le> pa \<Longrightarrow> qsort_scan_down compar xs pb pc pd = (xs', pc', pd') \<Longrightarrow>
     split_at compar xs' p pa pb pc' pd' \<and> mset xs' = mset xs \<and> (\<forall>i. 0 \<le> i \<and> i \<le> pc' \<longrightarrow> xs' ! nat i = xs ! nat i)
     \<and> (pb \<le> pc' \<longrightarrow> compar (xs' ! nat pc') p < 0)"
proof (induction "nat (pc + 1 - pb)" arbitrary: xs pc pd rule: less_induct)
  case less
  have s: "0 \<le> pa" "pa \<le> pb" "pd < int (length xs)" "pc \<le> pd" "xs ! 0 = p"
    using less.prems(1) by (auto simp: split_at_def)
  consider "pb \<le> pc" "compar (xs ! nat pc) p = 0" | "pb \<le> pc" "0 < compar (xs ! nat pc) p"
    | "\<not> (pb \<le> pc \<and> 0 \<le> compar (xs ! nat pc) p)" by linarith
  then show ?case
  proof cases
    case 1
    let ?xs = "qsort_swap xs (nat pc) (nat pd) 1"
    have d: "qsort_scan_down compar ?xs pb (pc - 1) (pd - 1) = (xs', pc', pd')"
      using less.prems(3) 1 s(5) by (simp add: qsort_scan_down.simps [of compar xs])
    have b: "0 \<le> pc" "pc < int (length xs)" "0 \<le> pd" "pd < int (length xs)" using s 1(1) by linarith+
    have "mset ?xs = mset xs" using b by (rule mset_swap_1)
    moreover have "?xs ! nat i = xs ! nat i" if "0 \<le> i" "i \<le> pc'" for i
      using nth_swap_1 [OF b that(1)] scan_down_retreats [OF d] that(2) s(4) by simp
    ultimately show ?thesis
      using less.hyps [of "pc - 1" ?xs "pd - 1"] split_shrink_equal [OF less.prems(1) 1 less.prems(2)] less.prems(2) 1(1) d
      by simp
  next
    case 2
    then have "qsort_scan_down compar xs pb (pc - 1) pd = (xs', pc', pd')"
      using less.prems(3) s(5) by (simp add: qsort_scan_down.simps [of compar xs])
    then show ?thesis
      using less.hyps [of "pc - 1" xs pd] split_shrink_greater [OF less.prems(1) 2] less.prems(2) 2(1) by simp
  next
    case 3
    then have "xs' = xs" "pc' = pc" "pd' = pd"
      using less.prems(3) s(5) by (auto simp: qsort_scan_down.simps [of compar xs])
    then show ?thesis using less.prems(1) 3 by auto
  qed
qed

lemma split_exchange:
  assumes s: "split_at compar xs p pa pb pc pd" "1 \<le> pa" "pb \<le> pc"
    "0 < compar (xs ! nat pb) p" "compar (xs ! nat pc) p < 0"
  shows "split_at compar (qsort_swap xs (nat pb) (nat pc) 1) p pa (pb + 1) (pc - 1) pd"
proof -
  have "pb \<noteq> pc" using s(4,5) by auto
  then have b: "0 \<le> pb" "pb < int (length xs)" "0 \<le> pc" "pc < int (length xs)" "pb < pc"
    using s(1-3) by (auto simp: split_at_def)
  have "qsort_swap xs (nat pb) (nat pc) 1 ! nat 0 = p"
    using nth_swap_1 [OF b(1-4), of 0] s by (auto simp: split_at_def)
  then show ?thesis
    using s b unfolding split_at_def by (auto simp: nth_swap_1 simp del: qsort_swap.simps One_nat_def)
qed

lemma partition_split:
  "split_at compar xs p pa pb pc pd \<Longrightarrow> 0 \<le> pc \<Longrightarrow> qsort_partition compar xs pa pb pc pd = (xs', pa', pb', pc', pd') \<Longrightarrow>
     split_at compar xs' p pa' pb' pc' pd' \<and> mset xs' = mset xs \<and> 1 \<le> pa' \<and> pb' = pc' + 1"
proof (induction "nat (pc + 1 - pb)" arbitrary: xs pa pb pc pd rule: less_induct)
  case less
  obtain xs1 pa1 pb1 where up: "qsort_scan_up compar xs pa pb pc = (xs1, pa1, pb1)" by (metis prod_cases3)
  obtain xs2 pc1 pd1 where down: "qsort_scan_down compar xs1 pb1 pc pd = (xs2, pc1, pd1)" by (metis prod_cases3)
  note u = scan_up_split [OF less.prems(1,2) up]
  have u1: "split_at compar xs1 p pa1 pb1 pc pd" "1 \<le> pa1" using u by blast+
  note d = scan_down_split [OF u1 down]
  have d1: "split_at compar xs2 p pa1 pb1 pc1 pd1" using d by blast
  have m: "mset xs2 = mset xs" using u d by simp
  note step = less.prems(3) [unfolded qsort_partition.simps [of compar xs] up down prod.case]
  show ?case
  proof (cases "pb1 > pc1")
    case True
    then show ?thesis using step d1 u1(2) m by (auto simp: split_at_def)
  next
    case False
    have le: "pb \<le> pb1" "pc1 \<le> pc" "0 \<le> pb1" using scan_up_advances [OF up] scan_down_retreats [OF down] d1 by (auto simp: split_at_def)
    then have g: "0 < compar (xs2 ! nat pb1) p" "compar (xs2 ! nat pc1) p < 0" using u d False by auto
    let ?xs = "qsort_swap xs2 (nat pb1) (nat pc1) 1"
    have e: "split_at compar ?xs p pa1 (pb1 + 1) (pc1 - 1) pd1"
      using split_exchange [OF d1 u1(2)] False g by simp
    have "mset ?xs = mset xs" using d1 False le m by (subst mset_swap_1) (auto simp: split_at_def)
    moreover have "0 \<le> pc1 - 1" using e u1(2) by (auto simp: split_at_def)
    moreover have "qsort_partition compar ?xs pa1 (pb1 + 1) (pc1 - 1) pd1 = (xs', pa', pb', pc', pd')"
      using step False by simp
    ultimately show ?thesis using less.hyps [OF _ e] le False by auto
  qed
qed

end

section \<open>The pivot moves between the partitions\<close>

lemma pickpivot_less:
  assumes "8 \<le> length xs"
  shows "qsort_pickpivot cmp xs < length xs"
proof -
  have med: "qsort_med3 cmp xs a b c < n" if "a < n" "b < n" "c < n" for a b c n
    using that by (simp add: qsort_med3_def)
  have "length xs div 2 + length xs div 8 < length xs" using assms by linarith
  then show ?thesis using assms unfolding qsort_pickpivot_def Let_def by (auto intro!: med)
qed

lemma swap_sides:
  assumes "o1 + a + c \<le> length xs"
    and P: "\<And>i. o1 \<le> i \<Longrightarrow> i < o1 + a \<Longrightarrow> P (xs ! i)"
    and Q: "\<And>i. o1 + a \<le> i \<Longrightarrow> i < o1 + a + c \<Longrightarrow> Q (xs ! i)"
    and zs: "zs = qsort_swap xs o1 (o1 + a + c - min a c) (min a c)"
  shows "(\<forall>i. o1 \<le> i \<and> i < o1 + c \<longrightarrow> Q (zs ! i)) \<and> (\<forall>i. o1 + c \<le> i \<and> i < o1 + a + c \<longrightarrow> P (zs ! i))
    \<and> (\<forall>i. i < o1 \<or> o1 + a + c \<le> i \<longrightarrow> zs ! i = xs ! i)"
proof -
  let ?s = "min a c"
  let ?b = "o1 + a + c - ?s"
  have s: "o1 + ?s \<le> ?b" "?b + ?s \<le> length xs" using assms(1) by auto
  have first: "zs ! i = xs ! (?b + (i - o1))" if "o1 \<le> i" "i < o1 + ?s" for i
  proof -
    have "i - o1 < ?s" "o1 + (i - o1) = i" using that by linarith+
    then show ?thesis using swap_first [OF s, of "i - o1"] unfolding zs by (simp only:)
  qed
  have second: "zs ! i = xs ! (o1 + (i - ?b))" if "?b \<le> i" "i < ?b + ?s" for i
  proof -
    have "i - ?b < ?s" "?b + (i - ?b) = i" using that by linarith+
    then show ?thesis using swap_second [OF s, of "i - ?b"] unfolding zs by (simp only:)
  qed
  have out: "zs ! i = xs ! i" if "i < o1 \<or> o1 + ?s \<le> i" "i < ?b \<or> ?b + ?s \<le> i" for i
    using swap_outside [OF that, of xs] unfolding zs .
  have "Q (zs ! i)" if i: "o1 \<le> i" "i < o1 + c" for i
  proof (cases "i < o1 + ?s")
    case True
    then show ?thesis using first [OF i(1)] i by (auto intro!: Q)
  next
    case False
    then show ?thesis using out [of i] i by (auto intro!: Q)
  qed
  moreover have "P (zs ! i)" if i: "o1 + c \<le> i" "i < o1 + a + c" for i
  proof (cases "?b \<le> i")
    case True
    then show ?thesis using second [of i] i by (auto intro!: P)
  next
    case False
    then show ?thesis using out [of i] i by (auto intro!: P)
  qed
  moreover have "zs ! i = xs ! i" if "i < o1 \<or> o1 + a + c \<le> i" for i
    using out [of i] that by auto
  ultimately show ?thesis by blast
qed

context comparator
begin

lemma rearrange_correct:
  assumes n: "8 \<le> length xs" and r: "qsort_rearrange compar xs = (ys, s1, s2)"
  obtains p where "mset ys = mset xs" "s1 + s2 < length xs" "\<forall>i < s1. compar (ys ! i) p < 0"
    "\<forall>i. s1 \<le> i \<and> i < length xs - s2 \<longrightarrow> compar (ys ! i) p = 0"
    "\<forall>i. length xs - s2 \<le> i \<and> i < length xs \<longrightarrow> 0 < compar (ys ! i) p"
proof -
  let ?n = "length xs"
  define xs0 where "xs0 = qsort_swap xs 0 (qsort_pickpivot compar xs) 1"
  have x0: "mset xs0 = mset xs" "length xs0 = ?n"
    unfolding xs0_def using pickpivot_less [OF n, of compar] by (simp_all add: mset_swap_range del: qsort_swap.simps One_nat_def)
  obtain xs1 pa pb pc pd where part: "qsort_partition compar xs0 0 0 (int ?n - 1) (int ?n - 1) = (xs1, pa, pb, pc, pd)"
    by (metis prod_cases5)
  have "split_at compar xs0 (xs0 ! 0) 0 0 (int ?n - 1) (int ?n - 1)" using x0(2) n by (auto simp: split_at_def)
  moreover have "0 \<le> int ?n - 1" using n by linarith
  ultimately have p: "split_at compar xs1 (xs0 ! 0) pa pb pc pd \<and> mset xs1 = mset xs0 \<and> 1 \<le> pa \<and> pb = pc + 1"
    by (rule partition_split [OF _ _ part])
  define A B D where "A = nat pa" and "B = nat pb" and "D = nat (pd + 1)"
  let ?p = "xs0 ! 0"
  have sp: "split_at compar xs1 ?p pa pb pc pd" "mset xs1 = mset xs0" "1 \<le> pa" "pb = pc + 1" using p by blast+
  have len: "length xs1 = ?n" using sp(2) x0(2) by (metis size_mset)
  have i: "pa = int A" "pb = int B" "pc = int B - 1" "pd = int D - 1" "1 \<le> A" "A \<le> B" "B \<le> D" "D \<le> ?n"
    using sp len unfolding A_def B_def D_def by (auto simp: split_at_def)
  have q: "\<forall>i. 0 \<le> i \<and> i < pa \<longrightarrow> compar (xs1 ! nat i) ?p = 0" "\<forall>i. pa \<le> i \<and> i < pb \<longrightarrow> compar (xs1 ! nat i) ?p < 0"
    "\<forall>i. pc < i \<and> i \<le> pd \<longrightarrow> 0 < compar (xs1 ! nat i) ?p"
    "\<forall>i. pd < i \<and> i < int (length xs1) \<longrightarrow> compar (xs1 ! nat i) ?p = 0"
    using sp(1) unfolding split_at_def by blast+
  have part1: "compar (xs1 ! j) ?p = 0" if "j < A" for j using q(1) [rule_format, of "int j"] that i(1) by simp
  have part2: "compar (xs1 ! j) ?p < 0" if "A \<le> j" "j < B" for j using q(2) [rule_format, of "int j"] that i(1,2) by simp
  have part3: "0 < compar (xs1 ! j) ?p" if "B \<le> j" "j < D" for j using q(3) [rule_format, of "int j"] that i(3,4) by simp
  have part4: "compar (xs1 ! j) ?p = 0" if "D \<le> j" "j < ?n" for j
    using q(4) [rule_format, of "int j"] that i(4) len by simp
  note parts = part1 part2 part3 part4
  define xs2 where "xs2 = qsort_swap xs1 0 (B - min A (B - A)) (min A (B - A))"
  have s: "nat (min pa (pb - pa)) = min A (B - A)" "nat (min (pd - pc) (int ?n - pd - 1)) = min (D - B) (?n - D)"
    "nat (pb - pa) = B - A" "nat (pd - pc) = D - B" "nat pb = B"
    using i by (auto simp: min_def)
  have ys: "ys = qsort_swap xs2 B (?n - min (D - B) (?n - D)) (min (D - B) (?n - D))" "s1 = B - A" "s2 = D - B"
    using r unfolding qsort_rearrange_def Let_def xs0_def [symmetric] part prod.case s xs2_def prod.inject by blast+
  have left: "(\<forall>j. 0 \<le> j \<and> j < 0 + (B - A) \<longrightarrow> compar (xs2 ! j) ?p < 0)
      \<and> (\<forall>j. 0 + (B - A) \<le> j \<and> j < 0 + A + (B - A) \<longrightarrow> compar (xs2 ! j) ?p = 0)
      \<and> (\<forall>j. j < 0 \<or> 0 + A + (B - A) \<le> j \<longrightarrow> xs2 ! j = xs1 ! j)"
    by (rule swap_sides [of _ _ _ xs1]) (use i len parts in \<open>auto simp: xs2_def\<close>)
  have right: "(\<forall>j. B \<le> j \<and> j < B + (?n - D) \<longrightarrow> compar (ys ! j) ?p = 0)
      \<and> (\<forall>j. B + (?n - D) \<le> j \<and> j < B + (D - B) + (?n - D) \<longrightarrow> 0 < compar (ys ! j) ?p)
      \<and> (\<forall>j. j < B \<or> B + (D - B) + (?n - D) \<le> j \<longrightarrow> ys ! j = xs2 ! j)"
    by (rule swap_sides [of _ _ _ xs2]) (use i len parts left in \<open>auto simp: xs2_def ys(1)\<close>)
  have m: "mset ys = mset xs" unfolding ys(1) xs2_def using i(5-8) len sp(2) x0(1) by (subst mset_swap_range, simp, simp) simp
  have eq: "?n - s2 = B + (?n - D)" "B + (D - B) + (?n - D) = ?n" using i(5-8) ys(3) by simp_all
  have mid: "compar (ys ! j) ?p = 0" if "s1 \<le> j" "j < ?n - s2" for j
  proof (cases "j < B")
    case True
    then show ?thesis using left right that(1) i(5-8) ys(2) by simp
  next
    case False
    then show ?thesis using right that(2) eq(1) by simp
  qed
  have low: "compar (ys ! j) ?p < 0" if "j < s1" for j
    using left right that i(5-8) ys(2) by simp
  have high: "0 < compar (ys ! j) ?p" if "?n - s2 \<le> j" "j < ?n" for j
    using right that eq by simp
  have "s1 + s2 < ?n" using i(5-8) ys(2,3) by linarith
  then show thesis using m low mid high by (intro that [of ?p]) blast+
qed

lemma sorted_by_equal: "\<forall>x \<in> set xs. compar x p = 0 \<Longrightarrow> sorted_by xs"
proof (induction xs)
  case (Cons x xs)
  have "compar x y \<le> 0" if "y \<in> set xs" for y
    using Cons.prems that compar_zero_sym [of y p] compar_trans [of x p y] by simp
  then show ?case using Cons by simp
qed simp

lemma sorted_by_join:
  assumes "sorted_by us" "sorted_by vs" "\<forall>x \<in> set us. compar x p < 0" "\<forall>x \<in> set ms. compar x p = 0"
    "\<forall>x \<in> set vs. 0 < compar x p"
  shows "sorted_by (us @ ms @ vs)"
proof -
  have um: "compar x y \<le> 0" if "x \<in> set us" "y \<in> set ms" for x y
    using assms(3,4) that compar_zero_sym [of y p] compar_trans [of x p y] by fastforce
  have mv: "compar x y \<le> 0" if "x \<in> set ms" "y \<in> set vs" for x y
    using assms(4,5) that compar_pos_iff [of y p] compar_trans [of x p y] by fastforce
  have uv: "compar x y \<le> 0" if "x \<in> set us" "y \<in> set vs" for x y
    using assms(3,5) that compar_pos_iff [of y p] compar_trans [of x p y] by fastforce
  show ?thesis using assms(1,2) sorted_by_equal [OF assms(4)] um mv uv by (auto simp: sorted_wrt_append)
qed

lemma sort_correct: "\<exists>ys. qsort_sort compar xs = Some ys \<and> mset ys = mset xs \<and> sorted_by ys"
proof (induction "length xs" arbitrary: xs rule: less_induct)
  case less
  show ?case
  proof (cases "length xs < 8")
    case True
    then show ?thesis using insertionsort_correct [of xs] by (simp add: qsort_sort.simps [of compar xs])
  next
    case False
    obtain ys s1 s2 where r: "qsort_rearrange compar xs = (ys, s1, s2)" by (metis prod_cases3)
    obtain p where p: "mset ys = mset xs" "s1 + s2 < length xs" "\<forall>i < s1. compar (ys ! i) p < 0"
      "\<forall>i. s1 \<le> i \<and> i < length xs - s2 \<longrightarrow> compar (ys ! i) p = 0"
      "\<forall>i. length xs - s2 \<le> i \<and> i < length xs \<longrightarrow> 0 < compar (ys ! i) p"
      by (rule rearrange_correct [OF _ r]) (use False in simp_all)
    have len: "length ys = length xs" using p(1) by (metis size_mset)
    define k where "k = length xs - s2"
    obtain us where us: "qsort_sort compar (take s1 ys) = Some us" "mset us = mset (take s1 ys)" "sorted_by us"
      using less [of "take s1 ys"] p(2) len by auto
    obtain vs where vs: "qsort_sort compar (drop k ys) = Some vs" "mset vs = mset (drop k ys)" "sorted_by vs"
      using less [of "drop k ys"] p(2) len by (auto simp: k_def)
    have lu: "length us = s1" using us(2) p(2) len by (metis size_mset length_take min_absorb2 add_leD1 less_imp_le)
    have k: "s1 \<le> k" using p(2) by (simp add: k_def)
    define ms where "ms = take (k - s1) (drop s1 ys)"
    have e: "drop k (us @ drop s1 ys) = drop k ys" "take k (us @ drop s1 ys) = us @ ms"
      using lu k by (simp_all add: ms_def)
    have sort: "qsort_sort compar xs = Some (us @ ms @ vs)"
      by (simp only: qsort_sort.simps [of compar xs] r False if_False prod.case len k_def [symmetric] us(1) Option.bind.simps e vs(1) append_assoc)
    have split: "ys = take s1 ys @ ms @ drop k ys"
      using k by (simp add: ms_def) (metis append_take_drop_id drop_drop le_add_diff_inverse2)
    have "mset (us @ ms @ vs) = mset xs" using us(2) vs(2) split p(1) by (metis mset_append)
    moreover have "\<forall>x \<in> set us. compar x p < 0"
      using p(3) us(2) p(2) len by (metis in_set_takeD in_set_conv_nth length_take min_less_iff_conj nth_take set_mset_mset)
    moreover have "\<forall>x \<in> set ms. compar x p = 0" using p(4) k by (auto simp: ms_def in_set_conv_nth k_def)
    moreover have "\<forall>x \<in> set vs. 0 < compar x p"
    proof -
      have "set vs = set (drop k ys)" using vs(2) by (metis set_mset_mset)
      then show ?thesis using p(5) len by (auto simp: in_set_conv_nth k_def)
    qed
    ultimately show ?thesis using sort sorted_by_join [OF us(3) vs(3)] by blast
  qed
qed

lemma bsearch_loop_correct:
  "sorted_by xs \<Longrightarrow> basep + nel \<le> length xs \<Longrightarrow>
     case bsearch_loop compar key xs basep nel of
       None \<Rightarrow> \<forall>i. basep \<le> i \<and> i < basep + nel \<longrightarrow> compar key (xs ! i) \<noteq> 0
     | Some i \<Rightarrow> i < length xs \<and> compar key (xs ! i) = 0"
proof (induction nel arbitrary: basep rule: less_induct)
  case (less nel)
  let ?m = "basep + nel div 2"
  consider "nel = 0" | "nel > 0" "compar key (xs ! ?m) < 0" | "nel > 0" "compar key (xs ! ?m) > 0"
    | "nel > 0" "compar key (xs ! ?m) = 0" by linarith
  then show ?case
  proof cases
    case 1
    then show ?thesis by (simp add: bsearch_loop.simps)
  next
    case 2
    have "compar key (xs ! i) < 0" if "?m \<le> i" "i < basep + nel" for i
    proof (cases "i = ?m")
      case False
      then have "compar (xs ! ?m) (xs ! i) \<le> 0" using less.prems that by (auto simp: sorted_wrt_iff_nth_less)
      then show ?thesis using 2(2) compar_less_le by blast
    qed (use 2 in simp)
    note above = this
    have "bsearch_loop compar key xs basep nel = bsearch_loop compar key xs basep (nel div 2)"
      using 2 by (simp add: bsearch_loop.simps [of compar key xs basep nel] Let_def)
    moreover have "compar key (xs ! i) \<noteq> 0" if "\<forall>i. basep \<le> i \<and> i < ?m \<longrightarrow> compar key (xs ! i) \<noteq> 0"
        "basep \<le> i" "i < basep + nel" for i
      using that above [of i] by (cases "i < ?m") auto
    ultimately show ?thesis using less.IH [of "nel div 2" basep] less.prems 2(1) by (auto split: option.splits)
  next
    case 3
    have "0 < compar key (xs ! i)" if "i \<le> ?m" for i
    proof (cases "i = ?m")
      case False
      then have "compar (xs ! i) (xs ! ?m) \<le> 0" using less.prems that 3(1) by (auto simp: sorted_wrt_iff_nth_less)
      then show ?thesis using 3(2) compar_pos_iff compar_le_less by blast
    qed (use 3 in simp)
    note below = this
    have "bsearch_loop compar key xs basep nel = bsearch_loop compar key xs (basep + (nel div 2 + 1)) (nel - (nel div 2 + 1))"
      using 3 by (simp add: bsearch_loop.simps [of compar key xs basep nel] Let_def)
    moreover have "compar key (xs ! i) \<noteq> 0" if "\<forall>i. ?m + 1 \<le> i \<and> i < basep + nel \<longrightarrow> compar key (xs ! i) \<noteq> 0"
        "basep \<le> i" "i < basep + nel" for i
      using that below [of i] by (cases "i \<le> ?m") auto
    moreover have "basep + (nel div 2 + 1) = ?m + 1" "?m + 1 + (nel - (nel div 2 + 1)) = basep + nel" "nel - (nel div 2 + 1) < nel"
      using 3(1) by linarith+
    ultimately show ?thesis using less.IH [of "nel - (nel div 2 + 1)" "?m + 1"] less.prems
      by (simp split: option.splits)
  next
    case 4
    then show ?thesis using less.prems by (simp add: bsearch_loop.simps [of compar key xs basep nel] Let_def)
  qed
qed

end

section \<open>Properties\<close>

lemma minus_comparator: "comparator (\<lambda>a b. a - b :: int)"
  by unfold_locales (auto simp: sgn_if)

lemma qsort_sort_eq: "qsort xs cmp = qsort_sort cmp xs"
  by (simp add: qsort_def qsort_r_def qsort_cmp_def)

text \<open>
  C4: with a comparison callback that defines a total order, \<open>qsort()\<close> returns for every array, and
  the array then holds the same elements in order, equal ones included: the partitioning that
  collects the elements equal to the pivot at both ends, their exchange into the middle, and the
  insertion sort of short arrays are correct, and the recursion ends.
\<close>

theorem qsort_sorts:
  assumes "comparator cmp"
  shows "\<exists>ys. qsort xs cmp = Some ys \<and> mset ys = mset xs \<and> sorted_wrt (\<lambda>a b. cmp a b \<le> 0) ys"
  unfolding qsort_sort_eq by (rule comparator.sort_correct [OF assms])

theorem qsort_sorts_witness:
  "\<exists>ys. qsort [5, 3, 8, 1, 5, 9, 2, 7, 5, 4] (\<lambda>a b. a - b) = Some ys
     \<and> mset ys = mset [5, 3, 8, 1, 5, 9, 2, 7, 5, 4 :: int] \<and> sorted_wrt (\<lambda>a b. a - b \<le> 0) ys"
  by (rule qsort_sorts [OF minus_comparator])

text \<open>
  C27: sorting and binary search fit together: \<open>bsearch()\<close> on a sorted array returns an element that is
  equal to the key, and \<open>NULL\<close> only when the array that was sorted has none.
\<close>

theorem bsearch_after_qsort:
  assumes "comparator cmp" "qsort xs cmp = Some ys"
  shows "case bsearch key ys cmp of
      None \<Rightarrow> \<forall>x \<in> set xs. cmp key x \<noteq> 0
    | Some i \<Rightarrow> i < length ys \<and> cmp key (ys ! i) = 0"
proof -
  have ys: "mset ys = mset xs" "sorted_wrt (\<lambda>a b. cmp a b \<le> 0) ys"
    using comparator.sort_correct [OF assms(1), of xs] assms(2) by (auto simp: qsort_sort_eq)
  have "set xs = set ys" using ys(1) by (metis set_mset_mset)
  then show ?thesis
    using comparator.bsearch_loop_correct [OF assms(1) ys(2), of 0 "length ys" key]
    by (auto simp: bsearch_def in_set_conv_nth split: option.splits)
qed

theorem bsearch_after_qsort_witness:
  "case bsearch 2 [1, 2, 3 :: int] (\<lambda>a b. a - b) of
      None \<Rightarrow> \<forall>x \<in> set [3, 1, 2 :: int]. 2 - x \<noteq> 0
    | Some i \<Rightarrow> i < length [1, 2, 3 :: int] \<and> 2 - [1, 2, 3 :: int] ! i = 0"
proof (rule bsearch_after_qsort [OF minus_comparator])
  show "qsort [3, 1, 2 :: int] (\<lambda>a b. a - b) = Some [1, 2, 3]"
    by (simp add: qsort_sort_eq qsort_sort.simps qsort_insertionsort_def upt_rec)
qed

end
