(* ===== verification/Verscmp.thy ===== *)
theory Verscmp
  imports Qsort
begin

text \<open>
  The comparison of version strings of \<^verbatim>\<open>common/strverscmp.h\<close>, from which \<open>strverscmp()\<close> and
  \<open>wcsverscmp()\<close> are generated. A string is the list of the values of its characters, as integers, so
  that the order of characters is that of \<open>char_t\<close> whether it is signed or not; a null character or the end
  of the list ends the string. The tables of the code are functions.
\<close>

section \<open>Operations\<close>

datatype chartype = T_ZERO | T_DIGIT | T_OTHER

datatype verstate = S_TEXT | S_FRAC | S_FRAC0 | S_INT

datatype retmode = R_LT | R_GT | R_LENGTH

definition get_chartype :: "int \<Rightarrow> chartype" where
  "get_chartype c = (if c = 48 then T_ZERO else if 49 \<le> c \<and> c \<le> 57 then T_DIGIT else T_OTHER)"

fun next_state :: "verstate \<Rightarrow> chartype \<Rightarrow> verstate" where
  "next_state S_TEXT T_ZERO = S_FRAC0"
| "next_state S_TEXT T_DIGIT = S_INT"
| "next_state S_TEXT T_OTHER = S_TEXT"
| "next_state S_FRAC T_ZERO = S_FRAC"
| "next_state S_FRAC T_DIGIT = S_FRAC"
| "next_state S_FRAC T_OTHER = S_TEXT"
| "next_state S_FRAC0 T_ZERO = S_FRAC0"
| "next_state S_FRAC0 T_DIGIT = S_FRAC"
| "next_state S_FRAC0 T_OTHER = S_TEXT"
| "next_state S_INT T_ZERO = S_INT"
| "next_state S_INT T_DIGIT = S_INT"
| "next_state S_INT T_OTHER = S_TEXT"

fun ret_mode :: "verstate \<Rightarrow> chartype \<Rightarrow> chartype \<Rightarrow> retmode option" where
  "ret_mode S_TEXT T_DIGIT T_DIGIT = Some R_LENGTH"
| "ret_mode S_FRAC T_ZERO T_OTHER = Some R_GT"
| "ret_mode S_FRAC T_DIGIT T_OTHER = Some R_GT"
| "ret_mode S_FRAC T_OTHER T_ZERO = Some R_LT"
| "ret_mode S_FRAC T_OTHER T_DIGIT = Some R_LT"
| "ret_mode S_FRAC0 T_ZERO T_OTHER = Some R_LT"
| "ret_mode S_FRAC0 T_DIGIT T_OTHER = Some R_LT"
| "ret_mode S_FRAC0 T_OTHER T_ZERO = Some R_GT"
| "ret_mode S_FRAC0 T_OTHER T_DIGIT = Some R_GT"
| "ret_mode S_INT T_ZERO T_DIGIT = Some R_LENGTH"
| "ret_mode S_INT T_ZERO T_OTHER = Some R_GT"
| "ret_mode S_INT T_DIGIT T_ZERO = Some R_LENGTH"
| "ret_mode S_INT T_DIGIT T_DIGIT = Some R_LENGTH"
| "ret_mode S_INT T_DIGIT T_OTHER = Some R_GT"
| "ret_mode S_INT T_OTHER T_ZERO = Some R_LT"
| "ret_mode S_INT T_OTHER T_DIGIT = Some R_LT"
| "ret_mode _ _ _ = None"

text \<open>The first character of a string, and the loop for \<open>R_LENGTH\<close>.\<close>

definition deref :: "int list \<Rightarrow> int" where
  "deref s = (case s of [] \<Rightarrow> 0 | c # _ \<Rightarrow> c)"

fun strverscmp_length :: "int \<Rightarrow> int list \<Rightarrow> int list \<Rightarrow> int" where
  "strverscmp_length diff [] s2 = (if get_chartype (deref s2) = T_OTHER then diff else -1)"
| "strverscmp_length diff (c # s1) s2 =
     (let ct1 = get_chartype c; ct2 = get_chartype (deref s2)
      in if ct1 = T_OTHER then (if ct2 = T_OTHER then diff else -1)
         else if ct2 = T_OTHER then 1
         else strverscmp_length diff s1 (tl s2))"

definition strverscmp_mismatch :: "verstate \<Rightarrow> int list \<Rightarrow> int list \<Rightarrow> int" where
  "strverscmp_mismatch state s1 s2 =
     (let diff = (if deref s1 < deref s2 then -1 else 1)
      in case ret_mode state (get_chartype (deref s1)) (get_chartype (deref s2)) of
           Some R_LT \<Rightarrow> -1
         | Some R_GT \<Rightarrow> 1
         | Some R_LENGTH \<Rightarrow> strverscmp_length diff (tl s1) (tl s2)
         | None \<Rightarrow> diff)"

fun strverscmp_loop :: "verstate \<Rightarrow> int list \<Rightarrow> int list \<Rightarrow> int" where
  "strverscmp_loop state [] s2 = (if deref s2 = 0 then 0 else strverscmp_mismatch state [] s2)"
| "strverscmp_loop state (c # s1) s2 =
     (if c = deref s2 then
        if c = 0 then 0 else strverscmp_loop (next_state state (get_chartype c)) s1 (tl s2)
      else strverscmp_mismatch state (c # s1) s2)"

definition strverscmp :: "int list \<Rightarrow> int list \<Rightarrow> int" where
  "strverscmp s1 s2 = strverscmp_loop S_TEXT s1 s2"

section \<open>The order of mismatches\<close>

text \<open>The number of digits at the start of a string.\<close>

definition run :: "int list \<Rightarrow> nat" where
  "run s = length (takeWhile (\<lambda>c. get_chartype c \<noteq> T_OTHER) s)"

lemma run_simps: "run s = (if get_chartype (deref s) = T_OTHER then 0 else Suc (run (tl s)))"
  by (cases s) (simp_all add: run_def deref_def get_chartype_def)

lemma length_run:
  "strverscmp_length diff s1 s2 = (if run s1 < run s2 then -1 else if run s2 < run s1 then 1 else diff)"
proof (induction diff s1 s2 rule: strverscmp_length.induct)
  case (1 diff s2)
  then show ?case by (simp add: run_simps [of s2] run_def [of "[]"])
next
  case (2 diff c s1 s2)
  have "run (c # s1) = (if get_chartype c = T_OTHER then 0 else Suc (run s1))" using run_simps [of "c # s1"] by (simp add: deref_def)
  then show ?case using 2 by (auto simp: run_simps [of s2] Let_def)
qed

text \<open>
  In each state, strings that differ at once are ordered by their first character, where digits form a
  block whose place depends on the state, and where numbers are ordered by their length first.
\<close>

definition block :: "verstate \<Rightarrow> int \<Rightarrow> int" where
  "block state c =
     (if get_chartype c = T_OTHER
      then case state of S_TEXT \<Rightarrow> (if c < 48 then 0 else 3) | S_FRAC0 \<Rightarrow> 3 | _ \<Rightarrow> 0
      else if state = S_TEXT \<and> get_chartype c = T_DIGIT then 2 else 1)"

definition counted :: "verstate \<Rightarrow> int \<Rightarrow> bool" where
  "counted state c \<longleftrightarrow> (state = S_TEXT \<and> get_chartype c = T_DIGIT) \<or> (state = S_INT \<and> get_chartype c \<noteq> T_OTHER)"

definition weight :: "verstate \<Rightarrow> int list \<Rightarrow> nat" where
  "weight state s = (if counted state (deref s) then run s else 0)"

definition before :: "verstate \<Rightarrow> int list \<Rightarrow> int list \<Rightarrow> bool" where
  "before state s1 s2 \<longleftrightarrow>
     block state (deref s1) < block state (deref s2)
     \<or> block state (deref s1) = block state (deref s2)
       \<and> (weight state s1 < weight state s2 \<or> weight state s1 = weight state s2 \<and> deref s1 < deref s2)"

lemma mismatch_before:
  assumes "deref s1 \<noteq> deref s2"
  shows "strverscmp_mismatch state s1 s2 = (if before state s1 s2 then -1 else 1)"
  using assms run_simps [of s1] run_simps [of s2]
  by (cases state; cases "get_chartype (deref s1)"; cases "get_chartype (deref s2)")
    (auto simp: strverscmp_mismatch_def before_def block_def weight_def counted_def length_run Let_def get_chartype_def
      split: if_splits)

lemma before_trans: "before state s1 s2 \<Longrightarrow> before state s2 s3 \<Longrightarrow> before state s1 s3"
  unfolding before_def by auto

lemma before_total: "deref s1 \<noteq> deref s2 \<Longrightarrow> before state s1 s2 \<longleftrightarrow> \<not> before state s2 s1"
  unfolding before_def by auto

section \<open>The order of strings\<close>

lemma loop_unfold:
  "strverscmp_loop state s1 s2 =
     (if deref s1 = deref s2 then
        if deref s1 = 0 then 0 else strverscmp_loop (next_state state (get_chartype (deref s1))) (tl s1) (tl s2)
      else if before state s1 s2 then -1 else 1)"
proof -
  have "strverscmp_loop state s1 s2 =
     (if deref s1 = deref s2 then
        if deref s1 = 0 then 0 else strverscmp_loop (next_state state (get_chartype (deref s1))) (tl s1) (tl s2)
      else strverscmp_mismatch state s1 s2)"
    by (cases s1) (auto simp: deref_def)
  then show ?thesis using mismatch_before by simp
qed

lemma loop_antisym: "strverscmp_loop state s1 s2 = - strverscmp_loop state s2 s1"
proof (induction "length s1" arbitrary: state s1 s2 rule: less_induct)
  case less
  show ?case
  proof (cases "deref s1 = deref s2 \<and> deref s1 \<noteq> 0")
    case True
    then have "length (tl s1) < length s1" by (cases s1) (simp_all add: deref_def)
    then show ?thesis using less [of "tl s1"] True
      by (subst (1 2) loop_unfold) simp
  next
    case False
    then show ?thesis using before_total [of s1 s2 state] by (subst (1 2) loop_unfold) auto
  qed
qed

text \<open>Within a number, the smaller string does not have more digits.\<close>

lemma loop_run: "strverscmp_loop S_INT s1 s2 \<le> 0 \<Longrightarrow> run s1 \<le> run s2"
proof (induction "length s1" arbitrary: s1 s2 rule: less_induct)
  case less
  show ?case
  proof (cases "deref s1 = deref s2")
    case False
    then have "before S_INT s1 s2" using less.prems loop_unfold [of S_INT s1 s2] by (simp split: if_splits)
    then show ?thesis using run_simps [of s1] run_simps [of s2]
      by (auto simp: before_def block_def weight_def counted_def split: if_splits)
  next
    case same: True
    show ?thesis
    proof (cases "get_chartype (deref s1) = T_OTHER")
      case True
      then show ?thesis by (simp add: run_simps [of s1])
    next
      case False
      then have d: "deref s1 \<noteq> 0" "next_state S_INT (get_chartype (deref s1)) = S_INT"
        by (auto simp: get_chartype_def split: if_splits)
      then have "length (tl s1) < length s1" by (cases s1) (simp_all add: deref_def)
      moreover have "strverscmp_loop S_INT (tl s1) (tl s2) \<le> 0"
        using less.prems same d by (subst (asm) loop_unfold) simp
      ultimately have "run (tl s1) \<le> run (tl s2)" by (rule less.hyps)
      then show ?thesis using False same by (simp add: run_simps [of s1] run_simps [of s2])
    qed
  qed
qed

lemma loop_weight:
  assumes "deref s1 = deref s2" "strverscmp_loop state s1 s2 \<le> 0"
  shows "weight state s1 \<le> weight state s2"
proof (cases "counted state (deref s1)")
  case True
  then have d: "deref s1 \<noteq> 0" "next_state state (get_chartype (deref s1)) = S_INT" "get_chartype (deref s1) \<noteq> T_OTHER"
    by (auto simp: counted_def get_chartype_def split: if_splits)
  have "strverscmp_loop S_INT (tl s1) (tl s2) \<le> 0" using assms d by (subst (asm) loop_unfold) simp
  then have "run (tl s1) \<le> run (tl s2)" by (rule loop_run)
  then show ?thesis using assms(1) d(3) True by (simp add: weight_def run_simps [of s1] run_simps [of s2])
qed (simp add: weight_def)

lemma before_weight:
  assumes "deref s1 = deref s2" "weight state s1 \<le> weight state s2"
  shows "before state s2 s3 \<Longrightarrow> deref s2 \<noteq> deref s3 \<Longrightarrow> before state s1 s3"
    "before state s3 s1 \<Longrightarrow> deref s3 \<noteq> deref s1 \<Longrightarrow> before state s3 s2"
  using assms unfolding before_def by auto

lemma loop_trans:
  "strverscmp_loop state s1 s2 \<le> 0 \<Longrightarrow> strverscmp_loop state s2 s3 \<le> 0 \<Longrightarrow> strverscmp_loop state s1 s3 \<le> 0"
proof (induction "length s1" arbitrary: state s1 s2 s3 rule: less_induct)
  case less
  note u = loop_unfold [of state s1 s2] loop_unfold [of state s2 s3] loop_unfold [of state s1 s3]
  consider (same) "deref s1 = deref s2" "deref s2 = deref s3" | (first) "deref s1 = deref s2" "deref s2 \<noteq> deref s3"
    | (second) "deref s1 \<noteq> deref s2" "deref s2 = deref s3" | (differ) "deref s1 \<noteq> deref s2" "deref s2 \<noteq> deref s3" by blast
  then show ?case
  proof cases
    case same
    have "length (tl s1) < length s1" if "deref s1 \<noteq> 0" using that by (cases s1) (simp_all add: deref_def)
    then show ?thesis using less.hyps [of "tl s1"] less.prems same u by (cases "deref s1 = 0") simp_all
  next
    case first
    then have "before state s1 s3"
      using before_weight(1) [OF first(1) loop_weight [OF first(1) less.prems(1)]] less.prems(2) u(2) by (simp split: if_splits)
    then show ?thesis using first u(3) by simp
  next
    case second
    then have "before state s1 s3"
      using before_weight(2) [OF second(2) loop_weight [OF second(2) less.prems(2)], of s1] less.prems(1) u(1) by (simp split: if_splits)
    then show ?thesis using second u(3) by simp
  next
    case differ
    then have b: "before state s1 s2" "before state s2 s3" using less.prems u(1,2) by (simp_all split: if_splits)
    then have b: "before state s1 s3" by (rule before_trans)
    show ?thesis
    proof (cases "deref s1 = deref s3")
      case True
      then have "weight state s1 < weight state s3" using b by (simp add: before_def)
      then show ?thesis using loop_weight [of s3 s1 state] loop_antisym [of state s3 s1] True by fastforce
    qed (use b u(3) in simp)
  qed
qed

lemma loop_zero: "strverscmp_loop state s1 s2 = 0 \<longleftrightarrow> takeWhile (\<lambda>c. c \<noteq> 0) s1 = takeWhile (\<lambda>c. c \<noteq> 0) s2"
proof (induction "length s1" arbitrary: state s1 s2 rule: less_induct)
  case less
  have tw: "takeWhile (\<lambda>c. c \<noteq> 0) s = (if deref s = 0 then [] else deref s # takeWhile (\<lambda>c. c \<noteq> 0) (tl s))" for s
    by (cases s) (simp_all add: deref_def)
  have "length (tl s1) < length s1" if "deref s1 \<noteq> 0" using that by (cases s1) (simp_all add: deref_def)
  then show ?case using less [of "tl s1"] by (subst loop_unfold, subst (1 2) tw) auto
qed

interpretation versions: comparator strverscmp
proof
  show "sgn (strverscmp a b) = - sgn (strverscmp b a)" for a b
    unfolding strverscmp_def using loop_antisym [of S_TEXT a b] by (simp add: sgn_minus)
  show "strverscmp a c \<le> 0" if "strverscmp a b \<le> 0" "strverscmp b c \<le> 0" for a b c
    using that unfolding strverscmp_def by (rule loop_trans)
qed

text \<open>The list of \<^verbatim>\<open>strverscmp_test.c\<close> is in order (without its last entries).\<close>

lemma strverscmp_tests:
  "sorted_wrt (\<lambda>a b. strverscmp a b < 0)
     [[], [48, 48, 48], [48, 48], [48, 49], [48, 49, 48], [48, 57], [48], [49], [50, 46, 54, 46, 50, 48],
      [50, 46, 54, 46, 50, 49], [57], [49, 48]]"
  by code_simp

section \<open>Properties\<close>

text \<open>
  C10: \<open>strverscmp()\<close> is a total order of strings: it is antisymmetric and transitive, over text, numbers
  with and without leading zeroes and their mixtures, and zero exactly for equal strings. So it meets the
  contract of a comparison callback, and \<open>qsort()\<close> with it returns with the strings in the order of
  their versions.
\<close>
theorem strverscmp_order:
  "comparator strverscmp
   \<and> (strverscmp s1 s2 = 0 \<longleftrightarrow> takeWhile (\<lambda>c. c \<noteq> 0) s1 = takeWhile (\<lambda>c. c \<noteq> 0) s2)
   \<and> (\<exists>ys. qsort xs strverscmp = Some ys \<and> mset ys = mset xs \<and> sorted_wrt (\<lambda>a b. strverscmp a b \<le> 0) ys)"
  using versions.comparator_axioms loop_zero [of S_TEXT s1 s2] versions.sort_correct [of xs]
  unfolding qsort_sort_eq by (simp add: strverscmp_def)

end
