(* ===== verification/Rwlock.thy ===== *)
theory Rwlock
  imports Prelude
begin

unbundle bit_operations_syntax

text \<open>
  The read-write locks of \<^verbatim>\<open>libc/pthread\<close>, which are also its mutexes and spinlocks, as threads that
  interleave at their atomic operations. \<open>thread_step\<close> is one atomic operation of a thread with the
  local work up to the next one; the position in the code is the field \<open>pc\<close>. A failed assertion
  is \<open>None\<close>. The threads share one lock, so the per-thread count \<open>__pthread_rdlocks\<close> and list
  \<open>__pthread_wrlocks\<close> speak of that lock. The recursion counter is an unbounded integer. The values of \<open>CLOUDABI_LOCK_WRLOCKED\<close> and \<open>CLOUDABI_LOCK_KERNEL_MANAGED\<close> and the
  system calls belong to the kernel: they are parameters, and \<open>kernel_contract\<close> states what the
  code relies on.
\<close>

section \<open>Operations\<close>

record rwlock =
  lock_state :: u32
  write_recursion :: int

datatype pc =
    Idle
  | Tryrd u32 bool
  | Rd_poll
  | Trywr bool
  | Wr_poll
  | Unlock
  | Wunlock_cas u32
  | Wunlock_kernel
  | Runlock_cas u32
  | Runlock_kernel
  | Return "errno option"

text \<open>\<open>wrlocks\<close> says whether the lock is in the list \<open>__pthread_wrlocks\<close> of the thread.\<close>

record thread =
  pc :: pc
  rdlocks :: nat
  wrlocks :: bool

definition pthread_rwlock_init :: "bool \<Rightarrow> rwlock" where
  "pthread_rwlock_init recursive = \<lparr>lock_state = 0, write_recursion = (if recursive then 0 else -1)\<rparr>"

definition pthread_rwlock_tryrdlock ::
    "u32 \<Rightarrow> u32 \<Rightarrow> u32 \<Rightarrow> bool \<Rightarrow> u32 \<Rightarrow> bool \<Rightarrow> rwlock \<Rightarrow> thread \<Rightarrow> (rwlock \<times> thread) option" where
  "pthread_rwlock_tryrdlock wr km tid spurious old blk l th =
     (if lock_state l = old \<and> \<not> spurious then
        Some (l\<lparr>lock_state := old + 1\<rparr>, th\<lparr>rdlocks := rdlocks th + 1, pc := Return None\<rparr>)
      else
        (let old = lock_state l; busy = (if blk then Rd_poll else Return (Some EBUSY))
         in if old AND wr \<noteq> 0 then
              if old AND NOT km = tid OR wr then None else Some (l, th\<lparr>pc := busy\<rparr>)
            else if old AND km \<noteq> 0 \<and> rdlocks th = 0 then Some (l, th\<lparr>pc := busy\<rparr>)
            else Some (l, th\<lparr>pc := Tryrd old blk\<rparr>)))"

definition pthread_rwlock_trywrlock ::
    "u32 \<Rightarrow> u32 \<Rightarrow> u32 \<Rightarrow> bool \<Rightarrow> rwlock \<Rightarrow> thread \<Rightarrow> (rwlock \<times> thread) option" where
  "pthread_rwlock_trywrlock wr km tid blk l th =
     (if lock_state l = 0 then
        Some (l\<lparr>lock_state := tid OR wr\<rparr>, th\<lparr>wrlocks := True, pc := Return None\<rparr>)
      else if lock_state l AND NOT km = tid OR wr then
        if write_recursion l \<ge> 0 \<and> wrlocks th
        then Some (l\<lparr>write_recursion := write_recursion l + 1\<rparr>, th\<lparr>pc := Return None\<rparr>)
        else None
      else Some (l, th\<lparr>pc := (if blk then Wr_poll else Return (Some EBUSY))\<rparr>))"

definition rwlock_unlock_load :: "u32 \<Rightarrow> u32 \<Rightarrow> u32 \<Rightarrow> rwlock \<Rightarrow> thread \<Rightarrow> (rwlock \<times> thread) option" where
  "rwlock_unlock_load wr km tid l th =
     (let old = lock_state l
      in if old AND wr \<noteq> 0 then
           if \<not> wrlocks th \<or> old AND NOT km \<noteq> tid OR wr then None
           else if write_recursion l > 0
           then Some (l\<lparr>write_recursion := write_recursion l - 1\<rparr>, th\<lparr>pc := Return None\<rparr>)
           else Some (l, th\<lparr>wrlocks := False, pc := (if old AND km \<noteq> 0 then Wunlock_kernel else Wunlock_cas old)\<rparr>)
         else
           if rdlocks th = 0 \<or> write_recursion l > 0 then None
           else Some (l, th\<lparr>pc := Runlock_cas old\<rparr>))"

definition rwlock_write_unlock :: "u32 \<Rightarrow> rwlock \<Rightarrow> thread \<Rightarrow> (rwlock \<times> thread) option" where
  "rwlock_write_unlock old l th =
     (if lock_state l = old then Some (l\<lparr>lock_state := 0\<rparr>, th\<lparr>pc := Return None\<rparr>)
      else Some (l, th\<lparr>pc := Wunlock_kernel\<rparr>))"

definition rwlock_read_unlock ::
    "u32 \<Rightarrow> u32 \<Rightarrow> u32 \<Rightarrow> bool \<Rightarrow> u32 \<Rightarrow> rwlock \<Rightarrow> thread \<Rightarrow> (rwlock \<times> thread) option" where
  "rwlock_read_unlock wr km tid spurious old l th =
     (if old = 1 OR km then
        if lock_state l = old \<and> \<not> spurious
        then Some (l\<lparr>lock_state := tid OR wr OR km\<rparr>, th\<lparr>pc := Runlock_kernel\<rparr>)
        else Some (l, th\<lparr>pc := Runlock_cas (lock_state l)\<rparr>)
      else if old AND NOT km = 0 then None
      else if lock_state l = old \<and> \<not> spurious
      then Some (l\<lparr>lock_state := old - 1\<rparr>, th\<lparr>rdlocks := rdlocks th - 1, pc := Return None\<rparr>)
      else Some (l, th\<lparr>pc := Runlock_cas (lock_state l)\<rparr>))"

text \<open>One atomic operation; weak compare-and-exchange operations may fail spuriously.\<close>

fun thread_step :: "u32 \<Rightarrow> u32 \<Rightarrow> u32 \<Rightarrow> bool \<Rightarrow> pc \<Rightarrow> rwlock \<Rightarrow> thread \<Rightarrow> (rwlock \<times> thread) option" where
  "thread_step wr km tid spurious (Tryrd old blk) l th = pthread_rwlock_tryrdlock wr km tid spurious old blk l th"
| "thread_step wr km tid spurious (Trywr blk) l th = pthread_rwlock_trywrlock wr km tid blk l th"
| "thread_step wr km tid spurious Unlock l th = rwlock_unlock_load wr km tid l th"
| "thread_step wr km tid spurious (Wunlock_cas old) l th = rwlock_write_unlock old l th"
| "thread_step wr km tid spurious (Runlock_cas old) l th = rwlock_read_unlock wr km tid spurious old l th"
| "thread_step wr km tid spurious _ l th = None"

text \<open>
  The entry points: \<open>pthread_rwlock_rdlock()\<close> and \<open>pthread_rwlock_wrlock()\<close> try once in userspace
  (\<open>LOCK_RETRY_COUNT\<close>) and then call into the kernel. What they do after a poll that succeeds follows;
  a system call that fails ends the process in \<open>__pthread_terminate()\<close>.
\<close>

datatype call = Rdlock | Tryrdlock | Wrlock | Trywrlock | Unlock_call

fun call_entry :: "call \<Rightarrow> pc" where
  "call_entry Rdlock = Tryrd 0 True"
| "call_entry Tryrdlock = Tryrd 0 False"
| "call_entry Wrlock = Trywr True"
| "call_entry Trywrlock = Trywr False"
| "call_entry Unlock_call = Unlock"

definition rdlock_polled :: "thread \<Rightarrow> thread" where
  "rdlock_polled th = th\<lparr>rdlocks := rdlocks th + 1, pc := Return None\<rparr>"

definition wrlock_polled :: "rwlock \<Rightarrow> thread \<Rightarrow> thread option" where
  "wrlock_polled l th = (if write_recursion l \<le> 0 then Some (th\<lparr>wrlocks := True, pc := Return None\<rparr>) else None)"

section \<open>The system\<close>

record kernel =
  acquire :: "bool \<Rightarrow> u32 \<Rightarrow> u32 \<Rightarrow> u32 \<Rightarrow> bool"
  unlock :: "u32 \<Rightarrow> u32 \<Rightarrow> u32 \<Rightarrow> bool"
  manage :: "u32 \<Rightarrow> u32 \<Rightarrow> bool"

text \<open>
  What the code relies on: a poll for a write lock completes when the lock is free and makes the
  calling thread its owner, a poll for a read lock completes while the lock is not write-locked and
  counts one more reader, \<open>cloudabi_sys_lock_unlock()\<close> frees a lock that the caller has write-locked,
  and otherwise the kernel only changes the flag that says that it has waiting threads. A kernel that
  hands a lock over to threads that wait for it does an unlock and then their polls.
\<close>

definition kernel_contract :: "u32 \<Rightarrow> u32 \<Rightarrow> kernel \<Rightarrow> bool" where
  "kernel_contract wr km k \<longleftrightarrow>
     wr = 0x40000000 \<and> km = 0x80000000
     \<and> (\<forall>t x y. acquire k True t x y \<longrightarrow> x AND NOT km = 0 \<and> y AND NOT km = t OR wr)
     \<and> (\<forall>t x y. acquire k False t x y \<longrightarrow> x AND wr = 0 \<and> y AND NOT km = (x AND NOT km) + 1)
     \<and> (\<forall>t x y. unlock k t x y \<longrightarrow> x AND NOT km = t OR wr \<longrightarrow> y AND NOT km = 0)
     \<and> (\<forall>x y. manage k x y \<longrightarrow> y AND NOT km = x AND NOT km)"

record system =
  rwl :: rwlock
  threads :: "u32 \<Rightarrow> thread"

definition readers :: "u32 set \<Rightarrow> system \<Rightarrow> nat" where
  "readers T s = (\<Sum>t \<in> T. rdlocks (threads s t))"

definition set_thread :: "system \<Rightarrow> u32 \<Rightarrow> rwlock \<Rightarrow> thread \<Rightarrow> system" where
  "set_thread s t l th = s\<lparr>rwl := l, threads := (threads s)(t := th)\<rparr>"

text \<open>
  A step of one of the threads \<open>T\<close>, or of the kernel. The threads take fewer than \<open>2 ^ 30\<close> read locks,
  so that the count stays below the bit of the write lock.
\<close>

inductive lock_step :: "u32 \<Rightarrow> u32 \<Rightarrow> kernel \<Rightarrow> u32 set \<Rightarrow> system \<Rightarrow> system \<Rightarrow> bool"
  for wr :: u32 and km :: u32 and k :: kernel and T :: "u32 set" where
  call: "t \<in> T \<Longrightarrow> pc (threads s t) = Idle \<or> pc (threads s t) = Return r \<Longrightarrow>
     lock_step wr km k T s (set_thread s t (rwl s) ((threads s t)\<lparr>pc := call_entry c\<rparr>))"
| run: "t \<in> T \<Longrightarrow>
     thread_step wr km t spurious (pc (threads s t)) (rwl s) (threads s t) = Some (l, th) \<Longrightarrow>
     readers T (set_thread s t l th) < 2 ^ 30 \<Longrightarrow>
     lock_step wr km k T s (set_thread s t l th)"
| poll_read: "t \<in> T \<Longrightarrow> readers T s + 1 < 2 ^ 30 \<Longrightarrow> pc (threads s t) = Rd_poll \<Longrightarrow>
     acquire k False t (lock_state (rwl s)) x \<Longrightarrow>
     lock_step wr km k T s (set_thread s t ((rwl s)\<lparr>lock_state := x\<rparr>) (rdlock_polled (threads s t)))"
| poll_write: "t \<in> T \<Longrightarrow> pc (threads s t) = Wr_poll \<Longrightarrow> acquire k True t (lock_state (rwl s)) x \<Longrightarrow>
     wrlock_polled (rwl s) (threads s t) = Some th \<Longrightarrow>
     lock_step wr km k T s (set_thread s t ((rwl s)\<lparr>lock_state := x\<rparr>) th)"
| write_unlock: "t \<in> T \<Longrightarrow> pc (threads s t) = Wunlock_kernel \<Longrightarrow> unlock k t (lock_state (rwl s)) x \<Longrightarrow>
     lock_step wr km k T s (set_thread s t ((rwl s)\<lparr>lock_state := x\<rparr>) ((threads s t)\<lparr>pc := Return None\<rparr>))"
| read_unlock: "t \<in> T \<Longrightarrow> pc (threads s t) = Runlock_kernel \<Longrightarrow> unlock k t (lock_state (rwl s)) x \<Longrightarrow>
     lock_step wr km k T s (set_thread s t ((rwl s)\<lparr>lock_state := x\<rparr>)
       ((threads s t)\<lparr>rdlocks := rdlocks (threads s t) - 1, pc := Return None\<rparr>))"
| manage: "manage k (lock_state (rwl s)) x \<Longrightarrow>
     lock_step wr km k T s (s\<lparr>rwl := (rwl s)\<lparr>lock_state := x\<rparr>\<rparr>)"

definition lock_init :: "bool \<Rightarrow> system" where
  "lock_init recursive =
     \<lparr>rwl = pthread_rwlock_init recursive, threads = (\<lambda>t. \<lparr>pc = Idle, rdlocks = 0, wrlocks = False\<rparr>)\<rparr>"

section \<open>The lock word\<close>

text \<open>The owner or the number of readers, without the flag of the kernel.\<close>

definition view :: "u32 \<Rightarrow> nat" where
  "view x = unat x mod 2 ^ 31"

lemma view_and_not: "unat (x AND NOT 0x80000000 :: u32) = view x"
proof -
  have "(NOT 0x80000000 :: u32) = mask 31" by (simp add: mask_eq_exp_minus_1)
  then have "unat (x AND NOT 0x80000000) = unat (take_bit 31 x)" by (simp only: take_bit_eq_mask)
  also have "\<dots> = take_bit 31 (unat x)" by (rule unsigned_take_bit_eq)
  also have "\<dots> = view x" by (simp only: view_def take_bit_eq_mod)
  finally show ?thesis .
qed

lemma view_write_bit: "x AND 0x40000000 \<noteq> 0 \<longleftrightarrow> 2 ^ 30 \<le> view x"
proof -
  have "x AND 0x40000000 \<noteq> 0 \<longleftrightarrow> bit x 30" using and_exp_eq_0_iff_not_bit [of x 30] by simp
  also have "\<dots> \<longleftrightarrow> bit (unat x) 30" by (simp add: bit_unsigned_iff)
  also have "\<dots> \<longleftrightarrow> unat x div 2 ^ 30 mod 2 = 1" by (simp only: bit_iff_odd odd_iff_mod_2_eq_one)
  also have "\<dots> \<longleftrightarrow> 2 ^ 30 \<le> view x"
  proof -
    have "view x = 2 ^ 30 * (unat x div 2 ^ 30 mod 2) + unat x mod 2 ^ 30"
      using mod_mult2_eq [of "unat x" "2 ^ 30" 2] by (simp add: view_def)
    moreover have "unat x mod 2 ^ 30 < 2 ^ 30" by simp
    moreover have "unat x div 2 ^ 30 mod 2 = 0 \<or> unat x div 2 ^ 30 mod 2 = 1" by auto
    ultimately show ?thesis by fastforce
  qed
  finally show ?thesis .
qed

lemma view_owner: "unat t < 2 ^ 30 \<Longrightarrow> unat (t OR 0x40000000 :: u32) = unat t + 2 ^ 30"
proof -
  assume t: "unat t < 2 ^ 30"
  have "t AND 0x40000000 = 0"
    using view_write_bit [of t] t by (simp add: view_def)
  then have "t OR 0x40000000 = t + 0x40000000" by (simp add: disjunctive_add_eq_or)
  then show ?thesis using t by (simp add: unat_word_ariths)
qed

lemma view_succ: "view x < 2 ^ 31 - 1 \<Longrightarrow> view (x + 1) = view x + 1"
proof -
  assume v: "view x < 2 ^ 31 - 1"
  have "unat x < 2 ^ 32" using unsigned_less [of x] by simp
  moreover have "unat x \<noteq> 2 ^ 32 - 1" using v by (auto simp: view_def)
  ultimately have u: "unat (x + 1) = Suc (unat x)" by (simp add: unat_word_ariths)
  show ?thesis using v unfolding view_def u by (simp add: mod_Suc)
qed

lemma view_pred: "0 < view x \<Longrightarrow> view (x - 1) = view x - 1"
proof -
  assume v: "0 < view x"
  then have "x \<noteq> 0" by (auto simp: view_def)
  then have u: "unat x = Suc (unat (x - 1))" using unat_minus_one [of x] unat_eq_zero [of x] by (simp add: unat_gt_0)
  show ?thesis using v unfolding view_def u by (simp add: mod_Suc split: if_splits)
qed

lemma view_0 [simp]: "view 0 = 0"
  by (simp add: view_def)

lemma view_less: "view x < 2 ^ 31"
  by (simp add: view_def)

lemma owner_iff: "unat t < 2 ^ 30 \<Longrightarrow> x AND NOT 0x80000000 = t OR 0x40000000 \<longleftrightarrow> view x = unat t + 2 ^ 30"
  using view_and_not [of x] view_owner [of t] by (metis word_unat_eq_iff)

lemma free_iff: "x AND NOT 0x80000000 = 0 \<longleftrightarrow> view x = 0"
  using view_and_not [of x] by (metis unat_eq_zero)

lemma view_owner_word: "unat t < 2 ^ 30 \<Longrightarrow> view (t OR 0x40000000) = unat t + 2 ^ 30"
  using view_owner [of t] by (simp add: view_def)

lemma view_upgrade: "unat t < 2 ^ 30 \<Longrightarrow> view (t OR 0x40000000 OR 0x80000000) = unat t + 2 ^ 30"
proof -
  assume t: "unat t < 2 ^ 30"
  have "(t OR 0x40000000 OR 0x80000000) AND NOT 0x80000000 = (t OR 0x40000000) AND NOT 0x80000000"
    by (rule bit_eqI) (auto simp only: bit_or_iff bit_and_iff bit_not_iff)
  then show ?thesis using view_and_not view_owner_word [OF t] by metis
qed

lemma view_one_managed: "view (1 OR 0x80000000) = 1"
  by (simp add: view_def)

section \<open>The invariant\<close>

text \<open>The threads that have the write lock, on their way out of it included.\<close>

definition owning :: "thread \<Rightarrow> bool" where
  "owning th \<longleftrightarrow> wrlocks th \<or> (\<exists>x. pc th = Wunlock_cas x) \<or> pc th = Wunlock_kernel \<or> pc th = Runlock_kernel"

definition thread_ok :: "u32 \<Rightarrow> thread \<Rightarrow> bool" where
  "thread_ok t th \<longleftrightarrow>
     (case pc th of
        Tryrd old b \<Rightarrow> view old < 2 ^ 30
      | Wunlock_cas old \<Rightarrow> view old = unat t + 2 ^ 30 \<and> \<not> wrlocks th
      | Wunlock_kernel \<Rightarrow> \<not> wrlocks th
      | Runlock_cas old \<Rightarrow> 0 < rdlocks th \<and> \<not> wrlocks th \<and> 0 < view old
      | Runlock_kernel \<Rightarrow> \<not> wrlocks th
      | _ \<Rightarrow> True)"

definition write_locked :: "u32 set \<Rightarrow> system \<Rightarrow> u32 \<Rightarrow> bool" where
  "write_locked T s w \<longleftrightarrow> w \<in> T \<and> view (lock_state (rwl s)) = unat w + 2 ^ 30 \<and> owning (threads s w)
     \<and> rdlocks (threads s w) = (if pc (threads s w) = Runlock_kernel then 1 else 0)
     \<and> (\<forall>t \<in> T. t \<noteq> w \<longrightarrow> \<not> owning (threads s t) \<and> rdlocks (threads s t) = 0)"

definition read_locked :: "u32 set \<Rightarrow> system \<Rightarrow> bool" where
  "read_locked T s \<longleftrightarrow> view (lock_state (rwl s)) = readers T s \<and> readers T s < 2 ^ 30
     \<and> (\<forall>t \<in> T. \<not> owning (threads s t))"

definition lock_inv :: "u32 set \<Rightarrow> system \<Rightarrow> bool" where
  "lock_inv T s \<longleftrightarrow> (\<forall>t \<in> T. thread_ok t (threads s t)) \<and> ((\<exists>w. write_locked T s w) \<or> read_locked T s)"

lemma set_thread_sel [simp]:
  "rwl (set_thread s t l th) = l" "threads (set_thread s t l th) = (threads s)(t := th)"
  by (simp_all add: set_thread_def)

lemma readers_update:
  "finite T \<Longrightarrow> t \<in> T \<Longrightarrow> readers T (set_thread s t l th) = readers T s - rdlocks (threads s t) + rdlocks th"
proof -
  assume a: "finite T" "t \<in> T"
  have "readers T s = rdlocks (threads s t) + (\<Sum>t \<in> T - {t}. rdlocks (threads s t))"
    unfolding readers_def using a by (simp add: sum.remove)
  moreover have "readers T (set_thread s t l th) = rdlocks th + (\<Sum>t \<in> T - {t}. rdlocks (threads s t))"
    unfolding readers_def using a by (simp add: sum.remove)
  ultimately show ?thesis by simp
qed

lemma readers_ge: "finite T \<Longrightarrow> t \<in> T \<Longrightarrow> rdlocks (threads s t) \<le> readers T s"
  unfolding readers_def by (rule member_le_sum) auto

lemma readers_zero: "finite T \<Longrightarrow> readers T s = 0 \<longleftrightarrow> (\<forall>t \<in> T. rdlocks (threads s t) = 0)"
  unfolding readers_def by simp

text \<open>Each kind of change of the system keeps the invariant.\<close>

lemma inv_local:
  assumes inv: "lock_inv T s" and t: "finite T" "t \<in> T" and th: "thread_ok t th" "owning th = owning (threads s t)"
    "rdlocks th = rdlocks (threads s t)" "pc th \<noteq> Runlock_kernel" "pc (threads s t) \<noteq> Runlock_kernel"
    and l: "lock_state l = lock_state (rwl s)"
  shows "lock_inv T (set_thread s t l th)"
proof -
  have "readers T (set_thread s t l th) = readers T s"
    using readers_update [OF t, of s l th] readers_ge [OF t, of s] th(3) by simp
  then have "read_locked T s \<Longrightarrow> read_locked T (set_thread s t l th)"
    using th(2) l by (auto simp: read_locked_def)
  moreover have "write_locked T s w \<Longrightarrow> write_locked T (set_thread s t l th) w" for w
    using th l by (auto simp: write_locked_def)
  ultimately show ?thesis using inv th(1) unfolding lock_inv_def by (metis fun_upd_apply set_thread_sel(2))
qed

lemma inv_acquire_read:
  assumes inv: "lock_inv T s" and t: "finite T" "t \<in> T" and n: "readers T (set_thread s t l th) < 2 ^ 30"
    and v: "view (lock_state (rwl s)) < 2 ^ 30" "view x = view (lock_state (rwl s)) + 1"
    and th: "th = (threads s t)\<lparr>rdlocks := rdlocks (threads s t) + 1, pc := Return None\<rparr>" and l: "lock_state l = x"
  shows "lock_inv T (set_thread s t l th)"
proof -
  have r: "read_locked T s" using inv v(1) by (auto simp: lock_inv_def write_locked_def)
  have "readers T (set_thread s t l th) = readers T s + 1"
    using readers_update [OF t, of s l th] readers_ge [OF t, of s] th by simp
  then have "read_locked T (set_thread s t l th)"
    using r v(2) n th l t(2) by (auto simp: read_locked_def owning_def)
  then show ?thesis using inv th by (auto simp: lock_inv_def thread_ok_def)
qed

lemma inv_acquire_write:
  assumes inv: "lock_inv T s" and t: "finite T" "t \<in> T" and v: "view (lock_state (rwl s)) = 0" "view x = unat t + 2 ^ 30"
    and th: "th = (threads s t)\<lparr>wrlocks := True, pc := Return None\<rparr>" and l: "lock_state l = x"
  shows "lock_inv T (set_thread s t l th)"
proof -
  have r: "read_locked T s" using inv v(1) by (auto simp: lock_inv_def write_locked_def)
  then have "\<forall>u \<in> T. rdlocks (threads s u) = 0" using readers_zero [OF t(1), of s] v(1) by (simp add: read_locked_def)
  then have "write_locked T (set_thread s t l th) t"
    using r v(2) th l t(2) by (auto simp: read_locked_def write_locked_def owning_def)
  then show ?thesis using inv th by (auto simp: lock_inv_def thread_ok_def)
qed

lemma inv_release_write:
  assumes inv: "lock_inv T s" and t: "finite T" "t \<in> T" and o: "owning (threads s t)" and v: "view x = 0"
    and th: "\<not> owning th" "rdlocks th = 0" "thread_ok t th" and l: "lock_state l = x"
  shows "lock_inv T (set_thread s t l th)"
proof -
  obtain w where w: "write_locked T s w" using inv o t(2) by (auto simp: lock_inv_def read_locked_def)
  then have "w = t" using o t(2) by (auto simp: write_locked_def)
  then have "readers T (set_thread s t l th) = 0" using w th(2) by (auto simp: readers_zero [OF t(1)] write_locked_def)
  then have "read_locked T (set_thread s t l th)"
    using w \<open>w = t\<close> th(1) v l by (auto simp: read_locked_def write_locked_def)
  then show ?thesis using inv th(3) by (auto simp: lock_inv_def)
qed

lemma inv_release_read:
  assumes inv: "lock_inv T s" and t: "finite T" "t \<in> T" and pc: "pc (threads s t) = Runlock_cas old"
    and v: "0 < view (lock_state (rwl s))" "view x = view (lock_state (rwl s)) - 1"
    and th: "th = (threads s t)\<lparr>rdlocks := rdlocks (threads s t) - 1, pc := Return None\<rparr>" and l: "lock_state l = x"
  shows "lock_inv T (set_thread s t l th)"
proof -
  have ok: "0 < rdlocks (threads s t)" "\<not> wrlocks (threads s t)" using inv t(2) pc by (auto simp: lock_inv_def thread_ok_def)
  have r: "read_locked T s" using inv ok(1) pc t(2) by (auto simp: lock_inv_def write_locked_def split: if_splits)
  have "readers T (set_thread s t l th) = readers T s - 1"
    using readers_update [OF t, of s l th] readers_ge [OF t, of s] th ok(1) by simp
  then have "read_locked T (set_thread s t l th)"
    using r v(2) th l ok(2) by (auto simp: read_locked_def owning_def)
  then show ?thesis using inv th by (auto simp: lock_inv_def thread_ok_def)
qed

lemma inv_upgrade:
  assumes inv: "lock_inv T s" and t: "finite T" "t \<in> T" and pc: "pc (threads s t) = Runlock_cas old"
    and v: "view (lock_state (rwl s)) = 1" "view x = unat t + 2 ^ 30"
    and th: "th = (threads s t)\<lparr>pc := Runlock_kernel\<rparr>" and l: "lock_state l = x"
  shows "lock_inv T (set_thread s t l th)"
proof -
  have ok: "0 < rdlocks (threads s t)" "\<not> wrlocks (threads s t)" using inv t(2) pc by (auto simp: lock_inv_def thread_ok_def)
  have r: "read_locked T s" using inv v(1) by (auto simp: lock_inv_def write_locked_def)
  then have one: "readers T s = 1" using v(1) by (simp add: read_locked_def)
  have "readers T s = rdlocks (threads s t) + (\<Sum>u \<in> T - {t}. rdlocks (threads s u))"
    unfolding readers_def using t by (simp add: sum.remove)
  then have "rdlocks (threads s t) = 1" "(\<Sum>u \<in> T - {t}. rdlocks (threads s u)) = 0" using one ok(1) by linarith+
  then have "write_locked T (set_thread s t l th) t"
    using r v(2) th l t by (auto simp: read_locked_def write_locked_def owning_def)
  then show ?thesis using inv th ok(2) by (auto simp: lock_inv_def thread_ok_def)
qed

lemma inv_manage:
  assumes inv: "lock_inv T s" and v: "view x = view (lock_state (rwl s))"
  shows "lock_inv T (s\<lparr>rwl := (rwl s)\<lparr>lock_state := x\<rparr>\<rparr>)"
  using inv v by (simp add: lock_inv_def write_locked_def read_locked_def readers_def)

text \<open>What a thread knows of the lock from its own state.\<close>

lemma owner_view: "lock_inv T s \<Longrightarrow> t \<in> T \<Longrightarrow> owning (threads s t) \<Longrightarrow> write_locked T s t"
proof -
  assume a: "lock_inv T s" "t \<in> T" "owning (threads s t)"
  then obtain w where w: "write_locked T s w" unfolding lock_inv_def read_locked_def by blast
  then have "t = w" using a(2,3) by (cases "t = w") (simp_all add: write_locked_def)
  then show "write_locked T s t" using w by simp
qed

lemma reader_view:
  assumes "lock_inv T s" "finite T" "t \<in> T" "0 < rdlocks (threads s t)" "pc (threads s t) \<noteq> Runlock_kernel"
  shows "read_locked T s" "0 < view (lock_state (rwl s))" "\<not> owning (threads s t)"
proof -
  show "read_locked T s" using assms(1,3-5) by (auto simp: lock_inv_def write_locked_def split: if_splits)
  then show "0 < view (lock_state (rwl s))" "\<not> owning (threads s t)"
    using readers_ge [OF assms(2,3), of s] assms(3,4) by (auto simp: read_locked_def)
qed

lemma unlocked_view: "lock_inv T s \<Longrightarrow> t \<in> T \<Longrightarrow> view (lock_state (rwl s)) < 2 ^ 30 \<Longrightarrow> \<not> owning (threads s t)"
  using owner_view by (force simp: write_locked_def)

section \<open>The steps of a thread\<close>

lemma tryrdlock_inv:
  assumes inv: "lock_inv T s" and t: "finite T" "t \<in> T" and pc: "pc (threads s t) = Tryrd old blk"
    and step: "pthread_rwlock_tryrdlock 0x40000000 0x80000000 t spurious old blk (rwl s) (threads s t) = Some (l, th)"
    and n: "readers T (set_thread s t l th) < 2 ^ 30"
  shows "lock_inv T (set_thread s t l th)"
proof (cases "lock_state (rwl s) = old \<and> \<not> spurious")
  case True
  have v: "view (lock_state (rwl s)) < 2 ^ 30" using inv t(2) pc True by (auto simp: lock_inv_def thread_ok_def)
  then have "view (old + 1) = view (lock_state (rwl s)) + 1" using True view_succ [of old] by simp
  then show ?thesis using inv_acquire_read [OF inv t n v] step True
    by (auto simp: pthread_rwlock_tryrdlock_def)
next
  case False
  show ?thesis
    by (rule inv_local [OF inv t])
      (use step False pc view_write_bit [of "lock_state (rwl s)"] in
        \<open>auto simp: pthread_rwlock_tryrdlock_def Let_def thread_ok_def owning_def split: if_splits\<close>)
qed

lemma trywrlock_inv:
  assumes inv: "lock_inv T s" and t: "finite T" "t \<in> T" "unat t < 2 ^ 30" and pc: "pc (threads s t) = Trywr blk"
    and step: "pthread_rwlock_trywrlock 0x40000000 0x80000000 t blk (rwl s) (threads s t) = Some (l, th)"
  shows "lock_inv T (set_thread s t l th)"
proof (cases "lock_state (rwl s) = 0")
  case True
  then show ?thesis using inv_acquire_write [OF inv t(1,2) _ view_owner_word [OF t(3)]] step
    by (auto simp: pthread_rwlock_trywrlock_def)
next
  case False
  show ?thesis
    by (rule inv_local [OF inv t(1,2)])
      (use step False pc in \<open>auto simp: pthread_rwlock_trywrlock_def thread_ok_def owning_def split: if_splits\<close>)
qed

lemma unlock_load_inv:
  assumes inv: "lock_inv T s" and t: "finite T" "t \<in> T" "unat t < 2 ^ 30" and pc: "pc (threads s t) = Unlock"
    and step: "rwlock_unlock_load 0x40000000 0x80000000 t (rwl s) (threads s t) = Some (l, th)"
  shows "lock_inv T (set_thread s t l th)"
proof (cases "lock_state (rwl s) AND 0x40000000 = 0")
  case True
  then have d: "0 < rdlocks (threads s t)" "l = rwl s" "th = (threads s t)\<lparr>pc := Runlock_cas (lock_state (rwl s))\<rparr>"
    using step by (auto simp: rwlock_unlock_load_def split: if_splits)
  have "0 < view (lock_state (rwl s))" "\<not> owning (threads s t)" using reader_view(2,3) [OF inv t(1,2) d(1)] pc by auto
  then show ?thesis by (intro inv_local [OF inv t(1,2)]) (auto simp: d pc thread_ok_def owning_def)
next
  case False
  show ?thesis
    by (rule inv_local [OF inv t(1,2)])
      (use step False pc owner_iff [OF t(3), of "lock_state (rwl s)"] in
        \<open>auto simp: rwlock_unlock_load_def Let_def thread_ok_def owning_def split: if_splits\<close>)
qed

lemma write_unlock_inv:
  assumes inv: "lock_inv T s" and t: "finite T" "t \<in> T" and pc: "pc (threads s t) = Wunlock_cas old"
    and step: "rwlock_write_unlock old (rwl s) (threads s t) = Some (l, th)"
  shows "lock_inv T (set_thread s t l th)"
proof -
  have o: "owning (threads s t)" "\<not> wrlocks (threads s t)"
    using inv t(2) pc by (auto simp: lock_inv_def thread_ok_def owning_def)
  have d: "rdlocks (threads s t) = 0" using owner_view [OF inv t(2) o(1)] pc by (simp add: write_locked_def)
  show ?thesis
  proof (cases "lock_state (rwl s) = old")
    case True
    show ?thesis
      by (rule inv_release_write [OF inv t o(1) view_0])
        (use step True o(2) d in \<open>auto simp: rwlock_write_unlock_def owning_def thread_ok_def\<close>)
  next
    case False
    show ?thesis
      by (rule inv_local [OF inv t])
        (use step False o(2) pc in \<open>auto simp: rwlock_write_unlock_def owning_def thread_ok_def\<close>)
  qed
qed

lemma read_unlock_inv:
  assumes inv: "lock_inv T s" and t: "finite T" "t \<in> T" "unat t < 2 ^ 30" and pc: "pc (threads s t) = Runlock_cas old"
    and step: "rwlock_read_unlock 0x40000000 0x80000000 t spurious old (rwl s) (threads s t) = Some (l, th)"
  shows "lock_inv T (set_thread s t l th)"
proof -
  have ok: "0 < rdlocks (threads s t)" "\<not> wrlocks (threads s t)"
    using inv t(2) pc by (auto simp: lock_inv_def thread_ok_def)
  have v: "0 < view (lock_state (rwl s))" using reader_view(2) [OF inv t(1,2) ok(1)] pc by simp
  consider (again) "\<not> (lock_state (rwl s) = old \<and> \<not> spurious)"
    | (upgrade) "lock_state (rwl s) = old" "\<not> spurious" "old = 1 OR 0x80000000"
    | (last) "lock_state (rwl s) = old" "\<not> spurious" "old \<noteq> 1 OR 0x80000000" by blast
  then show ?thesis
  proof cases
    case again
    then have "l = rwl s" "th = (threads s t)\<lparr>pc := Runlock_cas (lock_state (rwl s))\<rparr>"
      using step unfolding rwlock_read_unlock_def by (auto split: if_splits)
    then show ?thesis using ok v pc by (intro inv_local [OF inv t(1,2)]) (auto simp: thread_ok_def owning_def)
  next
    case upgrade
    then have "view (lock_state (rwl s)) = 1" using view_one_managed by simp
    then show ?thesis using inv_upgrade [OF inv t(1,2) pc _ view_upgrade [OF t(3)]] step upgrade
      unfolding rwlock_read_unlock_def by auto
  next
    case last
    then show ?thesis using inv_release_read [OF inv t(1,2) pc v view_pred [OF v]] step
      unfolding rwlock_read_unlock_def by (auto split: if_splits)
  qed
qed

lemma thread_step_inv:
  assumes inv: "lock_inv T s" and t: "finite T" "t \<in> T" "unat t < 2 ^ 30"
    and step: "thread_step 0x40000000 0x80000000 t spurious (pc (threads s t)) (rwl s) (threads s t) = Some (l, th)"
    and n: "readers T (set_thread s t l th) < 2 ^ 30"
  shows "lock_inv T (set_thread s t l th)"
  using step tryrdlock_inv [OF inv t(1,2) _ _ n] trywrlock_inv [OF inv t] unlock_load_inv [OF inv t]
    write_unlock_inv [OF inv t(1,2)] read_unlock_inv [OF inv t]
  by (cases "pc (threads s t)") auto

text \<open>A lock that is held recursively has a thread that write-locks it.\<close>

definition recursion_inv :: "u32 set \<Rightarrow> system \<Rightarrow> bool" where
  "recursion_inv T s \<longleftrightarrow> (0 < write_recursion (rwl s) \<longrightarrow> (\<exists>w \<in> T. wrlocks (threads s w)))"

lemma thread_step_recursion:
  "thread_step wr km t spurious p l0 th0 = Some (l, th) \<Longrightarrow>
   wrlocks th \<or> write_recursion l \<le> 0 \<or> write_recursion l = write_recursion l0 \<and> wrlocks th = wrlocks th0"
  by (cases p)
    (auto simp: pthread_rwlock_tryrdlock_def pthread_rwlock_trywrlock_def rwlock_unlock_load_def
      rwlock_write_unlock_def rwlock_read_unlock_def Let_def split: if_splits)

lemma recursion_set_thread:
  "recursion_inv T s \<Longrightarrow> t \<in> T \<Longrightarrow>
   wrlocks th \<or> write_recursion l \<le> 0 \<or> write_recursion l = write_recursion (rwl s) \<and> wrlocks th = wrlocks (threads s t) \<Longrightarrow>
   recursion_inv T (set_thread s t l th)"
  unfolding recursion_inv_def by fastforce

lemma lock_step_recursion: "lock_step wr km k T s s' \<Longrightarrow> recursion_inv T s \<Longrightarrow> recursion_inv T s'"
proof (induction rule: lock_step.induct)
  case (run t s spurious l th)
  then show ?case using recursion_set_thread thread_step_recursion by metis
next
  case (manage s x)
  then show ?case by (simp add: recursion_inv_def)
qed (auto intro: recursion_set_thread simp: rdlock_polled_def wrlock_polled_def split: if_splits)

section \<open>Steps of the system\<close>

lemma poll_read_view:
  assumes "x AND 0x40000000 = 0" "y AND NOT 0x80000000 = (x AND NOT 0x80000000) + (1 :: u32)"
  shows "view x < 2 ^ 30" "view y = view x + 1"
proof -
  show v: "view x < 2 ^ 30" using assms(1) view_write_bit [of x] by simp
  have "view y = unat ((x AND NOT 0x80000000) + 1)" using assms(2) view_and_not [of y] by simp
  also have "\<dots> = (view x + 1) mod 2 ^ 32" using view_and_not [of x] by (simp add: unat_word_ariths)
  finally show "view y = view x + 1" using v by simp
qed

lemma kernel_laws:
  assumes "kernel_contract wr km k"
  shows "wr = 0x40000000" "km = 0x80000000"
    "acquire k True t x y \<Longrightarrow> unat t < 2 ^ 30 \<Longrightarrow> view x = 0 \<and> view y = unat t + 2 ^ 30"
    "acquire k False t x y \<Longrightarrow> view x < 2 ^ 30 \<and> view y = view x + 1"
    "unlock k t x y \<Longrightarrow> unat t < 2 ^ 30 \<Longrightarrow> view x = unat t + 2 ^ 30 \<Longrightarrow> view y = 0"
    "manage k x y \<Longrightarrow> view y = view x"
proof -
  show e: "wr = 0x40000000" "km = 0x80000000" using assms unfolding kernel_contract_def by blast+
  show "view x = 0 \<and> view y = unat t + 2 ^ 30" if "acquire k True t x y" "unat t < 2 ^ 30"
  proof -
    have "x AND NOT km = 0" "y AND NOT km = t OR wr" using assms that(1) unfolding kernel_contract_def by blast+
    then show ?thesis unfolding e free_iff owner_iff [OF that(2)] by blast
  qed
  show "view x < 2 ^ 30 \<and> view y = view x + 1" if "acquire k False t x y"
  proof -
    have "x AND wr = 0" "y AND NOT km = (x AND NOT km) + 1" using assms that unfolding kernel_contract_def by blast+
    then show ?thesis unfolding e using poll_read_view by blast
  qed
  show "view y = 0" if "unlock k t x y" "unat t < 2 ^ 30" "view x = unat t + 2 ^ 30"
  proof -
    have "x AND NOT km = t OR wr" unfolding e owner_iff [OF that(2)] by (rule that(3))
    then have "y AND NOT km = 0" using assms that(1) unfolding kernel_contract_def by blast
    then show ?thesis unfolding e free_iff .
  qed
  show "view y = view x" if "manage k x y"
  proof -
    have "y AND NOT km = x AND NOT km" using assms that unfolding kernel_contract_def by blast
    then show ?thesis unfolding e using view_and_not [of x] view_and_not [of y] by simp
  qed
qed

lemma lock_step_inv:
  assumes "lock_step wr km k T s s'" and k: "kernel_contract wr km k" and T: "finite T" "\<forall>t \<in> T. unat t < 2 ^ 30"
    and inv: "lock_inv T s"
  shows "lock_inv T s'"
  using assms(1) inv
proof (induction rule: lock_step.induct)
  case (call t s r c)
  then show ?case by (intro inv_local [OF _ T(1)]; cases c) (auto simp: owning_def thread_ok_def)
next
  case (run t s spurious l th)
  then show ?case using thread_step_inv [OF _ T(1)] T(2) kernel_laws(1,2) [OF k] by metis
next
  case (poll_read t s x)
  have v: "view (lock_state (rwl s)) < 2 ^ 30" "view x = view (lock_state (rwl s)) + 1"
    using kernel_laws(4) [OF k poll_read(4)] by auto
  show ?case
    by (rule inv_acquire_read [OF poll_read(5) T(1) poll_read(1) _ v rdlock_polled_def])
      (use poll_read(2) readers_update [OF T(1) poll_read(1)] readers_ge [OF T(1) poll_read(1), of s] in \<open>auto simp: rdlock_polled_def\<close>)
next
  case (poll_write t s x th)
  then have "view (lock_state (rwl s)) = 0" "view x = unat t + 2 ^ 30" using kernel_laws(3) [OF k] T(2) by blast+
  then show ?case using inv_acquire_write [OF poll_write(5) T(1) poll_write(1) _ _ refl] poll_write(4)
    by (auto simp: wrlock_polled_def split: if_splits)
next
  case (write_unlock t s x)
  have o: "owning (threads s t)" "\<not> wrlocks (threads s t)"
    using write_unlock by (auto simp: lock_inv_def thread_ok_def owning_def)
  have w: "write_locked T s t" using owner_view write_unlock o(1) by blast
  then have "view x = 0" using kernel_laws(5) [OF k write_unlock(3)] T(2) write_unlock(1) by (simp add: write_locked_def)
  then show ?case
    using w o(2) write_unlock(2) by (intro inv_release_write [OF write_unlock(4) T(1) write_unlock(1) o(1)])
      (auto simp: write_locked_def owning_def thread_ok_def)
next
  case (read_unlock t s x)
  have o: "owning (threads s t)" "\<not> wrlocks (threads s t)"
    using read_unlock by (auto simp: lock_inv_def thread_ok_def owning_def)
  have w: "write_locked T s t" using owner_view read_unlock o(1) by blast
  then have "view x = 0" using kernel_laws(5) [OF k read_unlock(3)] T(2) read_unlock(1) by (simp add: write_locked_def)
  then show ?case
    using w o(2) read_unlock(2) by (intro inv_release_write [OF read_unlock(4) T(1) read_unlock(1) o(1)])
      (auto simp: write_locked_def owning_def thread_ok_def)
next
  case (manage s x)
  then show ?case using inv_manage kernel_laws(6) [OF k] by blast
qed

lemma reachable_inv:
  assumes "(lock_step wr km k T)\<^sup>*\<^sup>* (lock_init recursive) s" "kernel_contract wr km k" "\<forall>t \<in> T. unat t < 2 ^ 30"
  shows "lock_inv T s" "recursion_inv T s"
proof -
  have T: "finite T" by simp
  have "lock_inv T (lock_init recursive) \<and> recursion_inv T (lock_init recursive)"
    by (simp add: lock_inv_def recursion_inv_def read_locked_def readers_def lock_init_def pthread_rwlock_init_def
        owning_def thread_ok_def)
  with assms(1) have "lock_inv T s \<and> recursion_inv T s"
    by (induction rule: rtranclp_induct) (auto intro: lock_step_inv [OF _ assms(2) T assms(3)] lock_step_recursion)
  then show "lock_inv T s" "recursion_inv T s" by auto
qed

section \<open>A contended lock\<close>

text \<open>
  A run for the witnesses: thread 1 write-locks, thread 2 has to wait in the kernel, and thread 1
  unlocks through the kernel, which hands the lock over.
\<close>

definition simple_kernel :: kernel where
  "simple_kernel =
     \<lparr>acquire = (\<lambda>w t x y. if w then x AND NOT 0x80000000 = 0 \<and> y = t OR 0x40000000 \<and> t AND 0x80000000 = 0
                   else x = 0 \<and> y = 1),
      unlock = (\<lambda>t x y. y = 0), manage = (\<lambda>x y. y = x OR 0x80000000)\<rparr>"

definition two_threads :: "u32 \<Rightarrow> thread \<Rightarrow> thread \<Rightarrow> system" where
  "two_threads x a b = \<lparr>rwl = \<lparr>lock_state = x, write_recursion = -1\<rparr>,
     threads = (\<lambda>t. if t = 1 then a else if t = 2 then b else \<lparr>pc = Idle, rdlocks = 0, wrlocks = False\<rparr>)\<rparr>"

abbreviation at :: "pc \<Rightarrow> bool \<Rightarrow> thread" where
  "at p w \<equiv> \<lparr>pc = p, rdlocks = 0, wrlocks = w\<rparr>"

abbreviation demo_step :: "system \<Rightarrow> system \<Rightarrow> bool" where
  "demo_step \<equiv> lock_step 0x40000000 0x80000000 simple_kernel {1, 2}"

lemma simple_kernel_contract: "kernel_contract 0x40000000 0x80000000 simple_kernel"
proof -
  have "(x OR 0x80000000) AND NOT 0x80000000 = x AND NOT (0x80000000 :: u32)" for x
    by (rule bit_eqI) (auto simp only: bit_or_iff bit_and_iff bit_not_iff)
  moreover have "(t OR 0x40000000) AND NOT 0x80000000 = t OR (0x40000000 :: u32)" if "t AND 0x80000000 = 0" for t
  proof -
    have "t = (t AND 0x80000000) OR (t AND NOT 0x80000000)"
      by (rule bit_eqI) (auto simp only: bit_or_iff bit_and_iff bit_not_iff impossible_bit)
    then have "t AND NOT 0x80000000 = t" using that by simp
    then show ?thesis by (simp add: bit.conj_disj_distrib2)
  qed
  ultimately show ?thesis by (simp add: kernel_contract_def simple_kernel_def)
qed

lemma two_threads_sel [simp]:
  "rwl (two_threads x a b) = \<lparr>lock_state = x, write_recursion = -1\<rparr>"
  "threads (two_threads x a b) 1 = a" "threads (two_threads x a b) 2 = b"
  by (simp_all add: two_threads_def)

lemma two_threads_set [simp]:
  "set_thread (two_threads x a b) 1 \<lparr>lock_state = y, write_recursion = -1\<rparr> c = two_threads y c b"
  "set_thread (two_threads x a b) 2 \<lparr>lock_state = y, write_recursion = -1\<rparr> c = two_threads y a c"
  by (auto simp: two_threads_def set_thread_def)

lemma two_threads_manage [simp]:
  "two_threads x a b\<lparr>rwl := \<lparr>lock_state = y, write_recursion = -1\<rparr>\<rparr> = two_threads y a b"
  by (simp add: two_threads_def)

lemma simple_kernel_sel [simp]:
  "acquire simple_kernel True t x y \<longleftrightarrow> x AND NOT 0x80000000 = 0 \<and> y = t OR 0x40000000 \<and> t AND 0x80000000 = 0"
  "unlock simple_kernel t x y \<longleftrightarrow> y = 0" "manage simple_kernel x y \<longleftrightarrow> y = x OR 0x80000000"
  by (simp_all add: simple_kernel_def)

lemma two_threads_readers [simp]: "readers {1, 2} (two_threads x a b) = rdlocks a + rdlocks b"
  by (simp add: readers_def)

lemma demo_start: "lock_init False = two_threads 0 (at Idle False) (at Idle False)"
  by (auto simp: lock_init_def two_threads_def pthread_rwlock_init_def)

lemma demo_call:
  "pc a = Idle \<or> pc a = Return None \<Longrightarrow> demo_step (two_threads x a b) (two_threads x (a\<lparr>pc := call_entry c\<rparr>) b)"
  "pc b = Idle \<or> pc b = Return None \<Longrightarrow> demo_step (two_threads x a b) (two_threads x a (b\<lparr>pc := call_entry c\<rparr>))"
  using lock_step.call [where t = 1 and T = "{1, 2}" and s = "two_threads x a b" and r = None and c = c]
    lock_step.call [where t = 2 and T = "{1, 2}" and s = "two_threads x a b" and r = None and c = c]
  by simp_all

lemma demo_run:
  "thread_step 0x40000000 0x80000000 1 False (pc a) \<lparr>lock_state = x, write_recursion = -1\<rparr> a
     = Some (\<lparr>lock_state = y, write_recursion = -1\<rparr>, c) \<Longrightarrow>
   rdlocks c + rdlocks b < 2 ^ 30 \<Longrightarrow> demo_step (two_threads x a b) (two_threads y c b)"
  "thread_step 0x40000000 0x80000000 2 False (pc b) \<lparr>lock_state = x, write_recursion = -1\<rparr> b
     = Some (\<lparr>lock_state = y, write_recursion = -1\<rparr>, c) \<Longrightarrow>
   rdlocks a + rdlocks c < 2 ^ 30 \<Longrightarrow> demo_step (two_threads x a b) (two_threads y a c)"
  using lock_step.run [where t = 1 and T = "{1, 2}" and s = "two_threads x a b" and spurious = False
      and l = "\<lparr>lock_state = y, write_recursion = -1\<rparr>" and th = c and k = simple_kernel]
    lock_step.run [where t = 2 and T = "{1, 2}" and s = "two_threads x a b" and spurious = False
      and l = "\<lparr>lock_state = y, write_recursion = -1\<rparr>" and th = c and k = simple_kernel]
  by simp_all

lemma demo_kernel:
  "demo_step (two_threads 0x40000001 a b) (two_threads 0xC0000001 a b)"
  "demo_step (two_threads 0xC0000001 (at Wunlock_kernel False) b) (two_threads 0 (at (Return None) False) b)"
  "demo_step (two_threads 0 a (at Wr_poll False)) (two_threads 0x40000002 a (at (Return None) True))"
  using lock_step.manage [where T = "{1, 2}" and s = "two_threads 0x40000001 a b" and x = "0xC0000001" and k = simple_kernel]
    lock_step.write_unlock [where t = 1 and T = "{1, 2}" and s = "two_threads 0xC0000001 (at Wunlock_kernel False) b"
      and x = 0 and k = simple_kernel]
    lock_step.poll_write [where t = 2 and T = "{1, 2}" and s = "two_threads 0 a (at Wr_poll False)" and x = "0x40000002"
      and k = simple_kernel and th = "at (Return None) True"]
  by (simp_all add: wrlock_polled_def)

lemma demo_locked: "demo_step\<^sup>*\<^sup>* (lock_init False) (two_threads 0x40000001 (at (Return None) True) (at Idle False))"
proof -
  have "demo_step (two_threads 0 (at Idle False) (at Idle False)) (two_threads 0 (at (Trywr True) False) (at Idle False))"
    using demo_call(1) [of "at Idle False" _ _ Wrlock] by simp
  moreover have "demo_step (two_threads 0 (at (Trywr True) False) (at Idle False))
      (two_threads 0x40000001 (at (Return None) True) (at Idle False))"
    by (rule demo_run(1)) (simp_all add: pthread_rwlock_trywrlock_def)
  ultimately show ?thesis unfolding demo_start by (rule converse_rtranclp_into_rtranclp [OF _ r_into_rtranclp])
qed

lemma demo_waiting: "demo_step\<^sup>*\<^sup>* (lock_init False) (two_threads 0xC0000001 (at (Return None) True) (at Wr_poll False))"
proof -
  have "demo_step (two_threads 0x40000001 (at (Return None) True) (at Idle False))
      (two_threads 0x40000001 (at (Return None) True) (at (Trywr True) False))"
    using demo_call(2) [of "at Idle False" _ _ Wrlock] by simp
  moreover have "demo_step (two_threads 0x40000001 (at (Return None) True) (at (Trywr True) False))
      (two_threads 0x40000001 (at (Return None) True) (at Wr_poll False))"
    by (rule demo_run(2)) (simp_all add: pthread_rwlock_trywrlock_def)
  ultimately show ?thesis using demo_locked demo_kernel(1) by (meson rtranclp.rtrancl_into_rtrancl)
qed

lemma demo_unlock: "demo_step\<^sup>*\<^sup>* (lock_init False) (two_threads 0xC0000001 (at Wunlock_kernel False) (at Wr_poll False))"
proof -
  have "demo_step (two_threads 0xC0000001 (at (Return None) True) (at Wr_poll False))
      (two_threads 0xC0000001 (at Unlock True) (at Wr_poll False))"
    using demo_call(1) [of "at (Return None) True" _ _ Unlock_call] by simp
  moreover have "demo_step (two_threads 0xC0000001 (at Unlock True) (at Wr_poll False))
      (two_threads 0xC0000001 (at Wunlock_kernel False) (at Wr_poll False))"
    by (rule demo_run(1)) (simp_all add: rwlock_unlock_load_def)
  ultimately show ?thesis using demo_waiting by (meson rtranclp.rtrancl_into_rtrancl)
qed

lemma demo_handed_over: "demo_step\<^sup>*\<^sup>* (lock_init False) (two_threads 0x40000002 (at (Return None) False) (at (Return None) True))"
  using demo_unlock demo_kernel(2,3) by (meson rtranclp.rtrancl_into_rtrancl)

section \<open>Properties\<close>

text \<open>
  C5: The lock excludes. In every state that threads reach by locking and unlocking, in any order and
  interleaving, a thread that has the write lock is the only one that has the lock: no other
  thread has it for writing, and none has it for reading. The threads have different identifiers below
  \<open>2 ^ 30\<close>, and the kernel keeps its contract.
\<close>
theorem rwlock_mutual_exclusion:
  assumes "kernel_contract wr km k" "\<forall>t \<in> T. unat t < 2 ^ 30"
    and "(lock_step wr km k T)\<^sup>*\<^sup>* (lock_init recursive) s" "t \<in> T" "wrlocks (threads s t)"
  shows "readers T s = 0 \<and> (\<forall>u \<in> T. wrlocks (threads s u) \<longrightarrow> u = t)"
proof -
  have inv: "lock_inv T s" by (rule reachable_inv(1) [OF assms(3,1,2)])
  have o: "owning (threads s u)" if "wrlocks (threads s u)" for u using that by (simp add: owning_def)
  have w: "write_locked T s t" by (rule owner_view [OF inv assms(4) o [OF assms(5)]])
  have "pc (threads s t) \<noteq> Runlock_kernel" using inv assms(4,5) by (auto simp: lock_inv_def thread_ok_def)
  then have "\<forall>u \<in> T. rdlocks (threads s u) = 0" using w unfolding write_locked_def by metis
  moreover have "u = t" if "u \<in> T" "wrlocks (threads s u)" for u
    using w that(1) o [OF that(2)] unfolding write_locked_def by metis
  ultimately show ?thesis by (simp add: readers_zero)
qed

theorem rwlock_mutual_exclusion_witness:
  "\<exists>s. demo_step\<^sup>*\<^sup>* (lock_init False) s \<and> wrlocks (threads s 2) \<and> readers {1, 2} s = 0 \<and> \<not> wrlocks (threads s 1)"
proof -
  let ?s = "two_threads 0x40000002 (at (Return None) False) (at (Return None) True)"
  have "readers {1, 2} ?s = 0 \<and> (\<forall>u \<in> {1, 2}. wrlocks (threads ?s u) \<longrightarrow> u = 2)"
    by (rule rwlock_mutual_exclusion [OF simple_kernel_contract _ demo_handed_over]) simp_all
  then show ?thesis using demo_handed_over by (intro exI [of _ ?s]) auto
qed

text \<open>
  C21: Unlocking is safe. In every reachable state, no assertion of \<open>pthread_rwlock_unlock()\<close> fails for
  a thread that has the lock, at its first load and at each of its compare-and-exchange operations;
  and a thread that calls the kernel to unlock, after a write lock or after the upgrade of the last
  read lock, owns the write lock at that moment, as \<open>cloudabi_sys_lock_unlock()\<close> requires.
\<close>
theorem rwlock_unlock_safe:
  assumes "kernel_contract wr km k" "\<forall>t \<in> T. unat t < 2 ^ 30"
    and "(lock_step wr km k T)\<^sup>*\<^sup>* (lock_init recursive) s" "t \<in> T"
  shows "case pc (threads s t) of
      Unlock \<Rightarrow> wrlocks (threads s t) \<or> 0 < rdlocks (threads s t) \<longrightarrow>
        thread_step wr km t spurious Unlock (rwl s) (threads s t) \<noteq> None
    | Wunlock_cas old \<Rightarrow> thread_step wr km t spurious (Wunlock_cas old) (rwl s) (threads s t) \<noteq> None
    | Runlock_cas old \<Rightarrow> thread_step wr km t spurious (Runlock_cas old) (rwl s) (threads s t) \<noteq> None
    | Wunlock_kernel \<Rightarrow> lock_state (rwl s) AND NOT km = t OR wr
    | Runlock_kernel \<Rightarrow> lock_state (rwl s) AND NOT km = t OR wr
    | _ \<Rightarrow> True"
proof -
  have inv: "lock_inv T s" "recursion_inv T s" by (rule reachable_inv [OF assms(3,1,2)])+
  have ok: "thread_ok t (threads s t)" using inv(1) assms(4) by (simp add: lock_inv_def)
  have t: "unat t < 2 ^ 30" using assms(2,4) by simp
  note e = kernel_laws(1,2) [OF assms(1)]
  have own: "lock_state (rwl s) AND NOT km = t OR wr" "lock_state (rwl s) AND wr \<noteq> 0" if "owning (threads s t)"
    using owner_view [OF inv(1) assms(4) that] unfolding e owner_iff [OF t] view_write_bit by (simp_all add: write_locked_def)
  show ?thesis
  proof (cases "pc (threads s t)")
    case Unlock
    have "rwlock_unlock_load wr km t (rwl s) (threads s t) \<noteq> None" if "wrlocks (threads s t)"
      using own that by (simp add: owning_def rwlock_unlock_load_def Let_def)
    moreover have "rwlock_unlock_load wr km t (rwl s) (threads s t) \<noteq> None" if "0 < rdlocks (threads s t)"
    proof -
      have r: "read_locked T s" using reader_view(1) [OF inv(1) _ assms(4) that] Unlock by simp
      then have "lock_state (rwl s) AND wr = 0" using view_write_bit [of "lock_state (rwl s)"] unfolding e by (auto simp: read_locked_def)
      moreover have "\<not> 0 < write_recursion (rwl s)"
        using r inv(2) by (auto simp: read_locked_def recursion_inv_def owning_def)
      ultimately show ?thesis using that by (simp add: rwlock_unlock_load_def)
    qed
    ultimately show ?thesis using Unlock by auto
  next
    case (Runlock_cas old)
    then have "old AND NOT km \<noteq> 0" using ok unfolding e free_iff by (simp add: thread_ok_def)
    then show ?thesis using Runlock_cas by (simp add: rwlock_read_unlock_def)
  qed (use own in \<open>auto simp: owning_def rwlock_write_unlock_def\<close>)
qed

theorem rwlock_unlock_safe_witness:
  "\<exists>s. demo_step\<^sup>*\<^sup>* (lock_init False) s \<and> pc (threads s 1) = Wunlock_kernel
     \<and> lock_state (rwl s) AND NOT 0x80000000 = 1 OR 0x40000000"
proof -
  let ?s = "two_threads 0xC0000001 (at Wunlock_kernel False) (at Wr_poll False)"
  have "lock_state (rwl ?s) AND NOT 0x80000000 = 1 OR 0x40000000"
    using rwlock_unlock_safe [OF simple_kernel_contract _ demo_unlock, of 1] by simp
  then show ?thesis using demo_unlock by (intro exI [of _ ?s]) simp
qed

end
