(* ===== verification/CodePages.thy ===== *)
theory CodePages
  imports CodecCorrect
begin

text \<open>
  The tables of the code pages of \<^verbatim>\<open>libc/locale/ctype/asciiplus.h\<close>, and that each of them meets the
  condition of the code page codec: the search table is sorted and is the inverse of the table that
  is indexed by bytes.
\<close>

section \<open>Tables\<close>

definition asciiplus_iso_8859_2 :: asciiplus where
  "asciiplus_iso_8859_2 =
    \<lparr>mbtoc16 =
      [0x80, 0x81, 0x82, 0x83, 0x84, 0x85, 0x86, 0x87, 0x88, 0x89, 0x8a, 0x8b, 0x8c, 0x8d, 0x8e,
      0x8f, 0x90, 0x91, 0x92, 0x93, 0x94, 0x95, 0x96, 0x97, 0x98, 0x99, 0x9a, 0x9b, 0x9c, 0x9d,
      0x9e, 0x9f, 0xa0, 0x104, 0x2d8, 0x141, 0xa4, 0x13d, 0x15a, 0xa7, 0xa8, 0x160, 0x15e, 0x164,
      0x179, 0xad, 0x17d, 0x17b, 0xb0, 0x105, 0x2db, 0x142, 0xb4, 0x13e, 0x15b, 0x2c7, 0xb8,
      0x161, 0x15f, 0x165, 0x17a, 0x2dd, 0x17e, 0x17c, 0x154, 0xc1, 0xc2, 0x102, 0xc4, 0x139,
      0x106, 0xc7, 0x10c, 0xc9, 0x118, 0xcb, 0x11a, 0xcd, 0xce, 0x10e, 0x110, 0x143, 0x147, 0xd3,
      0xd4, 0x150, 0xd6, 0xd7, 0x158, 0x16e, 0xda, 0x170, 0xdc, 0xdd, 0x162, 0xdf, 0x155, 0xe1,
      0xe2, 0x103, 0xe4, 0x13a, 0x107, 0xe7, 0x10d, 0xe9, 0x119, 0xeb, 0x11b, 0xed, 0xee, 0x10f,
      0x111, 0x144, 0x148, 0xf3, 0xf4, 0x151, 0xf6, 0xf7, 0x159, 0x16f, 0xfa, 0x171, 0xfc, 0xfd,
      0x163, 0x2d9],
     c16tomb_c16 =
      [0x80, 0x81, 0x82, 0x83, 0x84, 0x85, 0x86, 0x87, 0x88, 0x89, 0x8a, 0x8b, 0x8c, 0x8d, 0x8e,
      0x8f, 0x90, 0x91, 0x92, 0x93, 0x94, 0x95, 0x96, 0x97, 0x98, 0x99, 0x9a, 0x9b, 0x9c, 0x9d,
      0x9e, 0x9f, 0xa0, 0xa4, 0xa7, 0xa8, 0xad, 0xb0, 0xb4, 0xb8, 0xc1, 0xc2, 0xc4, 0xc7, 0xc9,
      0xcb, 0xcd, 0xce, 0xd3, 0xd4, 0xd6, 0xd7, 0xda, 0xdc, 0xdd, 0xdf, 0xe1, 0xe2, 0xe4, 0xe7,
      0xe9, 0xeb, 0xed, 0xee, 0xf3, 0xf4, 0xf6, 0xf7, 0xfa, 0xfc, 0xfd, 0x102, 0x103, 0x104,
      0x105, 0x106, 0x107, 0x10c, 0x10d, 0x10e, 0x10f, 0x110, 0x111, 0x118, 0x119, 0x11a, 0x11b,
      0x139, 0x13a, 0x13d, 0x13e, 0x141, 0x142, 0x143, 0x144, 0x147, 0x148, 0x150, 0x151, 0x154,
      0x155, 0x158, 0x159, 0x15a, 0x15b, 0x15e, 0x15f, 0x160, 0x161, 0x162, 0x163, 0x164, 0x165,
      0x16e, 0x16f, 0x170, 0x171, 0x179, 0x17a, 0x17b, 0x17c, 0x17d, 0x17e, 0x2c7, 0x2d8, 0x2d9,
      0x2db, 0x2dd],
     c16tomb_b =
      [0x80, 0x81, 0x82, 0x83, 0x84, 0x85, 0x86, 0x87, 0x88, 0x89, 0x8a, 0x8b, 0x8c, 0x8d, 0x8e,
      0x8f, 0x90, 0x91, 0x92, 0x93, 0x94, 0x95, 0x96, 0x97, 0x98, 0x99, 0x9a, 0x9b, 0x9c, 0x9d,
      0x9e, 0x9f, 0xa0, 0xa4, 0xa7, 0xa8, 0xad, 0xb0, 0xb4, 0xb8, 0xc1, 0xc2, 0xc4, 0xc7, 0xc9,
      0xcb, 0xcd, 0xce, 0xd3, 0xd4, 0xd6, 0xd7, 0xda, 0xdc, 0xdd, 0xdf, 0xe1, 0xe2, 0xe4, 0xe7,
      0xe9, 0xeb, 0xed, 0xee, 0xf3, 0xf4, 0xf6, 0xf7, 0xfa, 0xfc, 0xfd, 0xc3, 0xe3, 0xa1, 0xb1,
      0xc6, 0xe6, 0xc8, 0xe8, 0xcf, 0xef, 0xd0, 0xf0, 0xca, 0xea, 0xcc, 0xec, 0xc5, 0xe5, 0xa5,
      0xb5, 0xa3, 0xb3, 0xd1, 0xf1, 0xd2, 0xf2, 0xd5, 0xf5, 0xc0, 0xe0, 0xd8, 0xf8, 0xa6, 0xb6,
      0xaa, 0xba, 0xa9, 0xb9, 0xde, 0xfe, 0xab, 0xbb, 0xd9, 0xf9, 0xdb, 0xfb, 0xac, 0xbc, 0xaf,
      0xbf, 0xae, 0xbe, 0xb7, 0xa2, 0xff, 0xb2, 0xbd]\<rparr>"

definition asciiplus_iso_8859_5 :: asciiplus where
  "asciiplus_iso_8859_5 =
    \<lparr>mbtoc16 =
      [0x80, 0x81, 0x82, 0x83, 0x84, 0x85, 0x86, 0x87, 0x88, 0x89, 0x8a, 0x8b, 0x8c, 0x8d, 0x8e,
      0x8f, 0x90, 0x91, 0x92, 0x93, 0x94, 0x95, 0x96, 0x97, 0x98, 0x99, 0x9a, 0x9b, 0x9c, 0x9d,
      0x9e, 0x9f, 0xa0, 0x401, 0x402, 0x403, 0x404, 0x405, 0x406, 0x407, 0x408, 0x409, 0x40a,
      0x40b, 0x40c, 0xad, 0x40e, 0x40f, 0x410, 0x411, 0x412, 0x413, 0x414, 0x415, 0x416, 0x417,
      0x418, 0x419, 0x41a, 0x41b, 0x41c, 0x41d, 0x41e, 0x41f, 0x420, 0x421, 0x422, 0x423, 0x424,
      0x425, 0x426, 0x427, 0x428, 0x429, 0x42a, 0x42b, 0x42c, 0x42d, 0x42e, 0x42f, 0x430, 0x431,
      0x432, 0x433, 0x434, 0x435, 0x436, 0x437, 0x438, 0x439, 0x43a, 0x43b, 0x43c, 0x43d, 0x43e,
      0x43f, 0x440, 0x441, 0x442, 0x443, 0x444, 0x445, 0x446, 0x447, 0x448, 0x449, 0x44a, 0x44b,
      0x44c, 0x44d, 0x44e, 0x44f, 0x2116, 0x451, 0x452, 0x453, 0x454, 0x455, 0x456, 0x457, 0x458,
      0x459, 0x45a, 0x45b, 0x45c, 0xa7, 0x45e, 0x45f],
     c16tomb_c16 =
      [0x80, 0x81, 0x82, 0x83, 0x84, 0x85, 0x86, 0x87, 0x88, 0x89, 0x8a, 0x8b, 0x8c, 0x8d, 0x8e,
      0x8f, 0x90, 0x91, 0x92, 0x93, 0x94, 0x95, 0x96, 0x97, 0x98, 0x99, 0x9a, 0x9b, 0x9c, 0x9d,
      0x9e, 0x9f, 0xa0, 0xa7, 0xad, 0x401, 0x402, 0x403, 0x404, 0x405, 0x406, 0x407, 0x408, 0x409,
      0x40a, 0x40b, 0x40c, 0x40e, 0x40f, 0x410, 0x411, 0x412, 0x413, 0x414, 0x415, 0x416, 0x417,
      0x418, 0x419, 0x41a, 0x41b, 0x41c, 0x41d, 0x41e, 0x41f, 0x420, 0x421, 0x422, 0x423, 0x424,
      0x425, 0x426, 0x427, 0x428, 0x429, 0x42a, 0x42b, 0x42c, 0x42d, 0x42e, 0x42f, 0x430, 0x431,
      0x432, 0x433, 0x434, 0x435, 0x436, 0x437, 0x438, 0x439, 0x43a, 0x43b, 0x43c, 0x43d, 0x43e,
      0x43f, 0x440, 0x441, 0x442, 0x443, 0x444, 0x445, 0x446, 0x447, 0x448, 0x449, 0x44a, 0x44b,
      0x44c, 0x44d, 0x44e, 0x44f, 0x451, 0x452, 0x453, 0x454, 0x455, 0x456, 0x457, 0x458, 0x459,
      0x45a, 0x45b, 0x45c, 0x45e, 0x45f, 0x2116],
     c16tomb_b =
      [0x80, 0x81, 0x82, 0x83, 0x84, 0x85, 0x86, 0x87, 0x88, 0x89, 0x8a, 0x8b, 0x8c, 0x8d, 0x8e,
      0x8f, 0x90, 0x91, 0x92, 0x93, 0x94, 0x95, 0x96, 0x97, 0x98, 0x99, 0x9a, 0x9b, 0x9c, 0x9d,
      0x9e, 0x9f, 0xa0, 0xfd, 0xad, 0xa1, 0xa2, 0xa3, 0xa4, 0xa5, 0xa6, 0xa7, 0xa8, 0xa9, 0xaa,
      0xab, 0xac, 0xae, 0xaf, 0xb0, 0xb1, 0xb2, 0xb3, 0xb4, 0xb5, 0xb6, 0xb7, 0xb8, 0xb9, 0xba,
      0xbb, 0xbc, 0xbd, 0xbe, 0xbf, 0xc0, 0xc1, 0xc2, 0xc3, 0xc4, 0xc5, 0xc6, 0xc7, 0xc8, 0xc9,
      0xca, 0xcb, 0xcc, 0xcd, 0xce, 0xcf, 0xd0, 0xd1, 0xd2, 0xd3, 0xd4, 0xd5, 0xd6, 0xd7, 0xd8,
      0xd9, 0xda, 0xdb, 0xdc, 0xdd, 0xde, 0xdf, 0xe0, 0xe1, 0xe2, 0xe3, 0xe4, 0xe5, 0xe6, 0xe7,
      0xe8, 0xe9, 0xea, 0xeb, 0xec, 0xed, 0xee, 0xef, 0xf1, 0xf2, 0xf3, 0xf4, 0xf5, 0xf6, 0xf7,
      0xf8, 0xf9, 0xfa, 0xfb, 0xfc, 0xfe, 0xff, 0xf0]\<rparr>"

definition asciiplus_iso_8859_9 :: asciiplus where
  "asciiplus_iso_8859_9 =
    \<lparr>mbtoc16 =
      [0x80, 0x81, 0x82, 0x83, 0x84, 0x85, 0x86, 0x87, 0x88, 0x89, 0x8a, 0x8b, 0x8c, 0x8d, 0x8e,
      0x8f, 0x90, 0x91, 0x92, 0x93, 0x94, 0x95, 0x96, 0x97, 0x98, 0x99, 0x9a, 0x9b, 0x9c, 0x9d,
      0x9e, 0x9f, 0xa0, 0xa1, 0xa2, 0xa3, 0xa4, 0xa5, 0xa6, 0xa7, 0xa8, 0xa9, 0xaa, 0xab, 0xac,
      0xad, 0xae, 0xaf, 0xb0, 0xb1, 0xb2, 0xb3, 0xb4, 0xb5, 0xb6, 0xb7, 0xb8, 0xb9, 0xba, 0xbb,
      0xbc, 0xbd, 0xbe, 0xbf, 0xc0, 0xc1, 0xc2, 0xc3, 0xc4, 0xc5, 0xc6, 0xc7, 0xc8, 0xc9, 0xca,
      0xcb, 0xcc, 0xcd, 0xce, 0xcf, 0x11e, 0xd1, 0xd2, 0xd3, 0xd4, 0xd5, 0xd6, 0xd7, 0xd8, 0xd9,
      0xda, 0xdb, 0xdc, 0x130, 0x15e, 0xdf, 0xe0, 0xe1, 0xe2, 0xe3, 0xe4, 0xe5, 0xe6, 0xe7, 0xe8,
      0xe9, 0xea, 0xeb, 0xec, 0xed, 0xee, 0xef, 0x11f, 0xf1, 0xf2, 0xf3, 0xf4, 0xf5, 0xf6, 0xf7,
      0xf8, 0xf9, 0xfa, 0xfb, 0xfc, 0x131, 0x15f, 0xff],
     c16tomb_c16 =
      [0x80, 0x81, 0x82, 0x83, 0x84, 0x85, 0x86, 0x87, 0x88, 0x89, 0x8a, 0x8b, 0x8c, 0x8d, 0x8e,
      0x8f, 0x90, 0x91, 0x92, 0x93, 0x94, 0x95, 0x96, 0x97, 0x98, 0x99, 0x9a, 0x9b, 0x9c, 0x9d,
      0x9e, 0x9f, 0xa0, 0xa1, 0xa2, 0xa3, 0xa4, 0xa5, 0xa6, 0xa7, 0xa8, 0xa9, 0xaa, 0xab, 0xac,
      0xad, 0xae, 0xaf, 0xb0, 0xb1, 0xb2, 0xb3, 0xb4, 0xb5, 0xb6, 0xb7, 0xb8, 0xb9, 0xba, 0xbb,
      0xbc, 0xbd, 0xbe, 0xbf, 0xc0, 0xc1, 0xc2, 0xc3, 0xc4, 0xc5, 0xc6, 0xc7, 0xc8, 0xc9, 0xca,
      0xcb, 0xcc, 0xcd, 0xce, 0xcf, 0xd1, 0xd2, 0xd3, 0xd4, 0xd5, 0xd6, 0xd7, 0xd8, 0xd9, 0xda,
      0xdb, 0xdc, 0xdf, 0xe0, 0xe1, 0xe2, 0xe3, 0xe4, 0xe5, 0xe6, 0xe7, 0xe8, 0xe9, 0xea, 0xeb,
      0xec, 0xed, 0xee, 0xef, 0xf1, 0xf2, 0xf3, 0xf4, 0xf5, 0xf6, 0xf7, 0xf8, 0xf9, 0xfa, 0xfb,
      0xfc, 0xff, 0x11e, 0x11f, 0x130, 0x131, 0x15e, 0x15f],
     c16tomb_b =
      [0x80, 0x81, 0x82, 0x83, 0x84, 0x85, 0x86, 0x87, 0x88, 0x89, 0x8a, 0x8b, 0x8c, 0x8d, 0x8e,
      0x8f, 0x90, 0x91, 0x92, 0x93, 0x94, 0x95, 0x96, 0x97, 0x98, 0x99, 0x9a, 0x9b, 0x9c, 0x9d,
      0x9e, 0x9f, 0xa0, 0xa1, 0xa2, 0xa3, 0xa4, 0xa5, 0xa6, 0xa7, 0xa8, 0xa9, 0xaa, 0xab, 0xac,
      0xad, 0xae, 0xaf, 0xb0, 0xb1, 0xb2, 0xb3, 0xb4, 0xb5, 0xb6, 0xb7, 0xb8, 0xb9, 0xba, 0xbb,
      0xbc, 0xbd, 0xbe, 0xbf, 0xc0, 0xc1, 0xc2, 0xc3, 0xc4, 0xc5, 0xc6, 0xc7, 0xc8, 0xc9, 0xca,
      0xcb, 0xcc, 0xcd, 0xce, 0xcf, 0xd1, 0xd2, 0xd3, 0xd4, 0xd5, 0xd6, 0xd7, 0xd8, 0xd9, 0xda,
      0xdb, 0xdc, 0xdf, 0xe0, 0xe1, 0xe2, 0xe3, 0xe4, 0xe5, 0xe6, 0xe7, 0xe8, 0xe9, 0xea, 0xeb,
      0xec, 0xed, 0xee, 0xef, 0xf1, 0xf2, 0xf3, 0xf4, 0xf5, 0xf6, 0xf7, 0xf8, 0xf9, 0xfa, 0xfb,
      0xfc, 0xff, 0xd0, 0xf0, 0xdd, 0xfd, 0xde, 0xfe]\<rparr>"

definition asciiplus_iso_8859_13 :: asciiplus where
  "asciiplus_iso_8859_13 =
    \<lparr>mbtoc16 =
      [0x80, 0x81, 0x82, 0x83, 0x84, 0x85, 0x86, 0x87, 0x88, 0x89, 0x8a, 0x8b, 0x8c, 0x8d, 0x8e,
      0x8f, 0x90, 0x91, 0x92, 0x93, 0x94, 0x95, 0x96, 0x97, 0x98, 0x99, 0x9a, 0x9b, 0x9c, 0x9d,
      0x9e, 0x9f, 0xa0, 0x201d, 0xa2, 0xa3, 0xa4, 0x201e, 0xa6, 0xa7, 0xd8, 0xa9, 0x156, 0xab,
      0xac, 0xad, 0xae, 0xc6, 0xb0, 0xb1, 0xb2, 0xb3, 0x201c, 0xb5, 0xb6, 0xb7, 0xf8, 0xb9, 0x157,
      0xbb, 0xbc, 0xbd, 0xbe, 0xe6, 0x104, 0x12e, 0x100, 0x106, 0xc4, 0xc5, 0x118, 0x112, 0x10c,
      0xc9, 0x179, 0x116, 0x122, 0x136, 0x12a, 0x13b, 0x160, 0x143, 0x145, 0xd3, 0x14c, 0xd5,
      0xd6, 0xd7, 0x172, 0x141, 0x15a, 0x16a, 0xdc, 0x17b, 0x17d, 0xdf, 0x105, 0x12f, 0x101,
      0x107, 0xe4, 0xe5, 0x119, 0x113, 0x10d, 0xe9, 0x17a, 0x117, 0x123, 0x137, 0x12b, 0x13c,
      0x161, 0x144, 0x146, 0xf3, 0x14d, 0xf5, 0xf6, 0xf7, 0x173, 0x142, 0x15b, 0x16b, 0xfc, 0x17c,
      0x17e, 0x2019],
     c16tomb_c16 =
      [0x80, 0x81, 0x82, 0x83, 0x84, 0x85, 0x86, 0x87, 0x88, 0x89, 0x8a, 0x8b, 0x8c, 0x8d, 0x8e,
      0x8f, 0x90, 0x91, 0x92, 0x93, 0x94, 0x95, 0x96, 0x97, 0x98, 0x99, 0x9a, 0x9b, 0x9c, 0x9d,
      0x9e, 0x9f, 0xa0, 0xa2, 0xa3, 0xa4, 0xa6, 0xa7, 0xa9, 0xab, 0xac, 0xad, 0xae, 0xb0, 0xb1,
      0xb2, 0xb3, 0xb5, 0xb6, 0xb7, 0xb9, 0xbb, 0xbc, 0xbd, 0xbe, 0xc4, 0xc5, 0xc6, 0xc9, 0xd3,
      0xd5, 0xd6, 0xd7, 0xd8, 0xdc, 0xdf, 0xe4, 0xe5, 0xe6, 0xe9, 0xf3, 0xf5, 0xf6, 0xf7, 0xf8,
      0xfc, 0x100, 0x101, 0x104, 0x105, 0x106, 0x107, 0x10c, 0x10d, 0x112, 0x113, 0x116, 0x117,
      0x118, 0x119, 0x122, 0x123, 0x12a, 0x12b, 0x12e, 0x12f, 0x136, 0x137, 0x13b, 0x13c, 0x141,
      0x142, 0x143, 0x144, 0x145, 0x146, 0x14c, 0x14d, 0x156, 0x157, 0x15a, 0x15b, 0x160, 0x161,
      0x16a, 0x16b, 0x172, 0x173, 0x179, 0x17a, 0x17b, 0x17c, 0x17d, 0x17e, 0x2019, 0x201c,
      0x201d, 0x201e],
     c16tomb_b =
      [0x80, 0x81, 0x82, 0x83, 0x84, 0x85, 0x86, 0x87, 0x88, 0x89, 0x8a, 0x8b, 0x8c, 0x8d, 0x8e,
      0x8f, 0x90, 0x91, 0x92, 0x93, 0x94, 0x95, 0x96, 0x97, 0x98, 0x99, 0x9a, 0x9b, 0x9c, 0x9d,
      0x9e, 0x9f, 0xa0, 0xa2, 0xa3, 0xa4, 0xa6, 0xa7, 0xa9, 0xab, 0xac, 0xad, 0xae, 0xb0, 0xb1,
      0xb2, 0xb3, 0xb5, 0xb6, 0xb7, 0xb9, 0xbb, 0xbc, 0xbd, 0xbe, 0xc4, 0xc5, 0xaf, 0xc9, 0xd3,
      0xd5, 0xd6, 0xd7, 0xa8, 0xdc, 0xdf, 0xe4, 0xe5, 0xbf, 0xe9, 0xf3, 0xf5, 0xf6, 0xf7, 0xb8,
      0xfc, 0xc2, 0xe2, 0xc0, 0xe0, 0xc3, 0xe3, 0xc8, 0xe8, 0xc7, 0xe7, 0xcb, 0xeb, 0xc6, 0xe6,
      0xcc, 0xec, 0xce, 0xee, 0xc1, 0xe1, 0xcd, 0xed, 0xcf, 0xef, 0xd9, 0xf9, 0xd1, 0xf1, 0xd2,
      0xf2, 0xd4, 0xf4, 0xaa, 0xba, 0xda, 0xfa, 0xd0, 0xf0, 0xdb, 0xfb, 0xd8, 0xf8, 0xca, 0xea,
      0xdd, 0xfd, 0xde, 0xfe, 0xff, 0xb4, 0xa1, 0xa5]\<rparr>"

definition asciiplus_koi8_r :: asciiplus where
  "asciiplus_koi8_r =
    \<lparr>mbtoc16 =
      [0x2500, 0x2502, 0x250c, 0x2510, 0x2514, 0x2518, 0x251c, 0x2524, 0x252c, 0x2534, 0x253c,
      0x2580, 0x2584, 0x2588, 0x258c, 0x2590, 0x2591, 0x2592, 0x2593, 0x2320, 0x25a0, 0x2219,
      0x221a, 0x2248, 0x2264, 0x2265, 0xa0, 0x2321, 0xb0, 0xb2, 0xb7, 0xf7, 0x2550, 0x2551,
      0x2552, 0x451, 0x2553, 0x2554, 0x2555, 0x2556, 0x2557, 0x2558, 0x2559, 0x255a, 0x255b,
      0x255c, 0x255d, 0x255e, 0x255f, 0x2560, 0x2561, 0x401, 0x2562, 0x2563, 0x2564, 0x2565,
      0x2566, 0x2567, 0x2568, 0x2569, 0x256a, 0x256b, 0x256c, 0xa9, 0x44e, 0x430, 0x431, 0x446,
      0x434, 0x435, 0x444, 0x433, 0x445, 0x438, 0x439, 0x43a, 0x43b, 0x43c, 0x43d, 0x43e, 0x43f,
      0x44f, 0x440, 0x441, 0x442, 0x443, 0x436, 0x432, 0x44c, 0x44b, 0x437, 0x448, 0x44d, 0x449,
      0x447, 0x44a, 0x42e, 0x410, 0x411, 0x426, 0x414, 0x415, 0x424, 0x413, 0x425, 0x418, 0x419,
      0x41a, 0x41b, 0x41c, 0x41d, 0x41e, 0x41f, 0x42f, 0x420, 0x421, 0x422, 0x423, 0x416, 0x412,
      0x42c, 0x42b, 0x417, 0x428, 0x42d, 0x429, 0x427, 0x42a],
     c16tomb_c16 =
      [0xa0, 0xa9, 0xb0, 0xb2, 0xb7, 0xf7, 0x401, 0x410, 0x411, 0x412, 0x413, 0x414, 0x415, 0x416,
      0x417, 0x418, 0x419, 0x41a, 0x41b, 0x41c, 0x41d, 0x41e, 0x41f, 0x420, 0x421, 0x422, 0x423,
      0x424, 0x425, 0x426, 0x427, 0x428, 0x429, 0x42a, 0x42b, 0x42c, 0x42d, 0x42e, 0x42f, 0x430,
      0x431, 0x432, 0x433, 0x434, 0x435, 0x436, 0x437, 0x438, 0x439, 0x43a, 0x43b, 0x43c, 0x43d,
      0x43e, 0x43f, 0x440, 0x441, 0x442, 0x443, 0x444, 0x445, 0x446, 0x447, 0x448, 0x449, 0x44a,
      0x44b, 0x44c, 0x44d, 0x44e, 0x44f, 0x451, 0x2219, 0x221a, 0x2248, 0x2264, 0x2265, 0x2320,
      0x2321, 0x2500, 0x2502, 0x250c, 0x2510, 0x2514, 0x2518, 0x251c, 0x2524, 0x252c, 0x2534,
      0x253c, 0x2550, 0x2551, 0x2552, 0x2553, 0x2554, 0x2555, 0x2556, 0x2557, 0x2558, 0x2559,
      0x255a, 0x255b, 0x255c, 0x255d, 0x255e, 0x255f, 0x2560, 0x2561, 0x2562, 0x2563, 0x2564,
      0x2565, 0x2566, 0x2567, 0x2568, 0x2569, 0x256a, 0x256b, 0x256c, 0x2580, 0x2584, 0x2588,
      0x258c, 0x2590, 0x2591, 0x2592, 0x2593, 0x25a0],
     c16tomb_b =
      [0x9a, 0xbf, 0x9c, 0x9d, 0x9e, 0x9f, 0xb3, 0xe1, 0xe2, 0xf7, 0xe7, 0xe4, 0xe5, 0xf6, 0xfa,
      0xe9, 0xea, 0xeb, 0xec, 0xed, 0xee, 0xef, 0xf0, 0xf2, 0xf3, 0xf4, 0xf5, 0xe6, 0xe8, 0xe3,
      0xfe, 0xfb, 0xfd, 0xff, 0xf9, 0xf8, 0xfc, 0xe0, 0xf1, 0xc1, 0xc2, 0xd7, 0xc7, 0xc4, 0xc5,
      0xd6, 0xda, 0xc9, 0xca, 0xcb, 0xcc, 0xcd, 0xce, 0xcf, 0xd0, 0xd2, 0xd3, 0xd4, 0xd5, 0xc6,
      0xc8, 0xc3, 0xde, 0xdb, 0xdd, 0xdf, 0xd9, 0xd8, 0xdc, 0xc0, 0xd1, 0xa3, 0x95, 0x96, 0x97,
      0x98, 0x99, 0x93, 0x9b, 0x80, 0x81, 0x82, 0x83, 0x84, 0x85, 0x86, 0x87, 0x88, 0x89, 0x8a,
      0xa0, 0xa1, 0xa2, 0xa4, 0xa5, 0xa6, 0xa7, 0xa8, 0xa9, 0xaa, 0xab, 0xac, 0xad, 0xae, 0xaf,
      0xb0, 0xb1, 0xb2, 0xb4, 0xb5, 0xb6, 0xb7, 0xb8, 0xb9, 0xba, 0xbb, 0xbc, 0xbd, 0xbe, 0x8b,
      0x8c, 0x8d, 0x8e, 0x8f, 0x90, 0x91, 0x92, 0x94]\<rparr>"

definition asciiplus_koi8_u :: asciiplus where
  "asciiplus_koi8_u =
    \<lparr>mbtoc16 =
      [0x2500, 0x2502, 0x250c, 0x2510, 0x2514, 0x2518, 0x251c, 0x2524, 0x252c, 0x2534, 0x253c,
      0x2580, 0x2584, 0x2588, 0x258c, 0x2590, 0x2591, 0x2592, 0x2593, 0x2320, 0x25a0, 0x2219,
      0x221a, 0x2248, 0x2264, 0x2265, 0xa0, 0x2321, 0xb0, 0xb2, 0xb7, 0xf7, 0x2550, 0x2551,
      0x2552, 0x451, 0x454, 0x2554, 0x456, 0x457, 0x2557, 0x2558, 0x2559, 0x255a, 0x255b, 0x491,
      0x255d, 0x255e, 0x255f, 0x2560, 0x2561, 0x401, 0x404, 0x2563, 0x406, 0x407, 0x2566, 0x2567,
      0x2568, 0x2569, 0x256a, 0x490, 0x256c, 0xa9, 0x44e, 0x430, 0x431, 0x446, 0x434, 0x435,
      0x444, 0x433, 0x445, 0x438, 0x439, 0x43a, 0x43b, 0x43c, 0x43d, 0x43e, 0x43f, 0x44f, 0x440,
      0x441, 0x442, 0x443, 0x436, 0x432, 0x44c, 0x44b, 0x437, 0x448, 0x44d, 0x449, 0x447, 0x44a,
      0x42e, 0x410, 0x411, 0x426, 0x414, 0x415, 0x424, 0x413, 0x425, 0x418, 0x419, 0x41a, 0x41b,
      0x41c, 0x41d, 0x41e, 0x41f, 0x42f, 0x420, 0x421, 0x422, 0x423, 0x416, 0x412, 0x42c, 0x42b,
      0x417, 0x428, 0x42d, 0x429, 0x427, 0x42a],
     c16tomb_c16 =
      [0xa0, 0xa9, 0xb0, 0xb2, 0xb7, 0xf7, 0x401, 0x404, 0x406, 0x407, 0x410, 0x411, 0x412, 0x413,
      0x414, 0x415, 0x416, 0x417, 0x418, 0x419, 0x41a, 0x41b, 0x41c, 0x41d, 0x41e, 0x41f, 0x420,
      0x421, 0x422, 0x423, 0x424, 0x425, 0x426, 0x427, 0x428, 0x429, 0x42a, 0x42b, 0x42c, 0x42d,
      0x42e, 0x42f, 0x430, 0x431, 0x432, 0x433, 0x434, 0x435, 0x436, 0x437, 0x438, 0x439, 0x43a,
      0x43b, 0x43c, 0x43d, 0x43e, 0x43f, 0x440, 0x441, 0x442, 0x443, 0x444, 0x445, 0x446, 0x447,
      0x448, 0x449, 0x44a, 0x44b, 0x44c, 0x44d, 0x44e, 0x44f, 0x451, 0x454, 0x456, 0x457, 0x490,
      0x491, 0x2219, 0x221a, 0x2248, 0x2264, 0x2265, 0x2320, 0x2321, 0x2500, 0x2502, 0x250c,
      0x2510, 0x2514, 0x2518, 0x251c, 0x2524, 0x252c, 0x2534, 0x253c, 0x2550, 0x2551, 0x2552,
      0x2554, 0x2557, 0x2558, 0x2559, 0x255a, 0x255b, 0x255d, 0x255e, 0x255f, 0x2560, 0x2561,
      0x2563, 0x2566, 0x2567, 0x2568, 0x2569, 0x256a, 0x256c, 0x2580, 0x2584, 0x2588, 0x258c,
      0x2590, 0x2591, 0x2592, 0x2593, 0x25a0],
     c16tomb_b =
      [0x9a, 0xbf, 0x9c, 0x9d, 0x9e, 0x9f, 0xb3, 0xb4, 0xb6, 0xb7, 0xe1, 0xe2, 0xf7, 0xe7, 0xe4,
      0xe5, 0xf6, 0xfa, 0xe9, 0xea, 0xeb, 0xec, 0xed, 0xee, 0xef, 0xf0, 0xf2, 0xf3, 0xf4, 0xf5,
      0xe6, 0xe8, 0xe3, 0xfe, 0xfb, 0xfd, 0xff, 0xf9, 0xf8, 0xfc, 0xe0, 0xf1, 0xc1, 0xc2, 0xd7,
      0xc7, 0xc4, 0xc5, 0xd6, 0xda, 0xc9, 0xca, 0xcb, 0xcc, 0xcd, 0xce, 0xcf, 0xd0, 0xd2, 0xd3,
      0xd4, 0xd5, 0xc6, 0xc8, 0xc3, 0xde, 0xdb, 0xdd, 0xdf, 0xd9, 0xd8, 0xdc, 0xc0, 0xd1, 0xa3,
      0xa4, 0xa6, 0xa7, 0xbd, 0xad, 0x95, 0x96, 0x97, 0x98, 0x99, 0x93, 0x9b, 0x80, 0x81, 0x82,
      0x83, 0x84, 0x85, 0x86, 0x87, 0x88, 0x89, 0x8a, 0xa0, 0xa1, 0xa2, 0xa5, 0xa8, 0xa9, 0xaa,
      0xab, 0xac, 0xae, 0xaf, 0xb0, 0xb1, 0xb2, 0xb5, 0xb8, 0xb9, 0xba, 0xbb, 0xbc, 0xbe, 0x8b,
      0x8c, 0x8d, 0x8e, 0x8f, 0x90, 0x91, 0x92, 0x94]\<rparr>"

definition asciiplus_windows_874 :: asciiplus where
  "asciiplus_windows_874 =
    \<lparr>mbtoc16 =
      [0x20ac, 0, 0, 0, 0, 0x2026, 0, 0, 0, 0, 0, 0, 0, 0, 0, 0, 0, 0x2018, 0x2019, 0x201c, 0x201d,
      0x2022, 0x2013, 0x2014, 0, 0, 0, 0, 0, 0, 0, 0, 0xa0, 0xe01, 0xe02, 0xe03, 0xe04, 0xe05,
      0xe06, 0xe07, 0xe08, 0xe09, 0xe0a, 0xe0b, 0xe0c, 0xe0d, 0xe0e, 0xe0f, 0xe10, 0xe11, 0xe12,
      0xe13, 0xe14, 0xe15, 0xe16, 0xe17, 0xe18, 0xe19, 0xe1a, 0xe1b, 0xe1c, 0xe1d, 0xe1e, 0xe1f,
      0xe20, 0xe21, 0xe22, 0xe23, 0xe24, 0xe25, 0xe26, 0xe27, 0xe28, 0xe29, 0xe2a, 0xe2b, 0xe2c,
      0xe2d, 0xe2e, 0xe2f, 0xe30, 0xe31, 0xe32, 0xe33, 0xe34, 0xe35, 0xe36, 0xe37, 0xe38, 0xe39,
      0xe3a, 0, 0, 0, 0, 0xe3f, 0xe40, 0xe41, 0xe42, 0xe43, 0xe44, 0xe45, 0xe46, 0xe47, 0xe48,
      0xe49, 0xe4a, 0xe4b, 0xe4c, 0xe4d, 0xe4e, 0xe4f, 0xe50, 0xe51, 0xe52, 0xe53, 0xe54, 0xe55,
      0xe56, 0xe57, 0xe58, 0xe59, 0xe5a, 0xe5b, 0, 0, 0, 0],
     c16tomb_c16 =
      [0, 0, 0, 0, 0, 0, 0, 0, 0, 0, 0, 0, 0, 0, 0, 0, 0, 0, 0, 0, 0, 0, 0, 0, 0, 0, 0, 0, 0, 0, 0,
      0xa0, 0xe01, 0xe02, 0xe03, 0xe04, 0xe05, 0xe06, 0xe07, 0xe08, 0xe09, 0xe0a, 0xe0b, 0xe0c,
      0xe0d, 0xe0e, 0xe0f, 0xe10, 0xe11, 0xe12, 0xe13, 0xe14, 0xe15, 0xe16, 0xe17, 0xe18, 0xe19,
      0xe1a, 0xe1b, 0xe1c, 0xe1d, 0xe1e, 0xe1f, 0xe20, 0xe21, 0xe22, 0xe23, 0xe24, 0xe25, 0xe26,
      0xe27, 0xe28, 0xe29, 0xe2a, 0xe2b, 0xe2c, 0xe2d, 0xe2e, 0xe2f, 0xe30, 0xe31, 0xe32, 0xe33,
      0xe34, 0xe35, 0xe36, 0xe37, 0xe38, 0xe39, 0xe3a, 0xe3f, 0xe40, 0xe41, 0xe42, 0xe43, 0xe44,
      0xe45, 0xe46, 0xe47, 0xe48, 0xe49, 0xe4a, 0xe4b, 0xe4c, 0xe4d, 0xe4e, 0xe4f, 0xe50, 0xe51,
      0xe52, 0xe53, 0xe54, 0xe55, 0xe56, 0xe57, 0xe58, 0xe59, 0xe5a, 0xe5b, 0x2013, 0x2014,
      0x2018, 0x2019, 0x201c, 0x201d, 0x2022, 0x2026, 0x20ac],
     c16tomb_b =
      [0x81, 0x82, 0x83, 0x84, 0x86, 0x87, 0x88, 0x89, 0x8a, 0x8b, 0x8c, 0x8d, 0x8e, 0x8f, 0x90,
      0x98, 0x99, 0x9a, 0x9b, 0x9c, 0x9d, 0x9e, 0x9f, 0xdb, 0xdc, 0xdd, 0xde, 0xfc, 0xfd, 0xfe,
      0xff, 0xa0, 0xa1, 0xa2, 0xa3, 0xa4, 0xa5, 0xa6, 0xa7, 0xa8, 0xa9, 0xaa, 0xab, 0xac, 0xad,
      0xae, 0xaf, 0xb0, 0xb1, 0xb2, 0xb3, 0xb4, 0xb5, 0xb6, 0xb7, 0xb8, 0xb9, 0xba, 0xbb, 0xbc,
      0xbd, 0xbe, 0xbf, 0xc0, 0xc1, 0xc2, 0xc3, 0xc4, 0xc5, 0xc6, 0xc7, 0xc8, 0xc9, 0xca, 0xcb,
      0xcc, 0xcd, 0xce, 0xcf, 0xd0, 0xd1, 0xd2, 0xd3, 0xd4, 0xd5, 0xd6, 0xd7, 0xd8, 0xd9, 0xda,
      0xdf, 0xe0, 0xe1, 0xe2, 0xe3, 0xe4, 0xe5, 0xe6, 0xe7, 0xe8, 0xe9, 0xea, 0xeb, 0xec, 0xed,
      0xee, 0xef, 0xf0, 0xf1, 0xf2, 0xf3, 0xf4, 0xf5, 0xf6, 0xf7, 0xf8, 0xf9, 0xfa, 0xfb, 0x96,
      0x97, 0x91, 0x92, 0x93, 0x94, 0x95, 0x85, 0x80]\<rparr>"

definition asciiplus_windows_1250 :: asciiplus where
  "asciiplus_windows_1250 =
    \<lparr>mbtoc16 =
      [0x20ac, 0, 0x201a, 0, 0x201e, 0x2026, 0x2020, 0x2021, 0, 0x2030, 0x160, 0x2039, 0x15a,
      0x164, 0x17d, 0x179, 0, 0x2018, 0x2019, 0x201c, 0x201d, 0x2022, 0x2013, 0x2014, 0, 0x2122,
      0x161, 0x203a, 0x15b, 0x165, 0x17e, 0x17a, 0xa0, 0x2c7, 0x2d8, 0x141, 0xa4, 0x104, 0xa6,
      0xa7, 0xa8, 0xa9, 0x15e, 0xab, 0xac, 0xad, 0xae, 0x17b, 0xb0, 0xb1, 0x2db, 0x142, 0xb4,
      0xb5, 0xb6, 0xb7, 0xb8, 0x105, 0x15f, 0xbb, 0x13d, 0x2dd, 0x13e, 0x17c, 0x154, 0xc1, 0xc2,
      0x102, 0xc4, 0x139, 0x106, 0xc7, 0x10c, 0xc9, 0x118, 0xcb, 0x11a, 0xcd, 0xce, 0x10e, 0x110,
      0x143, 0x147, 0xd3, 0xd4, 0x150, 0xd6, 0xd7, 0x158, 0x16e, 0xda, 0x170, 0xdc, 0xdd, 0x162,
      0xdf, 0x155, 0xe1, 0xe2, 0x103, 0xe4, 0x13a, 0x107, 0xe7, 0x10d, 0xe9, 0x119, 0xeb, 0x11b,
      0xed, 0xee, 0x10f, 0x111, 0x144, 0x148, 0xf3, 0xf4, 0x151, 0xf6, 0xf7, 0x159, 0x16f, 0xfa,
      0x171, 0xfc, 0xfd, 0x163, 0x2d9],
     c16tomb_c16 =
      [0, 0, 0, 0, 0, 0xa0, 0xa4, 0xa6, 0xa7, 0xa8, 0xa9, 0xab, 0xac, 0xad, 0xae, 0xb0, 0xb1, 0xb4,
      0xb5, 0xb6, 0xb7, 0xb8, 0xbb, 0xc1, 0xc2, 0xc4, 0xc7, 0xc9, 0xcb, 0xcd, 0xce, 0xd3, 0xd4,
      0xd6, 0xd7, 0xda, 0xdc, 0xdd, 0xdf, 0xe1, 0xe2, 0xe4, 0xe7, 0xe9, 0xeb, 0xed, 0xee, 0xf3,
      0xf4, 0xf6, 0xf7, 0xfa, 0xfc, 0xfd, 0x102, 0x103, 0x104, 0x105, 0x106, 0x107, 0x10c, 0x10d,
      0x10e, 0x10f, 0x110, 0x111, 0x118, 0x119, 0x11a, 0x11b, 0x139, 0x13a, 0x13d, 0x13e, 0x141,
      0x142, 0x143, 0x144, 0x147, 0x148, 0x150, 0x151, 0x154, 0x155, 0x158, 0x159, 0x15a, 0x15b,
      0x15e, 0x15f, 0x160, 0x161, 0x162, 0x163, 0x164, 0x165, 0x16e, 0x16f, 0x170, 0x171, 0x179,
      0x17a, 0x17b, 0x17c, 0x17d, 0x17e, 0x2c7, 0x2d8, 0x2d9, 0x2db, 0x2dd, 0x2013, 0x2014,
      0x2018, 0x2019, 0x201a, 0x201c, 0x201d, 0x201e, 0x2020, 0x2021, 0x2022, 0x2026, 0x2030,
      0x2039, 0x203a, 0x20ac, 0x2122],
     c16tomb_b =
      [0x81, 0x83, 0x88, 0x90, 0x98, 0xa0, 0xa4, 0xa6, 0xa7, 0xa8, 0xa9, 0xab, 0xac, 0xad, 0xae,
      0xb0, 0xb1, 0xb4, 0xb5, 0xb6, 0xb7, 0xb8, 0xbb, 0xc1, 0xc2, 0xc4, 0xc7, 0xc9, 0xcb, 0xcd,
      0xce, 0xd3, 0xd4, 0xd6, 0xd7, 0xda, 0xdc, 0xdd, 0xdf, 0xe1, 0xe2, 0xe4, 0xe7, 0xe9, 0xeb,
      0xed, 0xee, 0xf3, 0xf4, 0xf6, 0xf7, 0xfa, 0xfc, 0xfd, 0xc3, 0xe3, 0xa5, 0xb9, 0xc6, 0xe6,
      0xc8, 0xe8, 0xcf, 0xef, 0xd0, 0xf0, 0xca, 0xea, 0xcc, 0xec, 0xc5, 0xe5, 0xbc, 0xbe, 0xa3,
      0xb3, 0xd1, 0xf1, 0xd2, 0xf2, 0xd5, 0xf5, 0xc0, 0xe0, 0xd8, 0xf8, 0x8c, 0x9c, 0xaa, 0xba,
      0x8a, 0x9a, 0xde, 0xfe, 0x8d, 0x9d, 0xd9, 0xf9, 0xdb, 0xfb, 0x8f, 0x9f, 0xaf, 0xbf, 0x8e,
      0x9e, 0xa1, 0xa2, 0xff, 0xb2, 0xbd, 0x96, 0x97, 0x91, 0x92, 0x82, 0x93, 0x94, 0x84, 0x86,
      0x87, 0x95, 0x85, 0x89, 0x8b, 0x9b, 0x80, 0x99]\<rparr>"

definition asciiplus_windows_1251 :: asciiplus where
  "asciiplus_windows_1251 =
    \<lparr>mbtoc16 =
      [0x402, 0x403, 0x201a, 0x453, 0x201e, 0x2026, 0x2020, 0x2021, 0x20ac, 0x2030, 0x409, 0x2039,
      0x40a, 0x40c, 0x40b, 0x40f, 0x452, 0x2018, 0x2019, 0x201c, 0x201d, 0x2022, 0x2013, 0x2014,
      0, 0x2122, 0x459, 0x203a, 0x45a, 0x45c, 0x45b, 0x45f, 0xa0, 0x40e, 0x45e, 0x408, 0xa4,
      0x490, 0xa6, 0xa7, 0x401, 0xa9, 0x404, 0xab, 0xac, 0xad, 0xae, 0x407, 0xb0, 0xb1, 0x406,
      0x456, 0x491, 0xb5, 0xb6, 0xb7, 0x451, 0x2116, 0x454, 0xbb, 0x458, 0x405, 0x455, 0x457,
      0x410, 0x411, 0x412, 0x413, 0x414, 0x415, 0x416, 0x417, 0x418, 0x419, 0x41a, 0x41b, 0x41c,
      0x41d, 0x41e, 0x41f, 0x420, 0x421, 0x422, 0x423, 0x424, 0x425, 0x426, 0x427, 0x428, 0x429,
      0x42a, 0x42b, 0x42c, 0x42d, 0x42e, 0x42f, 0x430, 0x431, 0x432, 0x433, 0x434, 0x435, 0x436,
      0x437, 0x438, 0x439, 0x43a, 0x43b, 0x43c, 0x43d, 0x43e, 0x43f, 0x440, 0x441, 0x442, 0x443,
      0x444, 0x445, 0x446, 0x447, 0x448, 0x449, 0x44a, 0x44b, 0x44c, 0x44d, 0x44e, 0x44f],
     c16tomb_c16 =
      [0, 0xa0, 0xa4, 0xa6, 0xa7, 0xa9, 0xab, 0xac, 0xad, 0xae, 0xb0, 0xb1, 0xb5, 0xb6, 0xb7, 0xbb,
      0x401, 0x402, 0x403, 0x404, 0x405, 0x406, 0x407, 0x408, 0x409, 0x40a, 0x40b, 0x40c, 0x40e,
      0x40f, 0x410, 0x411, 0x412, 0x413, 0x414, 0x415, 0x416, 0x417, 0x418, 0x419, 0x41a, 0x41b,
      0x41c, 0x41d, 0x41e, 0x41f, 0x420, 0x421, 0x422, 0x423, 0x424, 0x425, 0x426, 0x427, 0x428,
      0x429, 0x42a, 0x42b, 0x42c, 0x42d, 0x42e, 0x42f, 0x430, 0x431, 0x432, 0x433, 0x434, 0x435,
      0x436, 0x437, 0x438, 0x439, 0x43a, 0x43b, 0x43c, 0x43d, 0x43e, 0x43f, 0x440, 0x441, 0x442,
      0x443, 0x444, 0x445, 0x446, 0x447, 0x448, 0x449, 0x44a, 0x44b, 0x44c, 0x44d, 0x44e, 0x44f,
      0x451, 0x452, 0x453, 0x454, 0x455, 0x456, 0x457, 0x458, 0x459, 0x45a, 0x45b, 0x45c, 0x45e,
      0x45f, 0x490, 0x491, 0x2013, 0x2014, 0x2018, 0x2019, 0x201a, 0x201c, 0x201d, 0x201e, 0x2020,
      0x2021, 0x2022, 0x2026, 0x2030, 0x2039, 0x203a, 0x20ac, 0x2116, 0x2122],
     c16tomb_b =
      [0x98, 0xa0, 0xa4, 0xa6, 0xa7, 0xa9, 0xab, 0xac, 0xad, 0xae, 0xb0, 0xb1, 0xb5, 0xb6, 0xb7,
      0xbb, 0xa8, 0x80, 0x81, 0xaa, 0xbd, 0xb2, 0xaf, 0xa3, 0x8a, 0x8c, 0x8e, 0x8d, 0xa1, 0x8f,
      0xc0, 0xc1, 0xc2, 0xc3, 0xc4, 0xc5, 0xc6, 0xc7, 0xc8, 0xc9, 0xca, 0xcb, 0xcc, 0xcd, 0xce,
      0xcf, 0xd0, 0xd1, 0xd2, 0xd3, 0xd4, 0xd5, 0xd6, 0xd7, 0xd8, 0xd9, 0xda, 0xdb, 0xdc, 0xdd,
      0xde, 0xdf, 0xe0, 0xe1, 0xe2, 0xe3, 0xe4, 0xe5, 0xe6, 0xe7, 0xe8, 0xe9, 0xea, 0xeb, 0xec,
      0xed, 0xee, 0xef, 0xf0, 0xf1, 0xf2, 0xf3, 0xf4, 0xf5, 0xf6, 0xf7, 0xf8, 0xf9, 0xfa, 0xfb,
      0xfc, 0xfd, 0xfe, 0xff, 0xb8, 0x90, 0x83, 0xba, 0xbe, 0xb3, 0xbf, 0xbc, 0x9a, 0x9c, 0x9e,
      0x9d, 0xa2, 0x9f, 0xa5, 0xb4, 0x96, 0x97, 0x91, 0x92, 0x82, 0x93, 0x94, 0x84, 0x86, 0x87,
      0x95, 0x85, 0x89, 0x8b, 0x9b, 0x88, 0xb9, 0x99]\<rparr>"

definition asciiplus_windows_1252 :: asciiplus where
  "asciiplus_windows_1252 =
    \<lparr>mbtoc16 =
      [0x20ac, 0, 0x201a, 0x192, 0x201e, 0x2026, 0x2020, 0x2021, 0x2c6, 0x2030, 0x160, 0x2039,
      0x152, 0, 0x17d, 0, 0, 0x2018, 0x2019, 0x201c, 0x201d, 0x2022, 0x2013, 0x2014, 0x2dc,
      0x2122, 0x161, 0x203a, 0x153, 0, 0x17e, 0x178, 0xa0, 0xa1, 0xa2, 0xa3, 0xa4, 0xa5, 0xa6,
      0xa7, 0xa8, 0xa9, 0xaa, 0xab, 0xac, 0xad, 0xae, 0xaf, 0xb0, 0xb1, 0xb2, 0xb3, 0xb4, 0xb5,
      0xb6, 0xb7, 0xb8, 0xb9, 0xba, 0xbb, 0xbc, 0xbd, 0xbe, 0xbf, 0xc0, 0xc1, 0xc2, 0xc3, 0xc4,
      0xc5, 0xc6, 0xc7, 0xc8, 0xc9, 0xca, 0xcb, 0xcc, 0xcd, 0xce, 0xcf, 0xd0, 0xd1, 0xd2, 0xd3,
      0xd4, 0xd5, 0xd6, 0xd7, 0xd8, 0xd9, 0xda, 0xdb, 0xdc, 0xdd, 0xde, 0xdf, 0xe0, 0xe1, 0xe2,
      0xe3, 0xe4, 0xe5, 0xe6, 0xe7, 0xe8, 0xe9, 0xea, 0xeb, 0xec, 0xed, 0xee, 0xef, 0xf0, 0xf1,
      0xf2, 0xf3, 0xf4, 0xf5, 0xf6, 0xf7, 0xf8, 0xf9, 0xfa, 0xfb, 0xfc, 0xfd, 0xfe, 0xff],
     c16tomb_c16 =
      [0, 0, 0, 0, 0, 0xa0, 0xa1, 0xa2, 0xa3, 0xa4, 0xa5, 0xa6, 0xa7, 0xa8, 0xa9, 0xaa, 0xab, 0xac,
      0xad, 0xae, 0xaf, 0xb0, 0xb1, 0xb2, 0xb3, 0xb4, 0xb5, 0xb6, 0xb7, 0xb8, 0xb9, 0xba, 0xbb,
      0xbc, 0xbd, 0xbe, 0xbf, 0xc0, 0xc1, 0xc2, 0xc3, 0xc4, 0xc5, 0xc6, 0xc7, 0xc8, 0xc9, 0xca,
      0xcb, 0xcc, 0xcd, 0xce, 0xcf, 0xd0, 0xd1, 0xd2, 0xd3, 0xd4, 0xd5, 0xd6, 0xd7, 0xd8, 0xd9,
      0xda, 0xdb, 0xdc, 0xdd, 0xde, 0xdf, 0xe0, 0xe1, 0xe2, 0xe3, 0xe4, 0xe5, 0xe6, 0xe7, 0xe8,
      0xe9, 0xea, 0xeb, 0xec, 0xed, 0xee, 0xef, 0xf0, 0xf1, 0xf2, 0xf3, 0xf4, 0xf5, 0xf6, 0xf7,
      0xf8, 0xf9, 0xfa, 0xfb, 0xfc, 0xfd, 0xfe, 0xff, 0x152, 0x153, 0x160, 0x161, 0x178, 0x17d,
      0x17e, 0x192, 0x2c6, 0x2dc, 0x2013, 0x2014, 0x2018, 0x2019, 0x201a, 0x201c, 0x201d, 0x201e,
      0x2020, 0x2021, 0x2022, 0x2026, 0x2030, 0x2039, 0x203a, 0x20ac, 0x2122],
     c16tomb_b =
      [0x81, 0x8d, 0x8f, 0x90, 0x9d, 0xa0, 0xa1, 0xa2, 0xa3, 0xa4, 0xa5, 0xa6, 0xa7, 0xa8, 0xa9,
      0xaa, 0xab, 0xac, 0xad, 0xae, 0xaf, 0xb0, 0xb1, 0xb2, 0xb3, 0xb4, 0xb5, 0xb6, 0xb7, 0xb8,
      0xb9, 0xba, 0xbb, 0xbc, 0xbd, 0xbe, 0xbf, 0xc0, 0xc1, 0xc2, 0xc3, 0xc4, 0xc5, 0xc6, 0xc7,
      0xc8, 0xc9, 0xca, 0xcb, 0xcc, 0xcd, 0xce, 0xcf, 0xd0, 0xd1, 0xd2, 0xd3, 0xd4, 0xd5, 0xd6,
      0xd7, 0xd8, 0xd9, 0xda, 0xdb, 0xdc, 0xdd, 0xde, 0xdf, 0xe0, 0xe1, 0xe2, 0xe3, 0xe4, 0xe5,
      0xe6, 0xe7, 0xe8, 0xe9, 0xea, 0xeb, 0xec, 0xed, 0xee, 0xef, 0xf0, 0xf1, 0xf2, 0xf3, 0xf4,
      0xf5, 0xf6, 0xf7, 0xf8, 0xf9, 0xfa, 0xfb, 0xfc, 0xfd, 0xfe, 0xff, 0x8c, 0x9c, 0x8a, 0x9a,
      0x9f, 0x8e, 0x9e, 0x83, 0x88, 0x98, 0x96, 0x97, 0x91, 0x92, 0x82, 0x93, 0x94, 0x84, 0x86,
      0x87, 0x95, 0x85, 0x89, 0x8b, 0x9b, 0x80, 0x99]\<rparr>"

definition asciiplus_windows_1253 :: asciiplus where
  "asciiplus_windows_1253 =
    \<lparr>mbtoc16 =
      [0x20ac, 0, 0x201a, 0x192, 0x201e, 0x2026, 0x2020, 0x2021, 0, 0x2030, 0, 0x2039, 0, 0, 0, 0,
      0, 0x2018, 0x2019, 0x201c, 0x201d, 0x2022, 0x2013, 0x2014, 0, 0x2122, 0, 0x203a, 0, 0, 0, 0,
      0xa0, 0x385, 0x386, 0xa3, 0xa4, 0xa5, 0xa6, 0xa7, 0xa8, 0xa9, 0, 0xab, 0xac, 0xad, 0xae,
      0x2015, 0xb0, 0xb1, 0xb2, 0xb3, 0x384, 0xb5, 0xb6, 0xb7, 0x388, 0x389, 0x38a, 0xbb, 0x38c,
      0xbd, 0x38e, 0x38f, 0x390, 0x391, 0x392, 0x393, 0x394, 0x395, 0x396, 0x397, 0x398, 0x399,
      0x39a, 0x39b, 0x39c, 0x39d, 0x39e, 0x39f, 0x3a0, 0x3a1, 0, 0x3a3, 0x3a4, 0x3a5, 0x3a6,
      0x3a7, 0x3a8, 0x3a9, 0x3aa, 0x3ab, 0x3ac, 0x3ad, 0x3ae, 0x3af, 0x3b0, 0x3b1, 0x3b2, 0x3b3,
      0x3b4, 0x3b5, 0x3b6, 0x3b7, 0x3b8, 0x3b9, 0x3ba, 0x3bb, 0x3bc, 0x3bd, 0x3be, 0x3bf, 0x3c0,
      0x3c1, 0x3c2, 0x3c3, 0x3c4, 0x3c5, 0x3c6, 0x3c7, 0x3c8, 0x3c9, 0x3ca, 0x3cb, 0x3cc, 0x3cd,
      0x3ce, 0],
     c16tomb_c16 =
      [0, 0, 0, 0, 0, 0, 0, 0, 0, 0, 0, 0, 0, 0, 0, 0, 0, 0xa0, 0xa3, 0xa4, 0xa5, 0xa6, 0xa7, 0xa8,
      0xa9, 0xab, 0xac, 0xad, 0xae, 0xb0, 0xb1, 0xb2, 0xb3, 0xb5, 0xb6, 0xb7, 0xbb, 0xbd, 0x192,
      0x384, 0x385, 0x386, 0x388, 0x389, 0x38a, 0x38c, 0x38e, 0x38f, 0x390, 0x391, 0x392, 0x393,
      0x394, 0x395, 0x396, 0x397, 0x398, 0x399, 0x39a, 0x39b, 0x39c, 0x39d, 0x39e, 0x39f, 0x3a0,
      0x3a1, 0x3a3, 0x3a4, 0x3a5, 0x3a6, 0x3a7, 0x3a8, 0x3a9, 0x3aa, 0x3ab, 0x3ac, 0x3ad, 0x3ae,
      0x3af, 0x3b0, 0x3b1, 0x3b2, 0x3b3, 0x3b4, 0x3b5, 0x3b6, 0x3b7, 0x3b8, 0x3b9, 0x3ba, 0x3bb,
      0x3bc, 0x3bd, 0x3be, 0x3bf, 0x3c0, 0x3c1, 0x3c2, 0x3c3, 0x3c4, 0x3c5, 0x3c6, 0x3c7, 0x3c8,
      0x3c9, 0x3ca, 0x3cb, 0x3cc, 0x3cd, 0x3ce, 0x2013, 0x2014, 0x2015, 0x2018, 0x2019, 0x201a,
      0x201c, 0x201d, 0x201e, 0x2020, 0x2021, 0x2022, 0x2026, 0x2030, 0x2039, 0x203a, 0x20ac,
      0x2122],
     c16tomb_b =
      [0x81, 0x88, 0x8a, 0x8c, 0x8d, 0x8e, 0x8f, 0x90, 0x98, 0x9a, 0x9c, 0x9d, 0x9e, 0x9f, 0xaa,
      0xd2, 0xff, 0xa0, 0xa3, 0xa4, 0xa5, 0xa6, 0xa7, 0xa8, 0xa9, 0xab, 0xac, 0xad, 0xae, 0xb0,
      0xb1, 0xb2, 0xb3, 0xb5, 0xb6, 0xb7, 0xbb, 0xbd, 0x83, 0xb4, 0xa1, 0xa2, 0xb8, 0xb9, 0xba,
      0xbc, 0xbe, 0xbf, 0xc0, 0xc1, 0xc2, 0xc3, 0xc4, 0xc5, 0xc6, 0xc7, 0xc8, 0xc9, 0xca, 0xcb,
      0xcc, 0xcd, 0xce, 0xcf, 0xd0, 0xd1, 0xd3, 0xd4, 0xd5, 0xd6, 0xd7, 0xd8, 0xd9, 0xda, 0xdb,
      0xdc, 0xdd, 0xde, 0xdf, 0xe0, 0xe1, 0xe2, 0xe3, 0xe4, 0xe5, 0xe6, 0xe7, 0xe8, 0xe9, 0xea,
      0xeb, 0xec, 0xed, 0xee, 0xef, 0xf0, 0xf1, 0xf2, 0xf3, 0xf4, 0xf5, 0xf6, 0xf7, 0xf8, 0xf9,
      0xfa, 0xfb, 0xfc, 0xfd, 0xfe, 0x96, 0x97, 0xaf, 0x91, 0x92, 0x82, 0x93, 0x94, 0x84, 0x86,
      0x87, 0x95, 0x85, 0x89, 0x8b, 0x9b, 0x80, 0x99]\<rparr>"

definition asciiplus_windows_1254 :: asciiplus where
  "asciiplus_windows_1254 =
    \<lparr>mbtoc16 =
      [0x20ac, 0, 0x201a, 0x192, 0x201e, 0x2026, 0x2020, 0x2021, 0x2c6, 0x2030, 0x160, 0x2039,
      0x152, 0, 0, 0, 0, 0x2018, 0x2019, 0x201c, 0x201d, 0x2022, 0x2013, 0x2014, 0x2dc, 0x2122,
      0x161, 0x203a, 0x153, 0, 0, 0x178, 0xa0, 0xa1, 0xa2, 0xa3, 0xa4, 0xa5, 0xa6, 0xa7, 0xa8,
      0xa9, 0xaa, 0xab, 0xac, 0xad, 0xae, 0xaf, 0xb0, 0xb1, 0xb2, 0xb3, 0xb4, 0xb5, 0xb6, 0xb7,
      0xb8, 0xb9, 0xba, 0xbb, 0xbc, 0xbd, 0xbe, 0xbf, 0xc0, 0xc1, 0xc2, 0xc3, 0xc4, 0xc5, 0xc6,
      0xc7, 0xc8, 0xc9, 0xca, 0xcb, 0xcc, 0xcd, 0xce, 0xcf, 0x11e, 0xd1, 0xd2, 0xd3, 0xd4, 0xd5,
      0xd6, 0xd7, 0xd8, 0xd9, 0xda, 0xdb, 0xdc, 0x130, 0x15e, 0xdf, 0xe0, 0xe1, 0xe2, 0xe3, 0xe4,
      0xe5, 0xe6, 0xe7, 0xe8, 0xe9, 0xea, 0xeb, 0xec, 0xed, 0xee, 0xef, 0x11f, 0xf1, 0xf2, 0xf3,
      0xf4, 0xf5, 0xf6, 0xf7, 0xf8, 0xf9, 0xfa, 0xfb, 0xfc, 0x131, 0x15f, 0xff],
     c16tomb_c16 =
      [0, 0, 0, 0, 0, 0, 0, 0xa0, 0xa1, 0xa2, 0xa3, 0xa4, 0xa5, 0xa6, 0xa7, 0xa8, 0xa9, 0xaa, 0xab,
      0xac, 0xad, 0xae, 0xaf, 0xb0, 0xb1, 0xb2, 0xb3, 0xb4, 0xb5, 0xb6, 0xb7, 0xb8, 0xb9, 0xba,
      0xbb, 0xbc, 0xbd, 0xbe, 0xbf, 0xc0, 0xc1, 0xc2, 0xc3, 0xc4, 0xc5, 0xc6, 0xc7, 0xc8, 0xc9,
      0xca, 0xcb, 0xcc, 0xcd, 0xce, 0xcf, 0xd1, 0xd2, 0xd3, 0xd4, 0xd5, 0xd6, 0xd7, 0xd8, 0xd9,
      0xda, 0xdb, 0xdc, 0xdf, 0xe0, 0xe1, 0xe2, 0xe3, 0xe4, 0xe5, 0xe6, 0xe7, 0xe8, 0xe9, 0xea,
      0xeb, 0xec, 0xed, 0xee, 0xef, 0xf1, 0xf2, 0xf3, 0xf4, 0xf5, 0xf6, 0xf7, 0xf8, 0xf9, 0xfa,
      0xfb, 0xfc, 0xff, 0x11e, 0x11f, 0x130, 0x131, 0x152, 0x153, 0x15e, 0x15f, 0x160, 0x161,
      0x178, 0x192, 0x2c6, 0x2dc, 0x2013, 0x2014, 0x2018, 0x2019, 0x201a, 0x201c, 0x201d, 0x201e,
      0x2020, 0x2021, 0x2022, 0x2026, 0x2030, 0x2039, 0x203a, 0x20ac, 0x2122],
     c16tomb_b =
      [0x81, 0x8d, 0x8e, 0x8f, 0x90, 0x9d, 0x9e, 0xa0, 0xa1, 0xa2, 0xa3, 0xa4, 0xa5, 0xa6, 0xa7,
      0xa8, 0xa9, 0xaa, 0xab, 0xac, 0xad, 0xae, 0xaf, 0xb0, 0xb1, 0xb2, 0xb3, 0xb4, 0xb5, 0xb6,
      0xb7, 0xb8, 0xb9, 0xba, 0xbb, 0xbc, 0xbd, 0xbe, 0xbf, 0xc0, 0xc1, 0xc2, 0xc3, 0xc4, 0xc5,
      0xc6, 0xc7, 0xc8, 0xc9, 0xca, 0xcb, 0xcc, 0xcd, 0xce, 0xcf, 0xd1, 0xd2, 0xd3, 0xd4, 0xd5,
      0xd6, 0xd7, 0xd8, 0xd9, 0xda, 0xdb, 0xdc, 0xdf, 0xe0, 0xe1, 0xe2, 0xe3, 0xe4, 0xe5, 0xe6,
      0xe7, 0xe8, 0xe9, 0xea, 0xeb, 0xec, 0xed, 0xee, 0xef, 0xf1, 0xf2, 0xf3, 0xf4, 0xf5, 0xf6,
      0xf7, 0xf8, 0xf9, 0xfa, 0xfb, 0xfc, 0xff, 0xd0, 0xf0, 0xdd, 0xfd, 0x8c, 0x9c, 0xde, 0xfe,
      0x8a, 0x9a, 0x9f, 0x83, 0x88, 0x98, 0x96, 0x97, 0x91, 0x92, 0x82, 0x93, 0x94, 0x84, 0x86,
      0x87, 0x95, 0x85, 0x89, 0x8b, 0x9b, 0x80, 0x99]\<rparr>"

definition asciiplus_windows_1255 :: asciiplus where
  "asciiplus_windows_1255 =
    \<lparr>mbtoc16 =
      [0x20ac, 0, 0x201a, 0x192, 0x201e, 0x2026, 0x2020, 0x2021, 0x2c6, 0x2030, 0, 0x2039, 0, 0, 0,
      0, 0, 0x2018, 0x2019, 0x201c, 0x201d, 0x2022, 0x2013, 0x2014, 0x2dc, 0x2122, 0, 0x203a, 0,
      0, 0, 0, 0xa0, 0xa1, 0xa2, 0xa3, 0x20aa, 0xa5, 0xa6, 0xa7, 0xa8, 0xa9, 0xd7, 0xab, 0xac,
      0xad, 0xae, 0xaf, 0xb0, 0xb1, 0xb2, 0xb3, 0xb4, 0xb5, 0xb6, 0xb7, 0xb8, 0xb9, 0xf7, 0xbb,
      0xbc, 0xbd, 0xbe, 0xbf, 0x5b0, 0x5b1, 0x5b2, 0x5b3, 0x5b4, 0x5b5, 0x5b6, 0x5b7, 0x5b8,
      0x5b9, 0, 0x5bb, 0x5bc, 0x5bd, 0x5be, 0x5bf, 0x5c0, 0x5c1, 0x5c2, 0x5c3, 0x5f0, 0x5f1,
      0x5f2, 0x5f3, 0x5f4, 0, 0, 0, 0, 0, 0, 0, 0x5d0, 0x5d1, 0x5d2, 0x5d3, 0x5d4, 0x5d5, 0x5d6,
      0x5d7, 0x5d8, 0x5d9, 0x5da, 0x5db, 0x5dc, 0x5dd, 0x5de, 0x5df, 0x5e0, 0x5e1, 0x5e2, 0x5e3,
      0x5e4, 0x5e5, 0x5e6, 0x5e7, 0x5e8, 0x5e9, 0x5ea, 0, 0, 0x200e, 0x200f, 0],
     c16tomb_c16 =
      [0, 0, 0, 0, 0, 0, 0, 0, 0, 0, 0, 0, 0, 0, 0, 0, 0, 0, 0, 0, 0, 0, 0, 0xa0, 0xa1, 0xa2, 0xa3,
      0xa5, 0xa6, 0xa7, 0xa8, 0xa9, 0xab, 0xac, 0xad, 0xae, 0xaf, 0xb0, 0xb1, 0xb2, 0xb3, 0xb4,
      0xb5, 0xb6, 0xb7, 0xb8, 0xb9, 0xbb, 0xbc, 0xbd, 0xbe, 0xbf, 0xd7, 0xf7, 0x192, 0x2c6, 0x2dc,
      0x5b0, 0x5b1, 0x5b2, 0x5b3, 0x5b4, 0x5b5, 0x5b6, 0x5b7, 0x5b8, 0x5b9, 0x5bb, 0x5bc, 0x5bd,
      0x5be, 0x5bf, 0x5c0, 0x5c1, 0x5c2, 0x5c3, 0x5d0, 0x5d1, 0x5d2, 0x5d3, 0x5d4, 0x5d5, 0x5d6,
      0x5d7, 0x5d8, 0x5d9, 0x5da, 0x5db, 0x5dc, 0x5dd, 0x5de, 0x5df, 0x5e0, 0x5e1, 0x5e2, 0x5e3,
      0x5e4, 0x5e5, 0x5e6, 0x5e7, 0x5e8, 0x5e9, 0x5ea, 0x5f0, 0x5f1, 0x5f2, 0x5f3, 0x5f4, 0x200e,
      0x200f, 0x2013, 0x2014, 0x2018, 0x2019, 0x201a, 0x201c, 0x201d, 0x201e, 0x2020, 0x2021,
      0x2022, 0x2026, 0x2030, 0x2039, 0x203a, 0x20aa, 0x20ac, 0x2122],
     c16tomb_b =
      [0x81, 0x8a, 0x8c, 0x8d, 0x8e, 0x8f, 0x90, 0x9a, 0x9c, 0x9d, 0x9e, 0x9f, 0xca, 0xd9, 0xda,
      0xdb, 0xdc, 0xdd, 0xde, 0xdf, 0xfb, 0xfc, 0xff, 0xa0, 0xa1, 0xa2, 0xa3, 0xa5, 0xa6, 0xa7,
      0xa8, 0xa9, 0xab, 0xac, 0xad, 0xae, 0xaf, 0xb0, 0xb1, 0xb2, 0xb3, 0xb4, 0xb5, 0xb6, 0xb7,
      0xb8, 0xb9, 0xbb, 0xbc, 0xbd, 0xbe, 0xbf, 0xaa, 0xba, 0x83, 0x88, 0x98, 0xc0, 0xc1, 0xc2,
      0xc3, 0xc4, 0xc5, 0xc6, 0xc7, 0xc8, 0xc9, 0xcb, 0xcc, 0xcd, 0xce, 0xcf, 0xd0, 0xd1, 0xd2,
      0xd3, 0xe0, 0xe1, 0xe2, 0xe3, 0xe4, 0xe5, 0xe6, 0xe7, 0xe8, 0xe9, 0xea, 0xeb, 0xec, 0xed,
      0xee, 0xef, 0xf0, 0xf1, 0xf2, 0xf3, 0xf4, 0xf5, 0xf6, 0xf7, 0xf8, 0xf9, 0xfa, 0xd4, 0xd5,
      0xd6, 0xd7, 0xd8, 0xfd, 0xfe, 0x96, 0x97, 0x91, 0x92, 0x82, 0x93, 0x94, 0x84, 0x86, 0x87,
      0x95, 0x85, 0x89, 0x8b, 0x9b, 0xa4, 0x80, 0x99]\<rparr>"

definition asciiplus_windows_1256 :: asciiplus where
  "asciiplus_windows_1256 =
    \<lparr>mbtoc16 =
      [0x20ac, 0x67e, 0x201a, 0x192, 0x201e, 0x2026, 0x2020, 0x2021, 0x2c6, 0x2030, 0x679, 0x2039,
      0x152, 0x686, 0x698, 0x688, 0x6af, 0x2018, 0x2019, 0x201c, 0x201d, 0x2022, 0x2013, 0x2014,
      0x6a9, 0x2122, 0x691, 0x203a, 0x153, 0x200c, 0x200d, 0x6ba, 0xa0, 0x60c, 0xa2, 0xa3, 0xa4,
      0xa5, 0xa6, 0xa7, 0xa8, 0xa9, 0x6be, 0xab, 0xac, 0xad, 0xae, 0xaf, 0xb0, 0xb1, 0xb2, 0xb3,
      0xb4, 0xb5, 0xb6, 0xb7, 0xb8, 0xb9, 0x61b, 0xbb, 0xbc, 0xbd, 0xbe, 0x61f, 0x6c1, 0x621,
      0x622, 0x623, 0x624, 0x625, 0x626, 0x627, 0x628, 0x629, 0x62a, 0x62b, 0x62c, 0x62d, 0x62e,
      0x62f, 0x630, 0x631, 0x632, 0x633, 0x634, 0x635, 0x636, 0xd7, 0x637, 0x638, 0x639, 0x63a,
      0x640, 0x641, 0x642, 0x643, 0xe0, 0x644, 0xe2, 0x645, 0x646, 0x647, 0x648, 0xe7, 0xe8, 0xe9,
      0xea, 0xeb, 0x649, 0x64a, 0xee, 0xef, 0x64b, 0x64c, 0x64d, 0x64e, 0xf4, 0x64f, 0x650, 0xf7,
      0x651, 0xf9, 0x652, 0xfb, 0xfc, 0x200e, 0x200f, 0x6d2],
     c16tomb_c16 =
      [0xa0, 0xa2, 0xa3, 0xa4, 0xa5, 0xa6, 0xa7, 0xa8, 0xa9, 0xab, 0xac, 0xad, 0xae, 0xaf, 0xb0,
      0xb1, 0xb2, 0xb3, 0xb4, 0xb5, 0xb6, 0xb7, 0xb8, 0xb9, 0xbb, 0xbc, 0xbd, 0xbe, 0xd7, 0xe0,
      0xe2, 0xe7, 0xe8, 0xe9, 0xea, 0xeb, 0xee, 0xef, 0xf4, 0xf7, 0xf9, 0xfb, 0xfc, 0x152, 0x153,
      0x192, 0x2c6, 0x60c, 0x61b, 0x61f, 0x621, 0x622, 0x623, 0x624, 0x625, 0x626, 0x627, 0x628,
      0x629, 0x62a, 0x62b, 0x62c, 0x62d, 0x62e, 0x62f, 0x630, 0x631, 0x632, 0x633, 0x634, 0x635,
      0x636, 0x637, 0x638, 0x639, 0x63a, 0x640, 0x641, 0x642, 0x643, 0x644, 0x645, 0x646, 0x647,
      0x648, 0x649, 0x64a, 0x64b, 0x64c, 0x64d, 0x64e, 0x64f, 0x650, 0x651, 0x652, 0x679, 0x67e,
      0x686, 0x688, 0x691, 0x698, 0x6a9, 0x6af, 0x6ba, 0x6be, 0x6c1, 0x6d2, 0x200c, 0x200d,
      0x200e, 0x200f, 0x2013, 0x2014, 0x2018, 0x2019, 0x201a, 0x201c, 0x201d, 0x201e, 0x2020,
      0x2021, 0x2022, 0x2026, 0x2030, 0x2039, 0x203a, 0x20ac, 0x2122],
     c16tomb_b =
      [0xa0, 0xa2, 0xa3, 0xa4, 0xa5, 0xa6, 0xa7, 0xa8, 0xa9, 0xab, 0xac, 0xad, 0xae, 0xaf, 0xb0,
      0xb1, 0xb2, 0xb3, 0xb4, 0xb5, 0xb6, 0xb7, 0xb8, 0xb9, 0xbb, 0xbc, 0xbd, 0xbe, 0xd7, 0xe0,
      0xe2, 0xe7, 0xe8, 0xe9, 0xea, 0xeb, 0xee, 0xef, 0xf4, 0xf7, 0xf9, 0xfb, 0xfc, 0x8c, 0x9c,
      0x83, 0x88, 0xa1, 0xba, 0xbf, 0xc1, 0xc2, 0xc3, 0xc4, 0xc5, 0xc6, 0xc7, 0xc8, 0xc9, 0xca,
      0xcb, 0xcc, 0xcd, 0xce, 0xcf, 0xd0, 0xd1, 0xd2, 0xd3, 0xd4, 0xd5, 0xd6, 0xd8, 0xd9, 0xda,
      0xdb, 0xdc, 0xdd, 0xde, 0xdf, 0xe1, 0xe3, 0xe4, 0xe5, 0xe6, 0xec, 0xed, 0xf0, 0xf1, 0xf2,
      0xf3, 0xf5, 0xf6, 0xf8, 0xfa, 0x8a, 0x81, 0x8d, 0x8f, 0x9a, 0x8e, 0x98, 0x90, 0x9f, 0xaa,
      0xc0, 0xff, 0x9d, 0x9e, 0xfd, 0xfe, 0x96, 0x97, 0x91, 0x92, 0x82, 0x93, 0x94, 0x84, 0x86,
      0x87, 0x95, 0x85, 0x89, 0x8b, 0x9b, 0x80, 0x99]\<rparr>"

definition asciiplus_windows_1257 :: asciiplus where
  "asciiplus_windows_1257 =
    \<lparr>mbtoc16 =
      [0x20ac, 0, 0x201a, 0, 0x201e, 0x2026, 0x2020, 0x2021, 0, 0x2030, 0, 0x2039, 0, 0xa8, 0x2c7,
      0xb8, 0, 0x2018, 0x2019, 0x201c, 0x201d, 0x2022, 0x2013, 0x2014, 0, 0x2122, 0, 0x203a, 0,
      0xaf, 0x2db, 0, 0xa0, 0, 0xa2, 0xa3, 0xa4, 0, 0xa6, 0xa7, 0xd8, 0xa9, 0x156, 0xab, 0xac,
      0xad, 0xae, 0xc6, 0xb0, 0xb1, 0xb2, 0xb3, 0xb4, 0xb5, 0xb6, 0xb7, 0xf8, 0xb9, 0x157, 0xbb,
      0xbc, 0xbd, 0xbe, 0xe6, 0x104, 0x12e, 0x100, 0x106, 0xc4, 0xc5, 0x118, 0x112, 0x10c, 0xc9,
      0x179, 0x116, 0x122, 0x136, 0x12a, 0x13b, 0x160, 0x143, 0x145, 0xd3, 0x14c, 0xd5, 0xd6,
      0xd7, 0x172, 0x141, 0x15a, 0x16a, 0xdc, 0x17b, 0x17d, 0xdf, 0x105, 0x12f, 0x101, 0x107,
      0xe4, 0xe5, 0x119, 0x113, 0x10d, 0xe9, 0x17a, 0x117, 0x123, 0x137, 0x12b, 0x13c, 0x161,
      0x144, 0x146, 0xf3, 0x14d, 0xf5, 0xf6, 0xf7, 0x173, 0x142, 0x15b, 0x16b, 0xfc, 0x17c, 0x17e,
      0x2d9],
     c16tomb_c16 =
      [0, 0, 0, 0, 0, 0, 0, 0, 0, 0, 0, 0, 0xa0, 0xa2, 0xa3, 0xa4, 0xa6, 0xa7, 0xa8, 0xa9, 0xab,
      0xac, 0xad, 0xae, 0xaf, 0xb0, 0xb1, 0xb2, 0xb3, 0xb4, 0xb5, 0xb6, 0xb7, 0xb8, 0xb9, 0xbb,
      0xbc, 0xbd, 0xbe, 0xc4, 0xc5, 0xc6, 0xc9, 0xd3, 0xd5, 0xd6, 0xd7, 0xd8, 0xdc, 0xdf, 0xe4,
      0xe5, 0xe6, 0xe9, 0xf3, 0xf5, 0xf6, 0xf7, 0xf8, 0xfc, 0x100, 0x101, 0x104, 0x105, 0x106,
      0x107, 0x10c, 0x10d, 0x112, 0x113, 0x116, 0x117, 0x118, 0x119, 0x122, 0x123, 0x12a, 0x12b,
      0x12e, 0x12f, 0x136, 0x137, 0x13b, 0x13c, 0x141, 0x142, 0x143, 0x144, 0x145, 0x146, 0x14c,
      0x14d, 0x156, 0x157, 0x15a, 0x15b, 0x160, 0x161, 0x16a, 0x16b, 0x172, 0x173, 0x179, 0x17a,
      0x17b, 0x17c, 0x17d, 0x17e, 0x2c7, 0x2d9, 0x2db, 0x2013, 0x2014, 0x2018, 0x2019, 0x201a,
      0x201c, 0x201d, 0x201e, 0x2020, 0x2021, 0x2022, 0x2026, 0x2030, 0x2039, 0x203a, 0x20ac,
      0x2122],
     c16tomb_b =
      [0x81, 0x83, 0x88, 0x8a, 0x8c, 0x90, 0x98, 0x9a, 0x9c, 0x9f, 0xa1, 0xa5, 0xa0, 0xa2, 0xa3,
      0xa4, 0xa6, 0xa7, 0x8d, 0xa9, 0xab, 0xac, 0xad, 0xae, 0x9d, 0xb0, 0xb1, 0xb2, 0xb3, 0xb4,
      0xb5, 0xb6, 0xb7, 0x8f, 0xb9, 0xbb, 0xbc, 0xbd, 0xbe, 0xc4, 0xc5, 0xaf, 0xc9, 0xd3, 0xd5,
      0xd6, 0xd7, 0xa8, 0xdc, 0xdf, 0xe4, 0xe5, 0xbf, 0xe9, 0xf3, 0xf5, 0xf6, 0xf7, 0xb8, 0xfc,
      0xc2, 0xe2, 0xc0, 0xe0, 0xc3, 0xe3, 0xc8, 0xe8, 0xc7, 0xe7, 0xcb, 0xeb, 0xc6, 0xe6, 0xcc,
      0xec, 0xce, 0xee, 0xc1, 0xe1, 0xcd, 0xed, 0xcf, 0xef, 0xd9, 0xf9, 0xd1, 0xf1, 0xd2, 0xf2,
      0xd4, 0xf4, 0xaa, 0xba, 0xda, 0xfa, 0xd0, 0xf0, 0xdb, 0xfb, 0xd8, 0xf8, 0xca, 0xea, 0xdd,
      0xfd, 0xde, 0xfe, 0x8e, 0xff, 0x9e, 0x96, 0x97, 0x91, 0x92, 0x82, 0x93, 0x94, 0x84, 0x86,
      0x87, 0x95, 0x85, 0x89, 0x8b, 0x9b, 0x80, 0x99]\<rparr>"

definition asciiplus_windows_1258 :: asciiplus where
  "asciiplus_windows_1258 =
    \<lparr>mbtoc16 =
      [0x20ac, 0, 0x201a, 0x192, 0x201e, 0x2026, 0x2020, 0x2021, 0x2c6, 0x2030, 0, 0x2039, 0x152,
      0, 0, 0, 0, 0x2018, 0x2019, 0x201c, 0x201d, 0x2022, 0x2013, 0x2014, 0x2dc, 0x2122, 0,
      0x203a, 0x153, 0, 0, 0x178, 0xa0, 0xa1, 0xa2, 0xa3, 0xa4, 0xa5, 0xa6, 0xa7, 0xa8, 0xa9,
      0xaa, 0xab, 0xac, 0xad, 0xae, 0xaf, 0xb0, 0xb1, 0xb2, 0xb3, 0xb4, 0xb5, 0xb6, 0xb7, 0xb8,
      0xb9, 0xba, 0xbb, 0xbc, 0xbd, 0xbe, 0xbf, 0xc0, 0xc1, 0xc2, 0x102, 0xc4, 0xc5, 0xc6, 0xc7,
      0xc8, 0xc9, 0xca, 0xcb, 0x300, 0xcd, 0xce, 0xcf, 0x110, 0xd1, 0x309, 0xd3, 0xd4, 0x1a0,
      0xd6, 0xd7, 0xd8, 0xd9, 0xda, 0xdb, 0xdc, 0x1af, 0x303, 0xdf, 0xe0, 0xe1, 0xe2, 0x103, 0xe4,
      0xe5, 0xe6, 0xe7, 0xe8, 0xe9, 0xea, 0xeb, 0x301, 0xed, 0xee, 0xef, 0x111, 0xf1, 0x323, 0xf3,
      0xf4, 0x1a1, 0xf6, 0xf7, 0xf8, 0xf9, 0xfa, 0xfb, 0xfc, 0x1b0, 0x20ab, 0xff],
     c16tomb_c16 =
      [0, 0, 0, 0, 0, 0, 0, 0, 0, 0xa0, 0xa1, 0xa2, 0xa3, 0xa4, 0xa5, 0xa6, 0xa7, 0xa8, 0xa9, 0xaa,
      0xab, 0xac, 0xad, 0xae, 0xaf, 0xb0, 0xb1, 0xb2, 0xb3, 0xb4, 0xb5, 0xb6, 0xb7, 0xb8, 0xb9,
      0xba, 0xbb, 0xbc, 0xbd, 0xbe, 0xbf, 0xc0, 0xc1, 0xc2, 0xc4, 0xc5, 0xc6, 0xc7, 0xc8, 0xc9,
      0xca, 0xcb, 0xcd, 0xce, 0xcf, 0xd1, 0xd3, 0xd4, 0xd6, 0xd7, 0xd8, 0xd9, 0xda, 0xdb, 0xdc,
      0xdf, 0xe0, 0xe1, 0xe2, 0xe4, 0xe5, 0xe6, 0xe7, 0xe8, 0xe9, 0xea, 0xeb, 0xed, 0xee, 0xef,
      0xf1, 0xf3, 0xf4, 0xf6, 0xf7, 0xf8, 0xf9, 0xfa, 0xfb, 0xfc, 0xff, 0x102, 0x103, 0x110,
      0x111, 0x152, 0x153, 0x178, 0x192, 0x1a0, 0x1a1, 0x1af, 0x1b0, 0x2c6, 0x2dc, 0x300, 0x301,
      0x303, 0x309, 0x323, 0x2013, 0x2014, 0x2018, 0x2019, 0x201a, 0x201c, 0x201d, 0x201e, 0x2020,
      0x2021, 0x2022, 0x2026, 0x2030, 0x2039, 0x203a, 0x20ab, 0x20ac, 0x2122],
     c16tomb_b =
      [0x81, 0x8a, 0x8d, 0x8e, 0x8f, 0x90, 0x9a, 0x9d, 0x9e, 0xa0, 0xa1, 0xa2, 0xa3, 0xa4, 0xa5,
      0xa6, 0xa7, 0xa8, 0xa9, 0xaa, 0xab, 0xac, 0xad, 0xae, 0xaf, 0xb0, 0xb1, 0xb2, 0xb3, 0xb4,
      0xb5, 0xb6, 0xb7, 0xb8, 0xb9, 0xba, 0xbb, 0xbc, 0xbd, 0xbe, 0xbf, 0xc0, 0xc1, 0xc2, 0xc4,
      0xc5, 0xc6, 0xc7, 0xc8, 0xc9, 0xca, 0xcb, 0xcd, 0xce, 0xcf, 0xd1, 0xd3, 0xd4, 0xd6, 0xd7,
      0xd8, 0xd9, 0xda, 0xdb, 0xdc, 0xdf, 0xe0, 0xe1, 0xe2, 0xe4, 0xe5, 0xe6, 0xe7, 0xe8, 0xe9,
      0xea, 0xeb, 0xed, 0xee, 0xef, 0xf1, 0xf3, 0xf4, 0xf6, 0xf7, 0xf8, 0xf9, 0xfa, 0xfb, 0xfc,
      0xff, 0xc3, 0xe3, 0xd0, 0xf0, 0x8c, 0x9c, 0x9f, 0x83, 0xd5, 0xf5, 0xdd, 0xfd, 0x88, 0x98,
      0xcc, 0xec, 0xde, 0xd2, 0xf2, 0x96, 0x97, 0x91, 0x92, 0x82, 0x93, 0x94, 0x84, 0x86, 0x87,
      0x95, 0x85, 0x89, 0x8b, 0x9b, 0xfe, 0x80, 0x99]\<rparr>"

definition asciiplus_tables :: "asciiplus list" where
  "asciiplus_tables =
     [asciiplus_iso_8859_2, asciiplus_iso_8859_5, asciiplus_iso_8859_9, asciiplus_iso_8859_13,
      asciiplus_koi8_r, asciiplus_koi8_u, asciiplus_windows_874, asciiplus_windows_1250,
      asciiplus_windows_1251, asciiplus_windows_1252, asciiplus_windows_1253, asciiplus_windows_1254,
      asciiplus_windows_1255, asciiplus_windows_1256, asciiplus_windows_1257, asciiplus_windows_1258]"

section \<open>Every table is well-formed\<close>

lemma asciiplus_ok_iso_8859_2: "asciiplus_ok asciiplus_iso_8859_2"
  by code_simp

lemma asciiplus_ok_iso_8859_5: "asciiplus_ok asciiplus_iso_8859_5"
  by code_simp

lemma asciiplus_ok_iso_8859_9: "asciiplus_ok asciiplus_iso_8859_9"
  by code_simp

lemma asciiplus_ok_iso_8859_13: "asciiplus_ok asciiplus_iso_8859_13"
  by code_simp

lemma asciiplus_ok_koi8_r: "asciiplus_ok asciiplus_koi8_r"
  by code_simp

lemma asciiplus_ok_koi8_u: "asciiplus_ok asciiplus_koi8_u"
  by code_simp

lemma asciiplus_ok_windows_874: "asciiplus_ok asciiplus_windows_874"
  by code_simp

lemma asciiplus_ok_windows_1250: "asciiplus_ok asciiplus_windows_1250"
  by code_simp

lemma asciiplus_ok_windows_1251: "asciiplus_ok asciiplus_windows_1251"
  by code_simp

lemma asciiplus_ok_windows_1252: "asciiplus_ok asciiplus_windows_1252"
  by code_simp

lemma asciiplus_ok_windows_1253: "asciiplus_ok asciiplus_windows_1253"
  by code_simp

lemma asciiplus_ok_windows_1254: "asciiplus_ok asciiplus_windows_1254"
  by code_simp

lemma asciiplus_ok_windows_1255: "asciiplus_ok asciiplus_windows_1255"
  by code_simp

lemma asciiplus_ok_windows_1256: "asciiplus_ok asciiplus_windows_1256"
  by code_simp

lemma asciiplus_ok_windows_1257: "asciiplus_ok asciiplus_windows_1257"
  by code_simp

lemma asciiplus_ok_windows_1258: "asciiplus_ok asciiplus_windows_1258"
  by code_simp

lemmas asciiplus_ok_tables =
  asciiplus_ok_iso_8859_2 asciiplus_ok_iso_8859_5 asciiplus_ok_iso_8859_9 asciiplus_ok_iso_8859_13
  asciiplus_ok_koi8_r asciiplus_ok_koi8_u asciiplus_ok_windows_874 asciiplus_ok_windows_1250
  asciiplus_ok_windows_1251 asciiplus_ok_windows_1252 asciiplus_ok_windows_1253 asciiplus_ok_windows_1254
  asciiplus_ok_windows_1255 asciiplus_ok_windows_1256 asciiplus_ok_windows_1257 asciiplus_ok_windows_1258

lemma asciiplus_tables_ok: "ap \<in> set asciiplus_tables \<Longrightarrow> asciiplus_ok ap"
  by (auto simp: asciiplus_tables_def asciiplus_ok_tables)

definition ctypes :: "lc_ctype list" where
  "ctypes =
     [ctype_us_ascii, ctype_utf_8, ctype_iso_8859_1, ctype_ibm037] @ map ctype_asciiplus asciiplus_tables"

lemma asciiplus_tables_codec:
  "ap \<in> set asciiplus_tables \<Longrightarrow> ctype_codec (asciiplus_mbtoc32 ap) (asciiplus_c32tomb ap)"
  by (rule asciiplus_codec [OF asciiplus_tables_ok])

lemma ctypes_codec: "ctype \<in> set ctypes \<Longrightarrow> ctype_codec (mbtoc32 ctype) (c32tomb ctype)"
  by (auto simp: ctypes_def ctype_us_ascii_def ctype_utf_8_def ctype_iso_8859_1_def ctype_ibm037_def
      ctype_asciiplus_def us_ascii_codec utf_8_codec iso_8859_1_codec ibm037_codec
      asciiplus_tables_codec)

section \<open>Properties\<close>

text \<open>
  C37: each of the sixteen code pages is a bijection between the bytes and the characters it maps:
  the binary search of \<open>asciiplus_c32tomb()\<close> encodes a character as the byte that
  \<open>asciiplus_mbtoc32()\<close> decodes to it, and fails exactly when no byte decodes to it.
\<close>

theorem code_page_bijection:
  assumes "ap \<in> set asciiplus_tables"
  shows "asciiplus_c32tomb ap c = Inr bs \<longleftrightarrow>
    (\<exists>b. bs = [b] \<and> asciiplus_mbtoc32 ap [b] ps = Char 1 c mbstate_init)"
  by (rule asciiplus_codec_iff [OF asciiplus_tables_ok [OF assms]])

theorem code_page_bijection_witness:
  "asciiplus_windows_1252 \<in> set asciiplus_tables
   \<and> asciiplus_mbtoc32 asciiplus_windows_1252 [0x80] mbstate_init = Char 1 0x20ac mbstate_init
   \<and> asciiplus_c32tomb asciiplus_windows_1252 0x20ac = Inr [0x80]"
proof -
  have m: "asciiplus_windows_1252 \<in> set asciiplus_tables" by (simp add: asciiplus_tables_def)
  have d: "asciiplus_mbtoc32 asciiplus_windows_1252 [0x80] mbstate_init = Char 1 0x20ac mbstate_init"
    by (simp add: asciiplus_mbtoc32_def asciiplus_windows_1252_def)
  show ?thesis using m d code_page_bijection [OF m, of "0x20ac" "[0x80]" mbstate_init] by blast
qed

text \<open>
  C34: in each of the twenty character sets of \<open>ctypes\<close>, converting a wide string whose characters the
  set has to multibyte characters and back gives the string: \<open>wcsnrtombs_l()\<close> without a buffer returns
  the size \<open>n\<close>, with a buffer of \<open>n + 1\<close> bytes it stores the whole string with its null byte, and
  \<open>mbsnrtowcs_l()\<close> returns the length and the characters of the wide string from these bytes. These are
  the character sets that \<open>__lookup_ctype()\<close> knows, without two: GB 2312, whose tables are not
  modelled, and ISO-8859-15, whose decoder reads outside its table
  (\<open>iso_8859_15_out_of_range\<close>).
\<close>

theorem wide_string_roundtrip:
  assumes "ctype \<in> set ctypes" "0 \<notin> set cs"
    and "wcsnrtombs_l None (cs @ [0]) ps ctype = ((Inr n, [], Some (cs @ [0])), mbstate_init)"
  shows "\<exists>bs. wcsnrtombs_l (Some (n + 1)) (cs @ [0]) ps ctype = ((Inr n, bs @ [0], None), mbstate_init)
    \<and> mbsnrtowcs_l None (bs @ [0]) mbstate_init ctype
        = Some (Inr (length cs), [], Some (bs @ [0]), mbstate_init)
    \<and> mbsnrtowcs_l (Some (length cs + 1)) (bs @ [0]) mbstate_init ctype
        = Some (Inr (length cs), cs @ [0], None, mbstate_init)"
proof -
  have "c32stombs (c32tomb ctype) None (cs @ [0]) = (Inr n, [], Some (cs @ [0]))"
    using assms(3) by (simp add: wcsnrtombs_l_def Let_def)
  from ctype_codec.string_roundtrip [OF ctypes_codec [OF assms(1)] assms(2) this]
  show ?thesis by (auto simp: wcsnrtombs_l_def mbsnrtowcs_l_def Let_def)
qed

theorem wide_string_roundtrip_witness:
  "\<exists>bs. wcsnrtombs_l (Some (5 + 1)) ([0x20ac, 0xe9] @ [0]) mbstate_init ctype_utf_8
       = ((Inr 5, bs @ [0], None), mbstate_init)
    \<and> mbsnrtowcs_l None (bs @ [0]) mbstate_init ctype_utf_8
        = Some (Inr (length [0x20ac, 0xe9 :: u32]), [], Some (bs @ [0]), mbstate_init)
    \<and> mbsnrtowcs_l (Some (length [0x20ac, 0xe9 :: u32] + 1)) (bs @ [0]) mbstate_init ctype_utf_8
        = Some (Inr (length [0x20ac, 0xe9 :: u32]), [0x20ac, 0xe9] @ [0], None, mbstate_init)"
  by (rule wide_string_roundtrip)
    (simp_all add: ctypes_def wcsnrtombs_l_def c32stombs_def ctype_utf_8_def utf_8_c32tomb_def)

text \<open>
  C40: \<open>iso_8859_15_mbtoc32()\<close> reads outside of its replacement table for every byte that the table
  does not replace: the test that guards the table holds for all bytes.
\<close>

theorem iso_8859_15_out_of_range:
  "iso_8859_15_mbtoc32 (b # bs) ps = None \<longleftrightarrow> b < 0xa4 \<or> b \<ge> 0xbf"
  by (auto simp: iso_8859_15_mbtoc32_def iso_8859_15_replacement_def ISO_8859_15_REPLACEMENTS_BASE_def
      iso_8859_15_replacements_def Let_def word_less_def word_le_def)

end
