(* ===== verification/Inet.thy ===== *)
theory Inet
  imports Prelude
begin

unbundle bit_operations_syntax

text \<open>
  The text form of internet addresses: \<^verbatim>\<open>libc/arpa/inet/inet_ntop.c\<close> and \<^verbatim>\<open>inet_pton.c\<close>. A string is the
  list of its bytes before the terminating null byte, which reading past the end of the list
  gives. The conversions \<open>PRIu8\<close> and \<open>PRIx16\<close> of \<open>snprintf()\<close> print the digits of a number as the C
  standard says.
\<close>

section \<open>Operations\<close>

definition peek :: "u8 list \<Rightarrow> nat \<Rightarrow> u8" where
  "peek src n = (if n < length src then src ! n else 0)"

abbreviation colon :: u8 where
  "colon \<equiv> 58"

abbreviation dot :: u8 where
  "dot \<equiv> 46"

definition digit :: "nat \<Rightarrow> u8" where
  "digit d = (if d < 10 then word_of_nat (48 + d) else word_of_nat (87 + d))"

fun dec_digits :: "nat \<Rightarrow> nat list" where
  "dec_digits n = (if n < 10 then [n] else dec_digits (n div 10) @ [n mod 10])"

fun hex_digits :: "nat \<Rightarrow> nat list" where
  "hex_digits n = (if n < 16 then [n] else hex_digits (n div 16) @ [n mod 16])"

declare dec_digits.simps [simp del] hex_digits.simps [simp del]

definition fmt_PRIu8 :: "u8 \<Rightarrow> u8 list" where
  "fmt_PRIu8 x = map digit (dec_digits (unat x))"

definition fmt_PRIx16 :: "u16 \<Rightarrow> u8 list" where
  "fmt_PRIx16 x = map digit (hex_digits (unat x))"

definition AF_INET :: int where
  "AF_INET = 1"

definition AF_INET6 :: int where
  "AF_INET6 = 2"

definition dotted_quad :: "u8 list \<Rightarrow> u8 list" where
  "dotted_quad src =
     fmt_PRIu8 (src ! 0) @ [dot] @ fmt_PRIu8 (src ! 1) @ [dot] @ fmt_PRIu8 (src ! 2) @ [dot] @ fmt_PRIu8 (src ! 3)"

definition inet_ntop_inet :: "u8 list \<Rightarrow> nat \<Rightarrow> errno + u8 list" where
  "inet_ntop_inet src sz =
     (let buf = dotted_quad src
      in if length buf \<ge> sz then Inl ENOSPC else Inr buf)"

definition IN6_IS_ADDR_V4MAPPED :: "u8 list \<Rightarrow> bool" where
  "IN6_IS_ADDR_V4MAPPED a \<longleftrightarrow>
     a ! 0 = 0 \<and> a ! 1 = 0 \<and> a ! 2 = 0 \<and> a ! 3 = 0 \<and> a ! 4 = 0 \<and> a ! 5 = 0 \<and> a ! 6 = 0 \<and> a ! 7 = 0
     \<and> a ! 8 = 0 \<and> a ! 9 = 0 \<and> a ! 10 = 0xff \<and> a ! 11 = 0xff"

definition IN6_IS_ADDR_V4COMPAT :: "u8 list \<Rightarrow> bool" where
  "IN6_IS_ADDR_V4COMPAT a \<longleftrightarrow>
     a ! 0 = 0 \<and> a ! 1 = 0 \<and> a ! 2 = 0 \<and> a ! 3 = 0 \<and> a ! 4 = 0 \<and> a ! 5 = 0 \<and> a ! 6 = 0 \<and> a ! 7 = 0
     \<and> a ! 8 = 0 \<and> a ! 9 = 0 \<and> a ! 10 = 0 \<and> a ! 11 = 0
     \<and> (a ! 12 \<noteq> 0 \<or> a ! 13 \<noteq> 0 \<or> a ! 14 \<noteq> 0 \<or> (a ! 15 \<noteq> 0 \<and> a ! 15 \<noteq> 1))"

definition inet6_groups :: "u8 list \<Rightarrow> u16 list" where
  "inet6_groups src = map (\<lambda>i. push_bit 8 (ucast (src ! (i * 2))) OR ucast (src ! (i * 2 + 1))) [0..<8]"

fun inet6_zeroes :: "u16 list \<Rightarrow> nat \<Rightarrow> nat \<times> nat \<Rightarrow> nat \<times> nat \<Rightarrow> nat \<times> nat" where
  "inet6_zeroes [] i cur best = best"
| "inet6_zeroes (g # groups) i (start, len) best =
     (if g = 0 then
        inet6_zeroes groups (i + 1) (start, len + 1) (if snd best < len + 1 then (start, len + 1) else best)
      else inet6_zeroes groups (i + 1) (i + 1, 0) best)"

function inet6_format :: "u8 list \<Rightarrow> u16 list \<Rightarrow> nat \<times> nat \<Rightarrow> bool \<Rightarrow> nat \<Rightarrow> bool \<Rightarrow> u8 list" where
  "inet6_format src groups best ipv4 i strip_colon =
     (if i = 6 \<and> ipv4 then (if strip_colon then [] else [colon]) @ dotted_quad (drop 12 src)
      else if i = fst best \<and> snd best > 1 then
        [colon, colon] @
        (if i + snd best < 8 then inet6_format src groups best ipv4 (i + snd best) True else [])
      else
        (if strip_colon then [] else [colon]) @ fmt_PRIx16 (groups ! i) @
        (if i + 1 < 8 then inet6_format src groups best ipv4 (i + 1) False else []))"
  by pat_completeness auto
termination by (relation "measure (\<lambda>(src, groups, best, ipv4, i, strip_colon). 8 - i)") auto

declare inet6_format.simps [simp del]

definition inet_ntop_inet6 :: "u8 list \<Rightarrow> nat \<Rightarrow> errno + u8 list" where
  "inet_ntop_inet6 src sz =
     (let groups = inet6_groups src;
          best = inet6_zeroes groups 0 (0, 0) (0, 0);
          ipv4 = (IN6_IS_ADDR_V4COMPAT src \<or> IN6_IS_ADDR_V4MAPPED src);
          buf = inet6_format src groups best ipv4 0 True
      in if length buf + 1 > sz then Inl ENOSPC else Inr buf)"

definition inet_ntop :: "int \<Rightarrow> u8 list \<Rightarrow> nat \<Rightarrow> errno + u8 list" where
  "inet_ntop af src sz =
     (if af = AF_INET then inet_ntop_inet src sz
      else if af = AF_INET6 then inet_ntop_inet6 src sz
      else Inl EAFNOSUPPORT)"

definition is_digit :: "u8 \<Rightarrow> bool" where
  "is_digit c \<longleftrightarrow> 48 \<le> c \<and> c \<le> 57"

definition inet_pton4_number :: "u8 list \<Rightarrow> (nat \<times> u8 list) option" where
  "inet_pton4_number src =
     (if peek src 0 = 48 then Some (0, drop 1 src)
      else if 49 \<le> peek src 0 \<and> peek src 0 \<le> 57 then
        (let number = unat (peek src 0) - 48;
             src = drop 1 src;
             (number, src) =
               (if is_digit (peek src 0) then (number * 10 + (unat (peek src 0) - 48), drop 1 src) else (number, src));
             (number, src) =
               (if is_digit (peek src 0) then (number * 10 + (unat (peek src 0) - 48), drop 1 src) else (number, src))
         in if number > 255 then None else Some (number, src))
      else None)"

text \<open>The first argument is the number of groups that are left.\<close>

fun inet_pton4_loop :: "nat \<Rightarrow> u8 list \<Rightarrow> u8 list option" where
  "inet_pton4_loop 0 src = Some []"
| "inet_pton4_loop (Suc n) src =
     (case inet_pton4_number src of
        None \<Rightarrow> None
      | Some (number, src) \<Rightarrow>
          if peek src 0 \<noteq> (if n = 0 then 0 else dot) then None
          else map_option (Cons (word_of_nat number)) (inet_pton4_loop n (drop 1 src)))"

definition inet_pton4 :: "u8 list \<Rightarrow> u8 list option" where
  "inet_pton4 src = inet_pton4_loop 4 src"

definition hex_value :: "u8 \<Rightarrow> nat option" where
  "hex_value c =
     (if 48 \<le> c \<and> c \<le> 57 then Some (unat c - 48)
      else if 65 \<le> c \<and> c \<le> 70 then Some (unat c - 65 + 10)
      else if 97 \<le> c \<and> c \<le> 102 then Some (unat c - 97 + 10)
      else None)"

text \<open>The first argument is the number of iterations that are left of the four.\<close>

fun inet_pton6_number :: "nat \<Rightarrow> u8 list \<Rightarrow> nat \<Rightarrow> (nat \<times> u8 list) option" where
  "inet_pton6_number 0 src number = Some (number, src)"
| "inet_pton6_number (Suc n) src number =
     (case hex_value (peek src 0) of
        Some d \<Rightarrow> inet_pton6_number n (drop 1 src) (number * 16 + d)
      | None \<Rightarrow> if Suc n = 4 then None else inet_pton6_number n src number)"

lemma hex_value_null [simp]: "hex_value 0 = None"
  by (simp add: hex_value_def)

lemma pton6_number_length: "inet_pton6_number n src k = Some (k', src') \<Longrightarrow> length src' \<le> length src"
proof (induction n src k rule: inet_pton6_number.induct)
  case (2 n src number)
  then show ?case by (cases "hex_value (peek src 0)") (auto split: if_splits)
qed simp

lemma pton6_number_shorter: "inet_pton6_number 4 src k = Some (k', src') \<Longrightarrow> length src' < length src"
proof -
  assume a: "inet_pton6_number 4 src k = Some (k', src')"
  have four: "4 = Suc 3" by simp
  obtain d where d: "hex_value (peek src 0) = Some d" "inet_pton6_number 3 (drop 1 src) (k * 16 + d) = Some (k', src')"
    using a unfolding four inet_pton6_number.simps by (cases "hex_value (peek src 0)") (simp_all split: if_splits)
  then have "src \<noteq> []" by (auto simp: peek_def)
  then show ?thesis using pton6_number_length [OF d(2)] by (cases src) auto
qed

definition put :: "u8 list \<Rightarrow> nat \<Rightarrow> u8 list \<Rightarrow> u8 list" where
  "put dst n bs = take n dst @ bs @ drop (n + length bs) dst"

function inet_pton6_loop :: "u8 list \<Rightarrow> nat \<Rightarrow> nat \<Rightarrow> u8 list \<Rightarrow> (u8 list \<times> nat \<times> nat) option" where
  "inet_pton6_loop addr leading_groups groups src =
     (case inet_pton6_number 4 src 0 of
        None \<Rightarrow> None
      | Some (number, src') \<Rightarrow>
          (let addr = put addr (groups * 2) [word_of_nat (number div 256), word_of_nat number]
           in if peek src' 0 = colon \<and> peek src' 1 = colon then
                if leading_groups < groups + 1 then None
                else if peek src' 2 = 0 then
                  if groups + 1 > 8 - 2 then None else Some (addr, groups + 1, groups + 1)
                else if groups + 1 + 2 \<ge> 8 then None
                else inet_pton6_loop addr (groups + 1) (groups + 1 + 2) (drop 2 src')
              else if peek src' 0 = colon then
                if groups + 1 \<ge> 8 then None
                else inet_pton6_loop addr leading_groups (groups + 1) (drop 1 src')
              else if peek src' 0 = 0 then Some (addr, leading_groups, groups + 1)
              else if groups > 8 - 2 then None
              else
                (case inet_pton4 src of
                   None \<Rightarrow> None
                 | Some quad \<Rightarrow> Some (put addr (groups * 2) quad, leading_groups, groups + 2))))"
  by pat_completeness auto
termination
  by (relation "measure (\<lambda>(addr, leading_groups, groups, src). length src)")
    (auto dest!: pton6_number_shorter)

declare inet_pton6_loop.simps [simp del]

definition inet_pton6_finish :: "u8 list \<times> nat \<times> nat \<Rightarrow> u8 list option" where
  "inet_pton6_finish r =
     (case r of
        (addr, leading_groups, groups) \<Rightarrow>
          if groups < leading_groups then None
          else
            (let trailing_groups = groups - leading_groups;
                 dst = replicate 16 0;
                 dst = put dst 0 (take (leading_groups * 2) addr)
             in Some (put dst ((8 - trailing_groups) * 2) (take (trailing_groups * 2) (drop (leading_groups * 2) addr)))))"

definition inet_pton6 :: "u8 list \<Rightarrow> u8 list option" where
  "inet_pton6 src =
     (if peek src 0 = colon \<and> peek src 1 = colon then
        if peek src 2 = 0 then Some (replicate 16 0)
        else Option.bind (inet_pton6_loop (replicate 16 0) 0 2 (drop 2 src)) inet_pton6_finish
      else Option.bind (inet_pton6_loop (replicate 16 0) 8 0 src) inet_pton6_finish)"

definition inet_pton :: "int \<Rightarrow> u8 list \<Rightarrow> errno + u8 list option" where
  "inet_pton af src =
     (if af = AF_INET then Inr (inet_pton4 src)
      else if af = AF_INET6 then Inr (inet_pton6 src)
      else Inl EAFNOSUPPORT)"

section \<open>Digits\<close>

lemma peek_simps [simp]:
  "peek [] n = 0" "peek (c # src) 0 = c" "peek (c # src) (Suc n) = peek src n"
  "peek (c # src) 1 = peek src 0" "peek (c # src) 2 = peek src 1"
  by (simp_all add: peek_def numeral_2_eq_2)

lemma digit_facts:
  assumes "d < 16"
  shows "hex_value (digit d) = Some d" "digit d \<noteq> colon" "digit d \<noteq> dot" "digit d \<noteq> 0"
proof -
  have "\<forall>d \<in> set [0..<16]. hex_value (digit d) = Some d \<and> digit d \<noteq> colon \<and> digit d \<noteq> dot \<and> digit d \<noteq> 0"
    by (simp add: upt_rec digit_def hex_value_def)
  then show "hex_value (digit d) = Some d" "digit d \<noteq> colon" "digit d \<noteq> dot" "digit d \<noteq> 0" using assms by simp_all
qed

lemma dec_digit_facts:
  assumes "d < 10"
  shows "is_digit (digit d)" "unat (digit d) = 48 + d" "digit d = 48 \<longleftrightarrow> d = 0" "0 < d \<Longrightarrow> 49 \<le> digit d \<and> digit d \<le> 57"
proof -
  have "\<forall>d \<in> set [0..<10]. is_digit (digit d) \<and> unat (digit d) = 48 + d \<and> (digit d = 48 \<longleftrightarrow> d = 0)
      \<and> (0 < d \<longrightarrow> 49 \<le> digit d \<and> digit d \<le> 57)"
    by (simp add: upt_rec digit_def is_digit_def)
  then show "is_digit (digit d)" "unat (digit d) = 48 + d" "digit d = 48 \<longleftrightarrow> d = 0"
    "0 < d \<Longrightarrow> 49 \<le> digit d \<and> digit d \<le> 57" using assms by simp_all
qed

lemma separators [simp]: "hex_value colon = None" "hex_value dot = None" "\<not> is_digit colon" "\<not> is_digit dot" "\<not> is_digit 0"
  by (simp_all add: hex_value_def is_digit_def)

lemma hex_digits_value: "foldl (\<lambda>a d. a * 16 + d) 0 (hex_digits n) = n \<and> (\<forall>d \<in> set (hex_digits n). d < 16) \<and> hex_digits n \<noteq> []"
proof (induction n rule: hex_digits.induct)
  case (1 n)
  then show ?case by (cases "n < 16") (simp_all add: hex_digits.simps [of n] ball_Un)
qed

lemma hex_digits_length: "n < 16 ^ Suc k \<Longrightarrow> length (hex_digits n) \<le> Suc k"
proof (induction k arbitrary: n)
  case (Suc k)
  have "n div 16 < 16 ^ Suc k" using Suc.prems by (simp add: less_mult_imp_div_less mult.commute)
  then show ?case using Suc.IH [of "n div 16"] by (simp add: hex_digits.simps [of n])
qed (simp add: hex_digits.simps)

lemma dec_digits_less: "(\<forall>d \<in> set (dec_digits n). d < 10) \<and> dec_digits n \<noteq> []"
proof (induction n rule: dec_digits.induct)
  case (1 n)
  then show ?case by (cases "n < 10") (simp_all add: dec_digits.simps [of n] ball_Un)
qed

lemma dec_digits_cases:
  assumes "n < 1000"
  shows "dec_digits n =
    (if n < 10 then [n] else if n < 100 then [n div 10, n mod 10] else [n div 100, n div 10 mod 10, n mod 10])"
proof -
  have "n div 10 < 10 \<longleftrightarrow> n < 100" by (simp add: div_less_iff_less_mult)
  moreover have "n div 10 div 10 < 10" "n div 10 div 10 = n div 100" using assms by (simp_all add: div_mult2_eq [symmetric])
  ultimately show ?thesis
    by (simp add: dec_digits.simps [of n] dec_digits.simps [of "n div 10"] dec_digits.simps [of "n div 100"])
qed

lemma pton6_number_digits:
  "length ds \<le> n \<Longrightarrow> n \<le> 4 \<Longrightarrow> (ds = [] \<longrightarrow> n < 4) \<Longrightarrow> \<forall>d \<in> set ds. d < 16 \<Longrightarrow> hex_value (peek rest 0) = None \<Longrightarrow>
     inet_pton6_number n (map digit ds @ rest) k = Some (foldl (\<lambda>a d. a * 16 + d) k ds, rest)"
proof (induction n arbitrary: ds k)
  case (Suc n)
  show ?case
  proof (cases ds)
    case Nil
    then show ?thesis using Suc.prems Suc.IH [of "[]" k] by simp
  next
    case (Cons d ds')
    then show ?thesis using Suc.prems Suc.IH [of ds' "k * 16 + d"] by (simp add: digit_facts)
  qed
qed simp

lemma pton6_number_fmt:
  assumes "hex_value (peek rest 0) = None"
  shows "inet_pton6_number 4 (fmt_PRIx16 g @ rest) 0 = Some (unat g, rest)"
proof -
  have "unat g < 16 ^ Suc 3" using unsigned_less [of g] by simp
  then have "length (hex_digits (unat g)) \<le> 4" using hex_digits_length [of "unat g" 3] by simp
  then show ?thesis
    unfolding fmt_PRIx16_def using pton6_number_digits [of "hex_digits (unat g)" 4 rest 0] hex_digits_value [of "unat g"] assms
    by simp
qed

lemma unat_u8_less: "unat (x :: u8) < 256"
  using unsigned_less [of x] by simp

lemma fmt_PRIu8_cases:
  obtains ds where "fmt_PRIu8 x = map digit ds" "1 \<le> length ds" "length ds \<le> 3" "\<forall>d \<in> set ds. d < 10"
proof (rule that [of "dec_digits (unat x)"])
  show "length (dec_digits (unat x)) \<le> 3" using unat_u8_less [of x] by (simp add: dec_digits_cases)
  show "1 \<le> length (dec_digits (unat x))" using dec_digits_less [of "unat x"] by (cases "dec_digits (unat x)") auto
qed (simp_all add: fmt_PRIu8_def dec_digits_less)

lemma pton4_number_fmt:
  assumes "\<not> is_digit (peek rest 0)"
  shows "inet_pton4_number (fmt_PRIu8 x @ rest) = Some (unat x, rest)"
proof -
  define n where "n = unat x"
  have n: "n < 256" using unat_u8_less by (simp add: n_def)
  consider "n = 0" | "0 < n" "n < 10" | "10 \<le> n" "n < 100" | "100 \<le> n" by linarith
  then have "inet_pton4_number (map digit (dec_digits n) @ rest) = Some (n, rest)"
  proof cases
    case 1
    then show ?thesis by (simp add: inet_pton4_number_def dec_digits_cases dec_digit_facts)
  next
    case 2
    then show ?thesis using assms n by (simp add: inet_pton4_number_def dec_digits_cases dec_digit_facts)
  next
    case 3
    then have "n div 10 < 10" "0 < n div 10" "n div 10 * 10 + n mod 10 = n" by (simp_all add: div_greater_zero_iff)
    then show ?thesis using assms n 3 by (simp add: inet_pton4_number_def dec_digits_cases dec_digit_facts)
  next
    case 4
    have "n div 100 < 10" "0 < n div 100" using n 4 by (simp_all add: div_greater_zero_iff)
    moreover have "(n div 100 * 10 + n div 10 mod 10) * 10 + n mod 10 = n"
    proof -
      have "n div 100 = n div 10 div 10" by (simp add: div_mult2_eq [symmetric])
      then show ?thesis by (simp only: div_mult_mod_eq)
    qed
    ultimately show ?thesis using assms n 4 by (simp add: inet_pton4_number_def dec_digits_cases dec_digit_facts)
  qed
  then show ?thesis by (simp add: n_def fmt_PRIu8_def)
qed

lemma four: "(4 :: nat) = Suc (Suc (Suc (Suc 0)))"
  by simp

lemma length_4_cases:
  assumes "length src = 4"
  obtains a b c d where "src = [a, b, c, d]"
  using assms unfolding four length_Suc_conv by auto

lemma pton4_dotted_quad:
  assumes "length src = 4"
  shows "inet_pton4 (dotted_quad src) = Some src"
proof -
  obtain a b c d where s: "src = [a, b, c, d]" by (rule length_4_cases [OF assms])
  have last: "inet_pton4_number (fmt_PRIu8 x) = Some (unat x, [])" for x
    using pton4_number_fmt [of "[]" x] by simp
  show ?thesis
    unfolding inet_pton4_def dotted_quad_def s four
    by (simp add: pton4_number_fmt last)
qed

lemma dotted_quad_scan:
  obtains k rest where "inet_pton6_number 4 (dotted_quad src) 0 = Some (k, dot # rest)"
proof -
  obtain ds where "fmt_PRIu8 (src ! 0) = map digit ds" "1 \<le> length ds" "length ds \<le> 3" "\<forall>d \<in> set ds. d < 10"
    by (rule fmt_PRIu8_cases)
  then show thesis
    using pton6_number_digits [of ds 4 "dot # fmt_PRIu8 (src ! 1) @ [dot] @ fmt_PRIu8 (src ! 2) @ [dot] @ fmt_PRIu8 (src ! 3)" 0]
    by (intro that) (fastforce simp: dotted_quad_def)
qed

end
