(* ===== verification/InetCorrect.thy ===== *)
theory InetCorrect
  imports Inet
begin

unbundle bit_operations_syntax

text \<open>
  Parsing inverts printing for internet addresses. The bytes of an IPv6 address are related to its
  eight groups by \<open>bytes_of\<close>, and the parser is followed group by group through the text that the
  printer has written: before the \<open>::\<close>, after it, and through a trailing IPv4 address.
\<close>

section \<open>Groups and bytes\<close>

definition bytes_of :: "nat list \<Rightarrow> u8 list" where
  "bytes_of gs = concat (map (\<lambda>g. [word_of_nat (g div 256), word_of_nat g]) gs)"

lemma bytes_of_simps [simp]:
  "bytes_of [] = []" "bytes_of (g # gs) = word_of_nat (g div 256) # word_of_nat g # bytes_of gs"
  "bytes_of (gs @ hs) = bytes_of gs @ bytes_of hs"
  by (simp_all add: bytes_of_def)

lemma length_bytes_of [simp]: "length (bytes_of gs) = length gs * 2"
  by (induction gs) simp_all

lemma take_bytes_of: "take (n * 2) (bytes_of gs) = bytes_of (take n gs)"
proof (induction n arbitrary: gs)
  case (Suc n)
  then show ?case by (cases gs) simp_all
qed simp

lemma drop_bytes_of: "drop (n * 2) (bytes_of gs) = bytes_of (drop n gs)"
proof (induction n arbitrary: gs)
  case (Suc n)
  then show ?case by (cases gs) simp_all
qed simp

lemma put_bytes_of: "put (bytes_of gs) (n * 2) (bytes_of hs) = bytes_of (take n gs @ hs @ drop (n + length hs) gs)"
  using take_bytes_of [of n gs] drop_bytes_of [of "n + length hs" gs] by (simp add: put_def distrib_right)

lemma bytes_of_replicate: "bytes_of (replicate n 0) = replicate (n * 2) 0"
  by (induction n) simp_all

lemma replicate_bytes_of: "replicate 16 0 = bytes_of (replicate 8 0)"
  using bytes_of_replicate [of 8] by simp

lemma put_number: "put (bytes_of gs) (n * 2) [word_of_nat (g div 256), word_of_nat g] = bytes_of (take n gs @ g # drop (n + 1) gs)"
  using put_bytes_of [of gs n "[g]"] by simp

lemma unat_group: "unat (push_bit 8 (ucast (a :: u8)) OR ucast (b :: u8) :: u16) = unat a * 256 + unat b"
proof -
  have "push_bit 8 (ucast a :: u16) AND ucast b = 0"
    by (rule bit_eqI) (auto simp: bit_simps dest: bit_imp_le_length)
  then have "push_bit 8 (ucast a :: u16) OR ucast b = push_bit 8 (ucast a) + ucast b"
    by (simp add: disjunctive_add_eq_or)
  moreover have up: "unat (ucast c :: u16) = unat c" for c :: u8
    using unat_u8_less [of c] by (simp add: unsigned_ucast_eq take_bit_eq_mod)
  moreover have "unat (push_bit 8 (ucast a :: u16)) = unat a * 256"
    using unat_u8_less [of a] by (simp add: push_bit_eq_mult unat_word_ariths up)
  ultimately show ?thesis using unat_u8_less [of a] unat_u8_less [of b] by (simp add: unat_word_ariths)
qed

lemma group_bytes:
  "word_of_nat ((unat (a :: u8) * 256 + unat (b :: u8)) div 256) = a" "word_of_nat (unat a * 256 + unat b) = b"
proof -
  have "(unat a * 256 + unat b) div 256 = unat a" using unat_u8_less [of b] by simp
  then show "word_of_nat ((unat a * 256 + unat b) div 256) = a" by simp
  have "unat (word_of_nat (unat a * 256 + unat b) :: u8) = unat b"
    using unat_u8_less [of b] by (simp add: unat_of_nat take_bit_eq_mod del: of_nat_add of_nat_mult)
  then show "word_of_nat (unat a * 256 + unat b) = b" by (simp only: word_unat_eq_iff)
qed

lemma bytes_of_groups:
  assumes "length src = 16"
  shows "bytes_of (map unat (inet6_groups src)) = src"
proof -
  have "bytes_of (map (\<lambda>i. unat (push_bit 8 (ucast (src ! (i * 2))) OR ucast (src ! (i * 2 + 1)) :: u16)) [0..<n])
      = map (\<lambda>i. src ! i) [0..<n * 2]" for n
  proof (induction n)
    case (Suc n)
    have "[0..<Suc n * 2] = [0..<n * 2] @ [n * 2, n * 2 + 1]" by simp
    then show ?case using Suc by (simp only: upt_Suc_append map_append list.map bytes_of_simps unat_group group_bytes zero_le)
  qed simp
  from this [of 8] have "bytes_of (map unat (inet6_groups src)) = map (\<lambda>i. src ! i) [0..<16]"
    unfolding inet6_groups_def map_map comp_def by simp
  also have "\<dots> = src" using assms map_nth [of src] by simp
  finally show ?thesis .
qed

lemma length_groups [simp]: "length (inet6_groups src) = 8"
  by (simp add: inet6_groups_def)

lemma last_groups:
  assumes "length src = 16"
  shows "bytes_of (drop 6 (map unat (inet6_groups src))) = drop 12 src"
  using bytes_of_groups [OF assms] drop_bytes_of [of 6 "map unat (inet6_groups src)"] by simp

section \<open>The longest run of zeroes\<close>

lemma zeroes_run:
  "groups = pre @ gs \<Longrightarrow> i = length pre \<Longrightarrow> start + len = i \<Longrightarrow> \<forall>j. start \<le> j \<and> j < i \<longrightarrow> groups ! j = 0 \<Longrightarrow>
     fst best + snd best \<le> i \<Longrightarrow> \<forall>j. fst best \<le> j \<and> j < fst best + snd best \<longrightarrow> groups ! j = 0 \<Longrightarrow>
     inet6_zeroes gs i (start, len) best = best' \<Longrightarrow>
     fst best' + snd best' \<le> length groups \<and> (\<forall>j. fst best' \<le> j \<and> j < fst best' + snd best' \<longrightarrow> groups ! j = 0)"
proof (induction gs arbitrary: pre i start len best)
  case (Cons g gs)
  have pre: "groups = (pre @ [g]) @ gs" "i + 1 = length (pre @ [g])" using Cons.prems(1,2) by simp_all
  have g: "groups ! i = g" using Cons.prems(1,2) by simp
  show ?case
  proof (cases "g = 0")
    case True
    have run: "\<forall>j. start \<le> j \<and> j < i + 1 \<longrightarrow> groups ! j = 0" using Cons.prems(4) g True by (auto simp: less_Suc_eq)
    define b where "b = (if snd best < len + 1 then (start, len + 1) else best)"
    have "fst b + snd b \<le> i + 1" "\<forall>j. fst b \<le> j \<and> j < fst b + snd b \<longrightarrow> groups ! j = 0"
      using Cons.prems(3,5,6) run by (auto simp: b_def)
    moreover have "inet6_zeroes gs (i + 1) (start, len + 1) b = best'"
      using Cons.prems(7) True by (simp add: b_def)
    ultimately show ?thesis using Cons.IH [OF pre _ run, of "len + 1" b] Cons.prems(3) by simp
  next
    case False
    then show ?thesis using Cons.IH [OF pre, of "i + 1" 0 best] Cons.prems(5-7) by simp
  qed
qed auto

lemma zeroes_correct:
  assumes "inet6_zeroes groups 0 (0, 0) (0, 0) = best"
  shows "fst best + snd best \<le> length groups" "\<And>j. fst best \<le> j \<Longrightarrow> j < fst best + snd best \<Longrightarrow> groups ! j = 0"
  using zeroes_run [of groups "[]" groups 0 0 0 "(0, 0)" best] assms by simp_all

section \<open>The printed text\<close>

definition squeezed :: "nat \<times> nat \<Rightarrow> bool \<Rightarrow> nat \<Rightarrow> bool" where
  "squeezed best ipv4 i \<longleftrightarrow> i = fst best \<and> snd best > 1 \<and> \<not> (i = 6 \<and> ipv4)"

lemma format_squeezed:
  "squeezed best ipv4 i \<Longrightarrow> inet6_format src groups best ipv4 i strip =
     colon # colon # (if i + snd best < 8 then inet6_format src groups best ipv4 (i + snd best) True else [])"
  unfolding squeezed_def by (subst inet6_format.simps) auto

lemma format_group:
  "\<not> squeezed best ipv4 i \<Longrightarrow> \<not> (i = 6 \<and> ipv4) \<Longrightarrow> inet6_format src groups best ipv4 i strip =
     (if strip then [] else [colon]) @ fmt_PRIx16 (groups ! i) @
     (if i + 1 < 8 then inet6_format src groups best ipv4 (i + 1) False else [])"
  unfolding squeezed_def by (subst inet6_format.simps) auto

lemma format_quad:
  "i = 6 \<and> ipv4 \<Longrightarrow> inet6_format src groups best ipv4 i strip =
     (if strip then [] else [colon]) @ dotted_quad (drop 12 src)"
  by (subst inet6_format.simps) auto

lemma format_colon:
  assumes "\<not> squeezed best ipv4 i"
  shows "inet6_format src groups best ipv4 i False = colon # inet6_format src groups best ipv4 i True"
proof (cases "i = 6 \<and> ipv4")
  case True
  then show ?thesis by (simp only: format_quad) simp
next
  case False
  show ?thesis unfolding format_group [OF assms False] by simp
qed

lemma format_first:
  assumes "\<not> squeezed best ipv4 i"
  obtains d rest where "inet6_format src groups best ipv4 i True = digit d # rest" "d < 16"
proof (cases "i = 6 \<and> ipv4")
  case True
  obtain ds where ds: "fmt_PRIu8 (drop 12 src ! 0) = map digit ds" "1 \<le> length ds" "\<forall>d \<in> set ds. d < 10"
    by (rule fmt_PRIu8_cases)
  then obtain d ds' where "ds = d # ds'" by (cases ds) auto
  then show thesis using ds True that [of d] by (simp add: format_quad dotted_quad_def)
next
  case False
  obtain d ds' where "hex_digits (unat (groups ! i)) = d # ds'" "d < 16"
    using hex_digits_value [of "unat (groups ! i)"] by (cases "hex_digits (unat (groups ! i))") auto
  then show thesis using that [of d] unfolding format_group [OF assms False] by (simp add: fmt_PRIx16_def)
qed

lemma format_length:
  "i < 8 \<Longrightarrow> length (inet6_format src groups best ipv4 i strip) \<le> 5 * (8 - i) + 6 - (if strip then 1 else 0)"
proof (induction "8 - i" arbitrary: i strip rule: less_induct)
  case less
  have quad: "length (dotted_quad xs) \<le> 15" for xs
  proof -
    have "length (fmt_PRIu8 x) \<le> 3" for x by (rule fmt_PRIu8_cases [of x]) simp
    from this [of "xs ! 0"] this [of "xs ! 1"] this [of "xs ! 2"] this [of "xs ! 3"]
    show ?thesis by (simp add: dotted_quad_def)
  qed
  have hex: "length (fmt_PRIx16 g) \<le> 4" for g
    using hex_digits_length [of "unat g" 3] unsigned_less [of g] by (simp add: fmt_PRIx16_def)
  consider "i = 6 \<and> ipv4" | "squeezed best ipv4 i" | "\<not> (i = 6 \<and> ipv4)" "\<not> squeezed best ipv4 i" by blast
  then show ?case
  proof cases
    case 1
    then show ?thesis using quad [of "drop 12 src"] by (simp add: format_quad)
  next
    case 2
    then have "snd best > 1" by (simp add: squeezed_def)
    have len: "length (inet6_format src groups best ipv4 i strip) =
        2 + (if i + snd best < 8 then length (inet6_format src groups best ipv4 (i + snd best) True) else 0)"
      unfolding format_squeezed [OF 2] by simp
    have "length (inet6_format src groups best ipv4 (i + snd best) True) \<le> 5 * (8 - (i + snd best)) + 6 - 1" if "i + snd best < 8"
      using less.hyps [of "i + snd best" True] less.prems that \<open>snd best > 1\<close> by simp
    moreover have "5 * (8 - (i + snd best)) + 10 \<le> 5 * (8 - i)" if "i + snd best < 8" using that \<open>snd best > 1\<close> by linarith
    ultimately show ?thesis unfolding len using less.prems by (cases "i + snd best < 8"; cases strip) auto
  next
    case 3
    have len: "length (inet6_format src groups best ipv4 i strip) = (if strip then 0 else 1) + length (fmt_PRIx16 (groups ! i))
        + (if i + 1 < 8 then length (inet6_format src groups best ipv4 (i + 1) False) else 0)"
      unfolding format_group [OF 3(2,1)] by simp
    have "length (inet6_format src groups best ipv4 (i + 1) False) \<le> 5 * (8 - (i + 1)) + 6" if "i + 1 < 8"
      using less.hyps [of "i + 1" False] that by simp
    moreover have "5 * (8 - (i + 1)) + 5 = 5 * (8 - i)" using less.prems by linarith
    ultimately show ?thesis unfolding len using hex [of "groups ! i"] less.prems by (cases "i + 1 < 8"; cases strip) auto
  qed
qed

section \<open>Parsing the printed text\<close>

lemma parse_after:
  fixes src
  defines "groups \<equiv> inet6_groups src"
  defines "G \<equiv> map unat groups"
  assumes src: "length src = 16"
  shows "i < 8 \<Longrightarrow> g + (8 - i) \<le> 8 \<Longrightarrow> length A = 8 \<Longrightarrow> (\<And>j. i \<le> j \<Longrightarrow> \<not> squeezed best ipv4 j) \<Longrightarrow>
    inet_pton6_loop (bytes_of A) L g (inet6_format src groups best ipv4 i True)
      = Some (bytes_of (take g A @ drop i G @ drop (g + 8 - i) A), L, g + 8 - i)"
proof (induction "8 - i" arbitrary: i g A rule: less_induct)
  case less
  have G: "length G = 8" by (simp add: G_def groups_def)
  have not_sq: "\<not> squeezed best ipv4 i" using less.prems(4) by blast
  show ?case
  proof (cases "i = 6 \<and> ipv4")
    case True
    obtain k rest where scan: "inet_pton6_number 4 (dotted_quad (drop 12 src)) 0 = Some (k, dot # rest)"
      by (rule dotted_quad_scan)
    have quad: "inet_pton4 (dotted_quad (drop 12 src)) = Some (bytes_of (drop 6 G))"
      using pton4_dotted_quad [of "drop 12 src"] last_groups [OF src] src by (simp add: G_def groups_def)
    have "put (bytes_of (take g A @ k # drop (g + 1) A)) (g * 2) (bytes_of (drop 6 G)) =
        bytes_of (take g A @ drop 6 G @ drop (g + 2) A)"
      using less.prems(2,3) True G by (simp only: put_bytes_of) simp
    then show ?thesis
      using True less.prems(2) unfolding format_quad [OF True]
      by (subst inet_pton6_loop.simps) (simp add: scan quad put_number Let_def)
  next
    case False
    let ?A = "take g A @ G ! i # drop (g + 1) A"
    have gi: "unat (groups ! i) = G ! i" using less.prems(1) by (simp add: G_def groups_def)
    have di: "drop i G = G ! i # drop (i + 1) G" using less.prems(1) G by (simp add: Cons_nth_drop_Suc)
    show ?thesis
    proof (cases "i + 1 < 8")
      case last: False
      then have "inet6_format src groups best ipv4 i True = fmt_PRIx16 (groups ! i) @ []"
        unfolding format_group [OF not_sq False] by simp
      moreover have "i = 7" using last less.prems(1) by simp
      ultimately show ?thesis
        using pton6_number_fmt [of "[]" "groups ! i"] di G gi
        by (subst inet_pton6_loop.simps) (simp add: put_number Let_def)
    next
      case more: True
      have next_sq: "\<not> squeezed best ipv4 (i + 1)" using less.prems(4) by simp
      let ?T = "inet6_format src groups best ipv4 (i + 1) True"
      obtain d rest where first: "?T = digit d # rest" "d < 16" by (rule format_first [OF next_sq])
      have t1: "inet6_format src groups best ipv4 i True = fmt_PRIx16 (groups ! i) @ colon # ?T"
        unfolding format_group [OF not_sq False] using more format_colon [OF next_sq] by simp
      have g6: "\<not> 7 \<le> g" using less.prems(1,2) more by linarith
      have number: "inet_pton6_number 4 (fmt_PRIx16 (groups ! i) @ colon # digit d # rest) 0 = Some (G ! i, colon # digit d # rest)"
        using pton6_number_fmt [of "colon # digit d # rest" "groups ! i"] gi by simp
      have "inet_pton6_loop (bytes_of A) L g (fmt_PRIx16 (groups ! i) @ colon # digit d # rest)
          = inet_pton6_loop (bytes_of ?A) L (g + 1) (digit d # rest)"
        using first(2) g6
        by (subst inet_pton6_loop.simps) (simp add: number put_number Let_def digit_facts)
      then have "inet_pton6_loop (bytes_of A) L g (fmt_PRIx16 (groups ! i) @ colon # ?T) = inet_pton6_loop (bytes_of ?A) L (g + 1) ?T"
        unfolding first(1) .
      also have "\<dots> = Some (bytes_of (take (g + 1) ?A @ drop (i + 1) G @ drop (g + 1 + 8 - (i + 1)) ?A), L, g + 1 + 8 - (i + 1))"
        using less.prems more by (intro less.hyps) auto
      also have "take (g + 1) ?A @ drop (i + 1) G @ drop (g + 1 + 8 - (i + 1)) ?A = take g A @ drop i G @ drop (g + 8 - i) A"
      proof -
        have g: "length (take g A) = g" "g + 8 - i \<ge> g + 1" "g + 1 + 8 - (i + 1) = g + 8 - i" using less.prems by simp_all
        have "drop (g + 8 - i) ?A = drop (g + 8 - i) A"
        proof -
          have "g + 8 - i = (7 - i) + (g + 1)" using less.prems(1) by simp
          moreover have "drop (g + 1) ?A = drop (g + 1) A" using g(1) by simp
          ultimately show ?thesis by (simp only: drop_drop [symmetric])
        qed
        moreover have "take (g + 1) ?A = take g A @ [G ! i]" using g(1) by simp
        ultimately show ?thesis unfolding g(3) di by simp
      qed
      finally show ?thesis unfolding t1 using less.prems(1) by simp
    qed
  qed
qed

lemma finish_run:
  assumes "length P + len + length S = 8" "2 \<le> len"
  shows "inet_pton6_finish (bytes_of ((P @ [0, 0] @ S) @ W), length P, length P + 2 + length S)
    = Some (bytes_of (P @ replicate len 0 @ S))"
proof -
  have t: "length P + 2 + length S - length P = 2 + length S" "8 - (2 + length S) = length P + len - 2" using assms by simp_all
  have lead: "put (replicate 16 0) 0 (take (length P * 2) (bytes_of ((P @ [0, 0] @ S) @ W))) = bytes_of (P @ replicate (8 - length P) 0)"
    using put_bytes_of [of "replicate 8 0" 0 P] unfolding take_bytes_of replicate_bytes_of by simp
  have trail: "take ((2 + length S) * 2) (drop (length P * 2) (bytes_of ((P @ [0, 0] @ S) @ W))) = bytes_of ([0, 0] @ S)"
    unfolding drop_bytes_of take_bytes_of by simp
  obtain k where k: "len = k + 2" using assms(2) by (metis add.commute le_Suc_ex)
  have e: "replicate len (0 :: nat) = replicate k 0 @ [0, 0]" unfolding k replicate_add by (simp add: numeral_2_eq_2)
  have s: "take (length P + len - 2) (P @ replicate (8 - length P) 0) = P @ replicate k (0 :: nat)"
    "drop (length P + len - 2 + length ([0, 0] @ S)) (P @ replicate (8 - length P) (0 :: nat)) = []"
    using assms(1) k by (simp_all add: min_def)
  have "put (bytes_of (P @ replicate (8 - length P) 0)) ((length P + len - 2) * 2) (bytes_of ([0, 0] @ S))
      = bytes_of (P @ replicate len 0 @ S)"
    unfolding put_bytes_of s e by simp
  then show ?thesis
    unfolding inet_pton6_finish_def prod.case Let_def t lead trail by simp
qed

lemma finish_end:
  assumes "length P + len = 8"
  shows "inet_pton6_finish (bytes_of (P @ W), length P, length P) = Some (bytes_of (P @ replicate len 0))"
proof -
  have "put (replicate 16 0) 0 (take (length P * 2) (bytes_of (P @ W))) = bytes_of (P @ replicate len 0)"
    using put_bytes_of [of "replicate 8 0" 0 P] assms unfolding take_bytes_of replicate_bytes_of
    by (simp add: algebra_simps flip: assms)
  then show ?thesis using assms by (simp add: inet_pton6_finish_def put_def)
qed

lemma finish_full: "length G = 8 \<Longrightarrow> inet_pton6_finish (bytes_of G, 8, 8) = Some (bytes_of G)"
  using finish_end [of G 0 "[]"] by simp

lemma run_split:
  assumes "c + len \<le> length G" "\<And>j. c \<le> j \<Longrightarrow> j < c + len \<Longrightarrow> G ! j = (0 :: nat)"
  shows "G = take c G @ replicate len 0 @ drop (c + len) G"
proof -
  have "take len (drop c G) = replicate len 0"
    using assms by (intro nth_equalityI) simp_all
  then show ?thesis by (metis append_take_drop_id drop_drop add.commute)
qed

lemma parse_before:
  fixes src and best :: "nat \<times> nat"
  defines "groups \<equiv> inet6_groups src"
  defines "G \<equiv> map unat groups"
  assumes src: "length src = 16" and sq: "squeezed best ipv4 (fst best)" and run: "fst best + snd best \<le> 8"
    "\<And>j. fst best \<le> j \<Longrightarrow> j < fst best + snd best \<Longrightarrow> G ! j = 0"
  shows "i < fst best \<Longrightarrow>
    Option.bind (inet_pton6_loop (bytes_of (take i G @ replicate (8 - i) 0)) 8 i (inet6_format src groups best ipv4 i True))
      inet_pton6_finish = Some (bytes_of G)"
proof (induction "fst best - i" arbitrary: i rule: less_induct)
  case less
  let ?c = "fst best" and ?len = "snd best"
  have len: "1 < ?len" "?c \<le> 6" using sq run(1) by (auto simp: squeezed_def)
  have G: "length G = 8" by (simp add: G_def groups_def)
  have split: "G = take ?c G @ replicate ?len 0 @ drop (?c + ?len) G"
    by (rule run_split) (use G run in simp_all)
  have not_sq: "\<not> squeezed best ipv4 i" "\<not> (i = 6 \<and> ipv4)" using less.prems len(2) by (auto simp: squeezed_def)
  have gi: "unat (groups ! i) = G ! i" using less.prems len(2) by (simp add: G_def groups_def)
  have upd: "take i (take i G @ replicate (8 - i) 0) @ G ! i # drop (i + 1) (take i G @ replicate (8 - i) 0)
      = take (i + 1) G @ replicate (8 - (i + 1)) 0"
    using less.prems len(2) G by (simp add: take_Suc_conv_app_nth)
  let ?F = "\<lambda>i strip. inet6_format src groups best ipv4 i strip"
  have t1: "?F i True = fmt_PRIx16 (groups ! i) @ ?F (i + 1) False"
    unfolding format_group [OF not_sq] using less.prems len(2) by simp
  show ?case
  proof (cases "i + 1 < ?c")
    case True
    then have next_sq: "\<not> squeezed best ipv4 (i + 1)" by (simp add: squeezed_def)
    obtain d rest where first: "?F (i + 1) True = digit d # rest" "d < 16" by (rule format_first [OF next_sq])
    have number: "inet_pton6_number 4 (fmt_PRIx16 (groups ! i) @ colon # digit d # rest) 0 = Some (G ! i, colon # digit d # rest)"
      using pton6_number_fmt [of "colon # digit d # rest" "groups ! i"] gi by simp
    have "\<not> 7 \<le> i" using True len(2) by linarith
    then have "inet_pton6_loop (bytes_of (take i G @ replicate (8 - i) 0)) 8 i (fmt_PRIx16 (groups ! i) @ colon # digit d # rest)
        = inet_pton6_loop (bytes_of (take (i + 1) G @ replicate (8 - (i + 1)) 0)) 8 (i + 1) (digit d # rest)"
      using first(2) unfolding upd [symmetric]
      by (subst inet_pton6_loop.simps) (simp only: number option.case prod.case put_number Let_def, simp add: digit_facts)
    then show ?thesis
      using less.hyps [of "i + 1"] True unfolding t1 format_colon [OF next_sq] first(1) by simp
  next
    case False
    then have c: "i + 1 = ?c" using less.prems by simp
    define P where "P = take ?c G"
    define S where "S = drop (?c + ?len) G"
    have PS: "length P = ?c" "length P + ?len + length S = 8" "G = P @ replicate ?len 0 @ S"
      using G run(1) split by (simp_all add: P_def S_def)
    define R where "R = (if ?c + ?len < 8 then ?F (?c + ?len) True else [])"
    have t2: "?F i True = fmt_PRIx16 (groups ! i) @ colon # colon # R"
      unfolding t1 c format_squeezed [OF sq] R_def by simp
    have number: "inet_pton6_number 4 (fmt_PRIx16 (groups ! i) @ colon # colon # R) 0 = Some (G ! i, colon # colon # R)"
      using pton6_number_fmt [of "colon # colon # R" "groups ! i"] gi by simp
    have upd2: "take i (take i G @ replicate (8 - i) 0) @ G ! i # drop ?c (take i G @ replicate (8 - i) 0)
        = P @ replicate (8 - ?c) 0"
      using upd unfolding c P_def .
    note loop = inet_pton6_loop.simps [of "bytes_of (take i G @ replicate (8 - i) 0)" 8 i "fmt_PRIx16 (groups ! i) @ colon # colon # R",
        unfolded number option.case prod.case put_number Let_def upd2 c]
    show ?thesis
    proof (cases "?c + ?len < 8")
      case stop: False
      then have "R = []" "length P + ?len = 8" "S = []" using run(1) PS by (simp_all add: R_def)
      then show ?thesis unfolding t2 loop using len PS(1,3) finish_end [of P ?len "replicate (8 - ?c) 0"] by simp
    next
      case more: True
      have later: "\<not> squeezed best ipv4 j" if "?c + ?len \<le> j" for j using that len(1) by (simp add: squeezed_def)
      obtain d rest where f: "?F (?c + ?len) True = digit d # rest" "d < 16" by (rule format_first [OF later [OF order_refl]])
      have first: "R = digit d # rest" "d < 16" using f more by (simp_all add: R_def)
      have "inet_pton6_loop (bytes_of (P @ replicate (8 - ?c) 0)) ?c (?c + 2) (?F (?c + ?len) True)
          = Some (bytes_of (take (?c + 2) (P @ replicate (8 - ?c) 0) @ drop (?c + ?len) G
              @ drop (?c + 2 + 8 - (?c + ?len)) (P @ replicate (8 - ?c) 0)), ?c, ?c + 2 + 8 - (?c + ?len))"
        unfolding groups_def G_def by (rule parse_after [OF src]) (use more len later PS(1) in auto)
      moreover have "take (?c + 2) (P @ replicate (8 - ?c) 0) @ drop (?c + ?len) G = P @ [0, 0] @ S"
        using len PS(1) by (simp add: S_def numeral_2_eq_2 min_def)
      moreover have "?c + 2 + 8 - (?c + ?len) = length P + 2 + length S" using PS(1,2) by linarith
      ultimately have after: "inet_pton6_loop (bytes_of (P @ replicate (8 - ?c) 0)) ?c (?c + 2) R
          = Some (bytes_of ((P @ [0, 0] @ S) @ drop (length P + 2 + length S) (P @ replicate (8 - ?c) 0)), length P, length P + 2 + length S)"
        using more PS(1) unfolding R_def by (simp only: append_assoc [symmetric] if_True)
      have "\<not> 6 \<le> ?c" using more len(1) by linarith
      then have "inet_pton6_loop (bytes_of (take i G @ replicate (8 - i) 0)) 8 i (fmt_PRIx16 (groups ! i) @ colon # colon # R)
          = inet_pton6_loop (bytes_of (P @ replicate (8 - ?c) 0)) ?c (?c + 2) R"
        unfolding loop using first by (simp add: digit_facts)
      then show ?thesis unfolding t2 after using finish_run [OF PS(2)] len(1) PS(3) by simp
    qed
  qed
qed

lemma pton6_ntop6:
  assumes src: "length src = 16" and best: "inet6_zeroes (inet6_groups src) 0 (0, 0) (0, 0) = best"
  shows "inet_pton6 (inet6_format src (inet6_groups src) best ipv4 0 True) = Some src"
proof -
  let ?G = "map unat (inet6_groups src)" and ?F = "inet6_format src (inet6_groups src) best ipv4"
  have G: "bytes_of ?G = src" "length ?G = 8" using bytes_of_groups [OF src] by simp_all
  have run: "fst best + snd best \<le> 8" "\<And>j. fst best \<le> j \<Longrightarrow> j < fst best + snd best \<Longrightarrow> ?G ! j = 0"
    using zeroes_correct [OF best] by simp_all
  show ?thesis
  proof (cases "squeezed best ipv4 (fst best)")
    case False
    then have never: "\<not> squeezed best ipv4 j" for j by (auto simp: squeezed_def)
    obtain d rest where first: "?F 0 True = digit d # rest" "d < 16" by (rule format_first [OF never])
    have "inet_pton6_loop (bytes_of (replicate 8 0)) 8 0 (?F 0 True) = Some (bytes_of ?G, 8, 8)"
      using parse_after [OF src, of 0 0 "replicate 8 0" best ipv4 8] never by simp
    then show ?thesis
      using finish_full [OF G(2)] G(1) first digit_facts(2) [OF first(2)]
      unfolding inet_pton6_def replicate_bytes_of by simp
  next
    case sq: True
    show ?thesis
    proof (cases "fst best = 0")
      case False
      then have "\<not> squeezed best ipv4 0" by (simp add: squeezed_def)
      then obtain d rest where first: "?F 0 True = digit d # rest" "d < 16" by (rule format_first)
      show ?thesis
        using parse_before [OF src sq run, of 0] False G(1) first digit_facts(2) [OF first(2)]
        unfolding inet_pton6_def replicate_bytes_of by simp
    next
      case start: True
      define S where "S = drop (snd best) ?G"
      have len: "1 < snd best" using sq by (simp add: squeezed_def)
      have S: "?G = replicate (snd best) 0 @ S" "snd best + length S = 8"
        using run_split [of 0 "snd best" ?G] run start G(2) by (simp_all add: S_def)
      have "?F 0 True = colon # colon # (if snd best < 8 then ?F (snd best) True else [])"
        using format_squeezed [OF sq] start by simp
      note t = this
      show ?thesis
      proof (cases "snd best < 8")
        case False
        then have "length S = 0" "snd best = 8" using S(2) by linarith+
        then show ?thesis using S(1) G(1) t False unfolding inet_pton6_def replicate_bytes_of by simp
      next
        case True
        have later: "\<not> squeezed best ipv4 j" if "snd best \<le> j" for j using that len start by (simp add: squeezed_def)
        obtain d rest where first: "?F (snd best) True = digit d # rest" "d < 16" by (rule format_first [OF later [OF order_refl]])
        have "inet_pton6_loop (bytes_of (replicate 8 0)) 0 2 (?F (snd best) True)
            = Some (bytes_of (take 2 (replicate 8 0) @ drop (snd best) ?G @ drop (2 + 8 - snd best) (replicate 8 0)), 0, 2 + 8 - snd best)"
          by (rule parse_after [OF src]) (use True len later in auto)
        moreover have "take 2 (replicate 8 (0 :: nat)) @ drop (snd best) ?G = ([] @ [0, 0] @ S)"
          by (simp add: S_def numeral_eq_Suc)
        moreover have "2 + 8 - snd best = length ([] :: nat list) + 2 + length S" using S(2) by simp
        ultimately have "inet_pton6_loop (bytes_of (replicate 8 0)) 0 2 (?F (snd best) True)
            = Some (bytes_of (([] @ [0, 0] @ S) @ drop (2 + length S) (replicate 8 0)), length ([] :: nat list), length ([] :: nat list) + 2 + length S)"
          by (simp only: append_assoc [symmetric] list.size add_0)
        moreover have "inet_pton6_finish (bytes_of (([] @ [0, 0] @ S) @ drop (2 + length S) (replicate 8 0)), length ([] :: nat list), length ([] :: nat list) + 2 + length S) = Some (bytes_of ?G)"
          using finish_run [of "[]" "snd best" S] S len by simp
        ultimately show ?thesis
          using True G(1) first digit_facts(4) [OF first(2)] unfolding inet_pton6_def replicate_bytes_of t by simp
      qed
    qed
  qed
qed

section \<open>What the parser accepts as an IPv4 address\<close>

lemma dotted_quad_length: "length (dotted_quad src) < 16"
proof -
  have "length (fmt_PRIu8 x) \<le> 3" for x by (rule fmt_PRIu8_cases [of x]) simp
  from this [of "src ! 0"] this [of "src ! 1"] this [of "src ! 2"] this [of "src ! 3"]
  show ?thesis by (simp add: dotted_quad_def)
qed

lemma is_digit_value:
  assumes "is_digit c"
  shows "c = digit (unat c - 48)" "unat c - 48 < 10" "c \<noteq> 48 \<longleftrightarrow> 0 < unat c - 48"
proof -
  have u: "48 \<le> unat c" "unat c \<le> 57" using assms by (simp_all add: is_digit_def word_le_nat_alt)
  then show l: "unat c - 48 < 10" by linarith
  have "digit (unat c - 48) = word_of_nat (48 + (unat c - 48))" using l by (simp only: digit_def if_True)
  also have "48 + (unat c - 48) = unat c" using u by simp
  finally show "c = digit (unat c - 48)" by simp
  then show "c \<noteq> 48 \<longleftrightarrow> 0 < unat c - 48" using dec_digit_facts(3) [OF l] by (simp add: not_le)
qed

lemma peek_digit:
  assumes "is_digit (peek src 0)"
  obtains d rest where "src = digit d # rest" "d < 10" "unat (peek src 0) - 48 = d" "drop 1 src = rest"
proof (cases src)
  case Nil
  then show thesis using assms by simp
next
  case (Cons c rest)
  then show thesis using assms is_digit_value [of c] that [of "unat c - 48" rest] by simp
qed

lemma pton4_number_accepts:
  assumes "inet_pton4_number src = Some (n, rest)"
  shows "n < 256" "src = map digit (dec_digits n) @ rest"
proof -
  have "n < 256 \<and> src = map digit (dec_digits n) @ rest"
  proof (cases "peek src 0 = 48")
    case True
    then obtain "src = 48 # rest" "n = 0" using assms by (cases src) (auto simp: inet_pton4_number_def)
    then show ?thesis by (simp add: dec_digits.simps digit_def)
  next
    case False
    then have lead: "is_digit (peek src 0)" using assms
      by (auto simp: inet_pton4_number_def is_digit_def word_le_nat_alt split: if_splits)
    obtain d src1 where d: "src = digit d # src1" "d < 10" "unat (peek src 0) - 48 = d" "drop 1 src = src1"
      by (rule peek_digit [OF lead])
    have d0: "0 < d" using False d is_digit_value(3) [OF lead] by simp
    have range: "49 \<le> peek src 0 \<and> peek src 0 \<le> 57" using dec_digit_facts(4) [OF d(2) d0] d(1) by simp
    note step = assms [unfolded inet_pton4_number_def Let_def, unfolded d(3,4)]
    show ?thesis
    proof (cases "is_digit (peek src1 0)")
      case stop: False
      then show ?thesis using step False range d d0 by (auto simp: dec_digits_cases split: if_splits)
    next
      case more: True
      obtain e src2 where e: "src1 = digit e # src2" "e < 10" "unat (peek src1 0) - 48 = e" "drop 1 src1 = src2"
        by (rule peek_digit [OF more])
      show ?thesis
      proof (cases "is_digit (peek src2 0)")
        case stop: False
        then have "n = d * 10 + e" "rest = src2" using step False range more e by (auto split: if_splits)
        then show ?thesis using d d0 e by (simp add: dec_digits_cases)
      next
        case last: True
        obtain f src3 where f: "src2 = digit f # src3" "f < 10" "unat (peek src2 0) - 48 = f" "drop 1 src2 = src3"
          by (rule peek_digit [OF last])
        have n: "n = (d * 10 + e) * 10 + f" "rest = src3" "n < 256" using step False range more last e f by (auto split: if_splits)
        have q: "n div 10 = d * 10 + e" by (rule div_nat_eqI) (use n(1) f(2) in simp_all)
        have "n div 100 = d" by (rule div_nat_eqI) (use n(1) e(2) f(2) in simp_all)
        moreover have "n mod 10 = f"
        proof -
          have "(d * 10 + e) * 10 + n mod 10 = (d * 10 + e) * 10 + f" using div_mult_mod_eq [of n 10] unfolding q n(1) [symmetric] .
          then show ?thesis by (rule add_left_imp_eq)
        qed
        moreover have "n div 10 mod 10 = e" using q e(2) by simp
        moreover have "100 \<le> n" using n(1) d0 by simp
        ultimately show ?thesis using n(2,3) d(1) e(1) f(1) by (simp add: dec_digits_cases)
      qed
    qed
  qed
  then show "n < 256" "src = map digit (dec_digits n) @ rest" by simp_all
qed

lemma pton4_number_text:
  assumes "inet_pton4_number src = Some (n, rest)"
  shows "src = fmt_PRIu8 (word_of_nat n) @ rest"
proof -
  have "unat (word_of_nat n :: u8) = n" using pton4_number_accepts(1) [OF assms] by (simp add: unat_of_nat take_bit_eq_mod)
  then show ?thesis using pton4_number_accepts(2) [OF assms] by (simp add: fmt_PRIu8_def)
qed

lemma pton4_loop_step:
  assumes "inet_pton4_loop (Suc n) src = Some a"
  obtains x rest as where "a = x # as" "src = fmt_PRIu8 x @ rest" "peek rest 0 = (if n = 0 then 0 else dot)"
    "inet_pton4_loop n (drop 1 rest) = Some as"
  using assms that by (auto split: option.splits if_splits dest!: pton4_number_text)

lemma pton4_accepts:
  assumes "inet_pton4 s = Some a" "0 \<notin> set s"
  obtains "length a = 4" "s = dotted_quad a"
proof -
  have more: "rest = dot # drop 1 rest" if "peek rest 0 = dot" for rest using that by (cases rest) simp_all
  have l4: "inet_pton4_loop (Suc 3) s = Some a" using assms(1) by (simp add: inet_pton4_def del: inet_pton4_loop.simps)
  obtain x r xs where 1: "a = x # xs" "s = fmt_PRIu8 x @ r" "peek r 0 = (if 3 = (0 :: nat) then 0 else dot)"
    "inet_pton4_loop 3 (drop 1 r) = Some xs" by (rule pton4_loop_step [OF l4])
  then have l3: "inet_pton4_loop (Suc 2) (drop 1 r) = Some xs" by (simp del: inet_pton4_loop.simps)
  obtain y r2 ys where 2: "xs = y # ys" "drop 1 r = fmt_PRIu8 y @ r2" "peek r2 0 = (if 2 = (0 :: nat) then 0 else dot)"
    "inet_pton4_loop 2 (drop 1 r2) = Some ys" by (rule pton4_loop_step [OF l3])
  then have l2: "inet_pton4_loop (Suc 1) (drop 1 r2) = Some ys" by (simp add: numeral_2_eq_2 del: inet_pton4_loop.simps)
  obtain z r3 zs where 3: "ys = z # zs" "drop 1 r2 = fmt_PRIu8 z @ r3" "peek r3 0 = (if 1 = (0 :: nat) then 0 else dot)"
    "inet_pton4_loop 1 (drop 1 r3) = Some zs" by (rule pton4_loop_step [OF l2])
  then have l1: "inet_pton4_loop (Suc 0) (drop 1 r3) = Some zs" by (simp del: inet_pton4_loop.simps)
  obtain w r4 where 4: "zs = [w]" "drop 1 r3 = fmt_PRIu8 w @ r4" "peek r4 0 = 0"
    by (rule pton4_loop_step [OF l1]) simp
  have dots: "peek r 0 = dot" "peek r2 0 = dot" "peek r3 0 = dot" using 1(3) 2(3) 3(3) by simp_all
  have r: "r = dot # fmt_PRIu8 y @ r2" "r2 = dot # fmt_PRIu8 z @ r3" "r3 = dot # fmt_PRIu8 w @ r4"
    using dots [THEN more] unfolding 2(2) 3(2) 4(2) .
  have s: "s = fmt_PRIu8 x @ [dot] @ fmt_PRIu8 y @ [dot] @ fmt_PRIu8 z @ [dot] @ fmt_PRIu8 w @ r4"
    unfolding 1(2) r by simp
  then have "r4 = []" using assms(2) 4(3) by (cases r4) auto
  then show thesis using s 1(1) 2(1) 3(1) 4(1) by (intro that) (simp_all add: dotted_quad_def)
qed

section \<open>Properties\<close>

text \<open>
  C7: \<open>inet_pton()\<close> inverts \<open>inet_ntop()\<close> for every IPv4 and every IPv6 address: the printed text, with its
  longest run of zero groups written as \<open>::\<close> and with a trailing dotted quad for embedded IPv4
  addresses, always fits the buffer sizes \<open>INET_ADDRSTRLEN\<close> and \<open>INET6_ADDRSTRLEN\<close> and is parsed to the
  bytes it was printed from.
\<close>

theorem inet_roundtrip:
  assumes "(af, n, sz) = (AF_INET, 4, 16) \<or> (af, n, sz) = (AF_INET6, 16, 46)" "length src = n"
  shows "\<exists>s. inet_ntop af src sz = Inr s \<and> inet_pton af s = Inr (Some src)"
  using assms(1)
proof
  assume a: "(af, n, sz) = (AF_INET, 4, 16)"
  then show ?thesis using dotted_quad_length [of src] assms(2) pton4_dotted_quad [of src] by (simp add: inet_ntop_def inet_pton_def inet_ntop_inet_def)
next
  assume a: "(af, n, sz) = (AF_INET6, 16, 46)"
  let ?b = "inet6_zeroes (inet6_groups src) 0 (0, 0) (0, 0)" and ?v = "IN6_IS_ADDR_V4COMPAT src \<or> IN6_IS_ADDR_V4MAPPED src"
  have "length (inet6_format src (inet6_groups src) ?b ?v 0 True) \<le> 45"
    using format_length [of 0 src "inet6_groups src" ?b ?v True] by simp
  moreover have "inet_pton6 (inet6_format src (inet6_groups src) ?b ?v 0 True) = Some src"
    by (rule pton6_ntop6) (use a assms(2) in simp_all)
  ultimately show ?thesis
    using a by (simp add: inet_ntop_def inet_pton_def inet_ntop_inet6_def AF_INET_def AF_INET6_def Let_def)
qed

theorem inet_roundtrip_witness:
  "\<exists>s. inet_ntop AF_INET6 [0x20, 1, 0xd, 0xb8, 0, 0, 0, 0, 0, 0, 0, 0, 0, 0, 0, 1] 46 = Inr s
    \<and> inet_pton AF_INET6 s = Inr (Some [0x20, 1, 0xd, 0xb8, 0, 0, 0, 0, 0, 0, 0, 0, 0, 0, 0, 1])"
  by (rule inet_roundtrip [where n = 16]) simp_all

text \<open>
  C30: \<open>inet_pton()\<close> accepts no other text for an IPv4 address than the one that \<open>inet_ntop()\<close> prints: a
  string that it accepts is exactly four decimal numbers up to 255, without leading zeroes and
  without any text before, between or after them.
\<close>

theorem inet_pton4_canonical:
  assumes "inet_pton AF_INET s = Inr (Some a)" "0 \<notin> set s"
  shows "inet_ntop AF_INET a 16 = Inr s"
proof -
  have "inet_pton4 s = Some a" using assms(1) by (simp add: inet_pton_def)
  then obtain "length a = 4" "s = dotted_quad a" by (rule pton4_accepts) (rule assms(2))
  then show ?thesis using dotted_quad_length [of a] by (simp add: inet_ntop_def inet_ntop_inet_def)
qed

theorem inet_pton4_canonical_witness:
  "inet_ntop AF_INET [10, 0, 0, 1] 16 = Inr [49, 48, 46, 48, 46, 48, 46, 49]"
proof (rule inet_pton4_canonical)
  show "inet_pton AF_INET [49, 48, 46, 48, 46, 48, 46, 49] = Inr (Some [10, 0, 0, 1])"
    by code_simp
qed simp

end
