(* ===== verification/Strtoint.thy ===== *)
theory Strtoint
  imports CodePages InetCorrect
begin

unbundle bit_operations_syntax

text \<open>
  The parser of integers: \<^verbatim>\<open>common/parser_strtoint.h\<close> and \<^verbatim>\<open>parser_whitespace.h\<close>, the functions
  \<open>strtol_l()\<close>, \<open>strtoul_l()\<close> and so on that \<^verbatim>\<open>common/strtoint.h\<close> generates, with narrow and
  wide characters, and \<open>inet_aton()\<close>. A string is the list of its characters before the terminating null
  character, which reading past the end of the list gives. The type \<open>int_t\<close> of the result is its
  signedness and width, and its values are integers.
\<close>

section \<open>Operations\<close>

definition PEEK :: "'a::len word list \<Rightarrow> nat \<Rightarrow> 'a word" where
  "PEEK s n = (if n < length s then s ! n else 0)"

record int_type =
  is_signed :: bool
  bits :: nat

definition to_int_t :: "int_type \<Rightarrow> u64 \<Rightarrow> int" where
  "to_int_t ty w = (if is_signed ty then signed_take_bit (bits ty - 1) (uint w) else take_bit (bits ty) (uint w))"

definition NUMERIC_MIN :: "int_type \<Rightarrow> int" where
  "NUMERIC_MIN ty = (if is_signed ty then - (2 ^ (bits ty - 1)) else 0)"

definition NUMERIC_MAX :: "int_type \<Rightarrow> int" where
  "NUMERIC_MAX ty = (if is_signed ty then 2 ^ (bits ty - 1) - 1 else 2 ^ bits ty - 1)"

text \<open>The sign, and the base with the prefix of hexadecimal numbers.\<close>

definition parser_sign :: "bool \<Rightarrow> 'a::len word list \<Rightarrow> bool \<times> 'a word list" where
  "parser_sign allow_negative s =
     (if allow_negative \<and> PEEK s 0 = 45 then (True, drop 1 s)
      else if PEEK s 0 = 43 then (False, drop 1 s)
      else (False, s))"

definition parser_base :: "int \<Rightarrow> 'a::len word list \<Rightarrow> int \<times> 'a word list" where
  "parser_base base s =
     (if (base = 0 \<or> base = 16) \<and> PEEK s 0 = 48 \<and> (PEEK s 1 = 120 \<or> PEEK s 1 = 88)
         \<and> ((48 \<le> PEEK s 2 \<and> PEEK s 2 \<le> 57) \<or> (65 \<le> PEEK s 2 \<and> PEEK s 2 \<le> 70) \<or> (97 \<le> PEEK s 2 \<and> PEEK s 2 \<le> 102))
      then (16, drop 2 s)
      else if base = 0 then (if PEEK s 0 = 48 then 8 else 10, s)
      else (base, s))"

definition digit_value :: "'a::len word \<Rightarrow> u8 option" where
  "digit_value c =
     (if 48 \<le> c \<and> c \<le> 57 then Some (ucast (c - 48))
      else if 65 \<le> c \<and> c \<le> 90 then Some (ucast (c - 65) + 10)
      else if 97 \<le> c \<and> c \<le> 122 then Some (ucast (c - 97) + 10)
      else None)"

fun parser_digits ::
    "u8 \<Rightarrow> u64 \<Rightarrow> u8 \<Rightarrow> 'a::len word list \<Rightarrow> u64 \<Rightarrow> bool \<Rightarrow> bool \<Rightarrow> u64 \<times> bool \<times> bool \<times> 'a word list" where
  "parser_digits radix ceil last_digit [] val have_number have_overflow = (val, have_number, have_overflow, [])"
| "parser_digits radix ceil last_digit (c # s) val have_number have_overflow =
     (case digit_value c of
        None \<Rightarrow> (val, have_number, have_overflow, c # s)
      | Some d \<Rightarrow>
          if d \<ge> radix then (val, have_number, have_overflow, c # s)
          else if val > ceil \<or> (val = ceil \<and> d > last_digit)
          then parser_digits radix ceil last_digit s val True True
          else parser_digits radix ceil last_digit s (val * ucast radix + ucast d) True have_overflow)"

record 'a parsed =
  have_number :: bool
  have_overflow :: bool
  number :: int
  remaining :: "'a list"

definition parser_strtoint ::
    "int_type \<Rightarrow> int \<Rightarrow> int \<Rightarrow> bool \<Rightarrow> int \<Rightarrow> 'a::len word list \<Rightarrow> 'a word parsed" where
  "parser_strtoint ty minv maxv allow_negative base s =
     (let (negative, s) = parser_sign allow_negative s;
          (base, s) = parser_base base s
      in if 2 \<le> base \<and> base \<le> 36 then
           (let radix = word_of_int base :: u8;
                ceil = word_of_int (if negative then - cdiv minv (uint radix) else cdiv maxv (uint radix));
                last_digit = word_of_int (if negative then - cmod minv (uint radix) else cmod maxv (uint radix));
                (val, have_number, have_overflow, s) = parser_digits radix ceil last_digit s 0 False False
            in \<lparr>have_number = have_number, have_overflow = have_overflow,
                number = (if have_overflow then (if \<not> is_signed ty \<or> \<not> negative then maxv else minv)
                          else to_int_t ty (if negative then - val else val)),
                remaining = s\<rparr>)
         else \<lparr>have_number = False, have_overflow = False, number = 0, remaining = s\<rparr>)"

definition iswspace :: "u32 \<Rightarrow> bool" where
  "iswspace wc \<longleftrightarrow>
     (wc \<ge> 0x9 \<and> wc \<le> 0xd) \<or> wc = 0x20 \<or> wc = 0x1680
     \<or> (wc \<ge> 0x2000 \<and> wc \<le> 0x2006) \<or> (wc \<ge> 0x2008 \<and> wc \<le> 0x200a)
     \<or> (wc \<ge> 0x2028 \<and> wc \<le> 0x2029) \<or> wc = 0x205f \<or> wc = 0x3000"

text \<open>
  White space of narrow strings: bytes are decoded one at a time until a character is complete. The
  result has the error that a decoder leaves in \<open>errno\<close>. The null byte decodes to the null character,
  which is not white space, in every encoding.
\<close>

fun whitespace_char :: "lc_ctype \<Rightarrow> u8 list \<Rightarrow> mbstate_t \<Rightarrow> decoded \<times> u8 list" where
  "whitespace_char ctype [] mbs = (mbtoc32 ctype [0] mbs, [])"
| "whitespace_char ctype (b # s) mbs =
     (case mbtoc32 ctype [b] mbs of Partial p \<Rightarrow> whitespace_char ctype s p | r \<Rightarrow> (r, s))"

lemma whitespace_char_length: "length (snd (whitespace_char ctype s mbs)) \<le> length s - 1"
  by (induction ctype s mbs rule: whitespace_char.induct) (auto split: decoded.split intro: le_trans)

function parser_whitespace :: "lc_ctype \<Rightarrow> u8 list \<Rightarrow> mbstate_t \<Rightarrow> errno option \<times> u8 list" where
  "parser_whitespace ctype s mbs =
     (case whitespace_char ctype s mbs of
        (Char n c32 p, s') \<Rightarrow>
          if n = 0 \<or> \<not> iswspace c32 \<or> s = [] then (None, s) else parser_whitespace ctype s' p
      | (Partial p, s') \<Rightarrow> (None, s)
      | (Illegal p, s') \<Rightarrow> (Some EILSEQ, s))"
  by pat_completeness auto
termination
proof (relation "measure (\<lambda>(ctype, s, mbs). length s)")
  show "((ctype, s', p), ctype, s, mbs) \<in> measure (\<lambda>(ctype, s, mbs). length s)"
    if "(d, s') = whitespace_char ctype s mbs" "\<not> (n = 0 \<or> \<not> iswspace c32 \<or> s = [])"
    for ctype :: lc_ctype and s mbs d s' n c32 p
    using that whitespace_char_length [of ctype s mbs] by (cases s) (auto simp: that(1) [symmetric] dest: sym)
qed simp


text \<open>The value that \<open>errno\<close> gets, the result, and the number of characters up to \<open>*endptr\<close>.\<close>

definition strtoint_result ::
    "errno option \<Rightarrow> 'a::len word list \<Rightarrow> 'a word parsed \<Rightarrow> errno option \<times> int \<times> nat" where
  "strtoint_result err str p =
     (if \<not> have_number p then Some EINVAL else if have_overflow p then Some ERANGE else err,
      number p, if have_number p then length str - length (remaining p) else 0)"

definition strtoint_narrow :: "int_type \<Rightarrow> u8 list \<Rightarrow> int \<Rightarrow> lc_ctype \<Rightarrow> errno option \<times> int \<times> nat" where
  "strtoint_narrow ty str base ctype =
     (let (err, s) = parser_whitespace ctype str mbstate_init
      in strtoint_result err str (parser_strtoint ty (NUMERIC_MIN ty) (NUMERIC_MAX ty) True base s))"



definition strtoul_l :: "u8 list \<Rightarrow> int \<Rightarrow> lc_ctype \<Rightarrow> errno option \<times> int \<times> nat" where
  "strtoul_l = strtoint_narrow \<lparr>is_signed = False, bits = 64\<rparr>"

definition strtoll_l :: "u8 list \<Rightarrow> int \<Rightarrow> lc_ctype \<Rightarrow> errno option \<times> int \<times> nat" where
  "strtoll_l = strtoint_narrow \<lparr>is_signed = True, bits = 64\<rparr>"

definition strtoull_l :: "u8 list \<Rightarrow> int \<Rightarrow> lc_ctype \<Rightarrow> errno option \<times> int \<times> nat" where
  "strtoull_l = strtoint_narrow \<lparr>is_signed = False, bits = 64\<rparr>"

definition strtoimax_l :: "u8 list \<Rightarrow> int \<Rightarrow> lc_ctype \<Rightarrow> errno option \<times> int \<times> nat" where
  "strtoimax_l = strtoint_narrow \<lparr>is_signed = True, bits = 64\<rparr>"

definition strtoumax_l :: "u8 list \<Rightarrow> int \<Rightarrow> lc_ctype \<Rightarrow> errno option \<times> int \<times> nat" where
  "strtoumax_l = strtoint_narrow \<lparr>is_signed = False, bits = 64\<rparr>"



text \<open>
  The first argument of the loop is \<open>shift\<close> in bytes. The address is the list of its bytes in network
  order.
\<close>

fun inet_aton_loop :: "nat \<Rightarrow> u32 \<Rightarrow> u32 \<Rightarrow> u8 list \<Rightarrow> u32 option" where
  "inet_aton_loop shift maxv leading cp =
     (let p = parser_strtoint \<lparr>is_signed = False, bits = 32\<rparr> 0 (uint maxv) False 0 cp;
          cp = remaining p; nr = word_of_int (number p) :: u32
      in if \<not> have_number p \<or> have_overflow p then None
         else if PEEK cp 0 = 0 then Some (leading OR nr)
         else (case shift of
                 0 \<Rightarrow> None
               | Suc shift' \<Rightarrow>
                   if nr \<le> 255 \<and> PEEK cp 0 = dot
                   then inet_aton_loop shift' (drop_bit 8 maxv) (leading OR push_bit (8 * shift) nr) (drop 1 cp)
                   else None))"

declare inet_aton_loop.simps [simp del] parser_whitespace.simps [simp del]

definition htonl_bytes :: "u32 \<Rightarrow> u8 list" where
  "htonl_bytes x = [ucast (drop_bit 24 x), ucast (drop_bit 16 x), ucast (drop_bit 8 x), ucast x]"

definition inet_aton :: "u8 list \<Rightarrow> u8 list option" where
  "inet_aton cp = map_option htonl_bytes (inet_aton_loop 3 0xffffffff 0 cp)"

section \<open>The value of a number\<close>

definition is_digit_of :: "nat \<Rightarrow> 'a::len word \<Rightarrow> bool" where
  "is_digit_of radix c \<longleftrightarrow> (case digit_value c of None \<Rightarrow> False | Some d \<Rightarrow> unat d < radix)"

definition digits_of :: "nat \<Rightarrow> 'a::len word list \<Rightarrow> nat list" where
  "digits_of radix s = map (\<lambda>c. unat (the (digit_value c))) (takeWhile (is_digit_of radix) s)"

definition horner :: "nat \<Rightarrow> nat \<Rightarrow> nat list \<Rightarrow> nat" where
  "horner radix a ds = foldl (\<lambda>a d. a * radix + d) a ds"

lemma horner_simps [simp]: "horner r a [] = a" "horner r a (d # ds) = horner r (a * r + d) ds"
  by (simp_all add: horner_def)

lemma horner_ge: "0 < r \<Longrightarrow> a \<le> horner r a ds"
proof (induction ds arbitrary: a)
  case (Cons d ds)
  have "a \<le> a * r + d" using Cons.prems by (simp add: trans_le_add1)
  then show ?case using Cons.IH [OF Cons.prems, of "a * r + d"] by simp
qed simp

lemma digits_of_simps [simp]:
  "digits_of r [] = []"
  "digits_of r (c # s) = (if is_digit_of r c then unat (the (digit_value c)) # digits_of r s else [])"
  by (simp_all add: digits_of_def)


text \<open>The test before a digit is added is exact.\<close>

lemma ceil_test:
  assumes "(q :: nat) * r + l < 2 ^ 64" "l < r" "d < r"
  shows "v > q \<or> v = q \<and> d > l \<longleftrightarrow> q * r + l < v * r + d"
proof (cases v q rule: linorder_cases)
  case less
  then have "Suc v * r \<le> q * r" by (intro mult_le_mono1) simp
  then have "v * r + d < q * r + l" using assms(3) by simp
  then show ?thesis using less by simp
next
  case equal
  then show ?thesis by simp
next
  case greater
  then have "Suc q * r \<le> v * r" by (intro mult_le_mono1) simp
  then have "q * r + l < v * r + d" using assms(2) by simp
  then show ?thesis using greater by simp
qed

lemma parser_digits_correct:
  fixes s :: "'a::len word list" and radix last_digit :: u8 and ceil :: u64
  defines "L \<equiv> unat ceil * unat radix + unat last_digit"
  assumes L: "L < 2 ^ 64" "unat last_digit < unat radix"
  shows "parser_digits radix ceil last_digit s val hn ho = (v, hn', ho', rest) \<Longrightarrow> unat val \<le> L \<Longrightarrow>
    rest = drop (length (digits_of (unat radix) s)) s \<and> hn' = (hn \<or> digits_of (unat radix) s \<noteq> []) \<and> (ho \<longrightarrow> ho')
    \<and> (\<not> ho \<longrightarrow> (ho' \<longleftrightarrow> L < horner (unat radix) (unat val) (digits_of (unat radix) s))
                   \<and> (\<not> ho' \<longrightarrow> unat v = horner (unat radix) (unat val) (digits_of (unat radix) s)))"
proof (induction s arbitrary: val hn ho)
  case Nil
  then show ?case by auto
next
  case (Cons c s)
  show ?case
  proof (cases "is_digit_of (unat radix) c")
    case False
    then have "parser_digits radix ceil last_digit (c # s) val hn ho = (val, hn, ho, c # s)"
      by (auto simp: is_digit_of_def word_le_nat_alt split: option.splits)
    then show ?thesis using False Cons.prems by auto
  next
    case True
    then obtain d where d: "digit_value c = Some d" "unat d < unat radix" by (auto simp: is_digit_of_def split: option.splits)
    have test: "val > ceil \<or> (val = ceil \<and> d > last_digit) \<longleftrightarrow> L < unat val * unat radix + unat d"
      using ceil_test [OF L(1) [unfolded L_def] L(2) d(2), of "unat val"] unfolding L_def
      by (simp add: word_less_nat_alt word_unat_eq_iff)
    have step: "parser_digits radix ceil last_digit (c # s) val hn ho =
        (if L < unat val * unat radix + unat d then parser_digits radix ceil last_digit s val True True
         else parser_digits radix ceil last_digit s (val * ucast radix + ucast d) True ho)"
      using d by (simp add: test word_le_nat_alt)
    show ?thesis
    proof (cases "L < unat val * unat radix + unat d")
      case over: True
      then have "parser_digits radix ceil last_digit s val True True = (v, hn', ho', rest)"
        using Cons.prems(1) unfolding step by simp
      note IH = Cons.IH [OF this Cons.prems(2)]
      have "L < horner (unat radix) (unat val * unat radix + unat d) (digits_of (unat radix) s)"
        using over horner_ge [of "unat radix" "unat val * unat radix + unat d" "digits_of (unat radix) s"] d(2) by linarith
      then show ?thesis using IH True d by simp
    next
      case fits: False
      have e: "unat (ucast x :: u64) = unat x" for x :: u8
        using unat_u8_less [of x] by (simp add: unsigned_ucast_eq take_bit_nat_eq_self)
      have "unat val * unat radix + unat d < 2 ^ 64" using fits L(1) by linarith
      then have u: "unat (val * ucast radix + ucast d) = unat val * unat radix + unat d"
        unfolding unat_word_ariths e by simp
      have "parser_digits radix ceil last_digit s (val * ucast radix + ucast d) True ho = (v, hn', ho', rest)"
        using Cons.prems(1) fits unfolding step by simp
      note IH = Cons.IH [OF this]
      then show ?thesis using True d fits unfolding u by simp
    qed
  qed
qed

section \<open>The result of the parser\<close>

text \<open>The types of results that the code uses, with the bounds of the parser.\<close>

definition int_type_ok :: "int_type \<Rightarrow> int \<Rightarrow> int \<Rightarrow> bool" where
  "int_type_ok ty minv maxv \<longleftrightarrow>
     is_signed ty \<and> bits ty = 64 \<and> minv = - (2 ^ 63) \<and> maxv = 2 ^ 63 - 1
     \<or> \<not> is_signed ty \<and> bits ty \<le> 64 \<and> minv = 0 \<and> 0 \<le> maxv \<and> maxv < 2 ^ bits ty"

lemma int_type_ok_bounds:
  assumes "int_type_ok ty minv maxv"
  shows "minv \<le> 0" "0 \<le> maxv" "- minv < 2 ^ 64" "maxv < 2 ^ 64"
proof -
  have "maxv < 2 ^ 64" if "bits ty \<le> 64" "maxv < 2 ^ bits ty"
    using that power_increasing [of "bits ty" 64 "2 :: int"] by linarith
  then show "minv \<le> 0" "0 \<le> maxv" "- minv < 2 ^ 64" "maxv < 2 ^ 64" using assms unfolding int_type_ok_def by auto
qed

lemma cdiv_nonpos: "a \<le> 0 \<Longrightarrow> 0 < b \<Longrightarrow> - cdiv a b = - a div b \<and> - cmod a b = - a mod b"
  by (cases "a = 0") (simp_all add: cdiv_nonneg cmod_nonneg cdiv_neg cmod_neg)

text \<open>\<open>ceil\<close> and \<open>last_digit\<close> are the quotient and the remainder of the largest magnitude.\<close>

lemma ceil_of:
  fixes M :: nat and radix :: u8
  assumes M: "M < 2 ^ 64" and r: "0 < unat radix"
  shows "unat (word_of_int (int M div uint radix) :: u64) = M div unat radix"
    "unat (word_of_int (int M mod uint radix) :: u8) = M mod unat radix"
proof -
  have i: "uint radix = int (unat radix)" by simp
  have "M div unat radix < 2 ^ 64" using M div_le_dividend [of M "unat radix"] by linarith
  then show "unat (word_of_int (int M div uint radix) :: u64) = M div unat radix"
    unfolding i zdiv_int [symmetric] by (simp add: take_bit_nat_eq_self unsigned_of_nat)
  have "M mod unat radix < 256" using mod_less_divisor [OF r, of M] unat_u8_less [of radix] by linarith
  then show "unat (word_of_int (int M mod uint radix) :: u8) = M mod unat radix"
    unfolding i zmod_int [symmetric] by (simp add: take_bit_nat_eq_self unsigned_of_nat)
qed

lemma to_int_t_value:
  assumes ok: "int_type_ok ty minv maxv" and u: "int (unat w) \<le> (if negative then - minv else maxv)"
  shows "to_int_t ty (if negative then - w else w) = (if negative then - int (unat w) else int (unat w))"
proof (cases "is_signed ty")
  case True
  then have b: "bits ty = 64" "minv = - (2 ^ 63)" "maxv = 2 ^ 63 - 1" using ok by (auto simp: int_type_ok_def)
  have s: "signed_take_bit 63 (uint x) = sint x" for x :: u64 by (simp add: sint_uint)
  have lo: "- 9223372036854775808 \<le> uint w" "- uint w < 9223372036854775808" using uint_ge_0 [of w] by linarith+
  have k: "sint (word_of_int k :: u64) = k" if "- (2 ^ 63) \<le> k" "k < 2 ^ 63" for k
    using signed_take_bit_int_eq_self [of 63 k] that by (simp add: signed_of_int)
  have "sint w = uint w" if "\<not> negative" using k [of "uint w"] u that b lo by simp
  moreover have "sint (- w) = - uint w" if "negative" using k [of "- uint w"] u that b lo by simp
  ultimately show ?thesis using True b by (simp add: to_int_t_def s)
next
  case False
  then have b: "bits ty \<le> 64" "minv = 0" "maxv < 2 ^ bits ty" using ok by (auto simp: int_type_ok_def)
  show ?thesis
  proof (cases negative)
    case True
    then have "w = 0" using u b by (simp add: uint_0_iff)
    then show ?thesis using False by (simp add: to_int_t_def)
  next
    case pos: False
    then have "take_bit (bits ty) (uint w) = uint w" using u b by (intro take_bit_int_eq_self) auto
    then show ?thesis using False pos by (simp add: to_int_t_def)
  qed
qed

text \<open>The value that the text denotes, brought into the range of the type.\<close>

definition clamp :: "int_type \<Rightarrow> int \<Rightarrow> int \<Rightarrow> int \<Rightarrow> int" where
  "clamp ty minv maxv v = (if v < minv then if is_signed ty then minv else maxv else if maxv < v then maxv else v)"

lemma parser_strtoint_correct:
  assumes ok: "int_type_ok ty minv maxv" and s: "parser_sign allow s = (negative, s1)" "parser_base base s1 = (b, s2)"
    and b: "2 \<le> b" "b \<le> 36"
  defines "ds \<equiv> digits_of (nat b) s2"
  defines "v \<equiv> (if negative then - int (horner (nat b) 0 ds) else int (horner (nat b) 0 ds))"
  shows "parser_strtoint ty minv maxv allow base s =
    \<lparr>have_number = ds \<noteq> [], have_overflow = v < minv \<or> maxv < v, number = clamp ty minv maxv v,
     remaining = drop (length ds) s2\<rparr>"
proof -
  define radix where "radix = (word_of_int b :: u8)"
  define M where "M = nat (if negative then - minv else maxv)"
  have r: "unat radix = nat b" using b by (simp add: radix_def unsigned_of_int take_bit_int_eq_self)
  have r0: "0 < unat radix" using r b by simp
  then have "0 < int (unat radix)" by (simp only: of_nat_0_less_iff)
  then have r1: "0 < uint radix" by simp
  note bd = int_type_ok_bounds [OF ok]
  have M: "int M = (if negative then - minv else maxv)" "M < 2 ^ 64" using bd by (auto simp: M_def)
  define ceil where "ceil = (word_of_int (int M div uint radix) :: u64)"
  define last_digit where "last_digit = (word_of_int (int M mod uint radix) :: u8)"
  have c: "word_of_int (if negative then - cdiv minv (uint radix) else cdiv maxv (uint radix)) = ceil"
    "word_of_int (if negative then - cmod minv (uint radix) else cmod maxv (uint radix)) = last_digit"
    using cdiv_nonpos [OF bd(1) r1] cdiv_nonneg [OF bd(2) r1] cmod_nonneg [OF bd(2) r1]
    unfolding ceil_def last_digit_def M(1) by auto
  have u: "unat ceil * unat radix + unat last_digit = M" "unat last_digit < unat radix"
    unfolding ceil_def last_digit_def ceil_of [OF M(2) r0] using r0 by simp_all
  obtain val hn ho rest where p: "parser_digits radix ceil last_digit s2 0 False False = (val, hn, ho, rest)"
    using prod_cases4 by blast
  have res: "rest = drop (length ds) s2" "hn = (ds \<noteq> [])" "ho \<longleftrightarrow> M < horner (nat b) 0 ds"
    "\<not> ho \<Longrightarrow> unat val = horner (nat b) 0 ds"
    using parser_digits_correct [OF _ u(2) p, unfolded u(1), unfolded r, OF M(2)] unfolding ds_def by simp_all
  have over: "ho \<longleftrightarrow> v < minv \<or> maxv < v" unfolding res(3) v_def using M(1) bd(1,2) by auto
  have "to_int_t ty (if negative then - val else val) = v" if "\<not> ho"
  proof -
    have "int (unat val) \<le> (if negative then - minv else maxv)" using that res(3) res(4) [OF that] M(1) by (auto split: if_splits)
    then show ?thesis using to_int_t_value [OF ok, of val negative] res(4) [OF that] by (simp add: v_def)
  qed
  moreover have "(if \<not> is_signed ty \<or> \<not> negative then maxv else minv) = clamp ty minv maxv v" if ho
    using that over bd(1,2) by (auto simp: clamp_def v_def)
  moreover have "clamp ty minv maxv v = v" if "\<not> ho" using that over by (simp add: clamp_def)
  ultimately show ?thesis
    unfolding parser_strtoint_def s Let_def split_conv radix_def [symmetric] c p using b res over by simp
qed










text \<open>Cases of \<^verbatim>\<open>strtoul_test.c\<close>: a negative number, and Unicode white space.\<close>

lemma strtoul_tests:
  "strtoul_l [10, 45, 52, 50, 98, 111, 111, 109] 6 ctype_us_ascii = (Some ERANGE, 2 ^ 64 - 1, 4)"
  "strtoul_l [9, 45, 48, 48, 48, 48, 48, 48] 6 ctype_us_ascii = (None, 0, 8)"
  "strtoul_l [48, 120, 49, 50, 51] 0 ctype_us_ascii = (None, 0x123, 5)"
  "strtoul_l [0xe3, 0x80, 0x80, 49, 50, 51] 10 ctype_us_ascii = (Some EINVAL, 0, 0)"
  "strtoul_l [0xe3, 0x80, 0x80, 49, 50, 51] 10 ctype_utf_8 = (None, 123, 6)"
  by code_simp+

section \<open>Internet addresses\<close>

lemma PEEK_simps [simp]: "PEEK [] n = 0" "PEEK (c # s) 0 = c" "PEEK (c # s) (Suc n) = PEEK s n"
  by (simp_all add: PEEK_def)

lemma digit_value_digit: "d < 10 \<Longrightarrow> digit_value (digit d) = Some (word_of_nat d)"
  by (cases "d = 0 \<or> d = 1 \<or> d = 2 \<or> d = 3 \<or> d = 4 \<or> d = 5 \<or> d = 6 \<or> d = 7 \<or> d = 8 \<or> d = 9")
    (auto simp: digit_value_def digit_def)

lemma dec_digits_horner: "horner 10 0 (dec_digits n) = n"
proof (induction n rule: dec_digits.induct)
  case (1 n)
  show ?case using 1 by (cases "n < 10") (simp_all add: dec_digits.simps [of n] horner_def)
qed

lemma digits_of_dec:
  assumes "\<forall>d \<in> set ds. d < r" "r \<le> 10" "\<not> is_digit_of r (PEEK rest 0)"
  shows "digits_of r (map digit ds @ rest) = ds"
  using assms(1)
proof (induction ds)
  case Nil
  then show ?case using assms(3) by (cases rest) simp_all
next
  case (Cons d ds)
  then have "d < 10" using assms(2) by auto
  then have "digit_value (digit d) = Some (word_of_nat d)" "unat (word_of_nat d :: u8) = d"
    using digit_value_digit by (simp_all add: unsigned_of_nat take_bit_nat_eq_self)
  then show ?case using Cons by (simp add: is_digit_of_def)
qed

lemma digit_chars: "d < 10 \<Longrightarrow> digit d \<noteq> 43 \<and> (digit d = 48 \<longleftrightarrow> d = 0)"
  by (cases "d = 0 \<or> d = 1 \<or> d = 2 \<or> d = 3 \<or> d = 4 \<or> d = 5 \<or> d = 6 \<or> d = 7 \<or> d = 8 \<or> d = 9")
    (auto simp: digit_def)

lemma dec_digits_head: "dec_digits n = d # es \<Longrightarrow> n < 1000 \<Longrightarrow> d < 10 \<and> (d = 0 \<longleftrightarrow> n = 0) \<and> (n = 0 \<longrightarrow> es = [])"
proof -
  assume d: "dec_digits n = d # es" and n: "n < 1000"
  have "d < 10" using dec_digits_less [of n] d by simp
  moreover have "n div 10 \<noteq> 0" if "10 \<le> n" using that div_le_mono [of 10 n 10] by simp
  moreover have "n div 100 \<noteq> 0" if "100 \<le> n" using that div_le_mono [of 100 n 100] by simp
  ultimately show ?thesis using d unfolding dec_digits_cases [OF n] by (auto split: if_splits)
qed

text \<open>A number of a dotted quad, followed by a dot or by the end of the string.\<close>

lemma aton_number:
  assumes rest: "PEEK rest 0 = 0 \<or> PEEK rest 0 = dot" and m: "255 \<le> uint (maxv :: u32)"
  shows "parser_strtoint \<lparr>is_signed = False, bits = 32\<rparr> 0 (uint maxv) False 0 (fmt_PRIu8 x @ rest) =
    \<lparr>have_number = True, have_overflow = False, number = uint x, remaining = rest\<rparr>"
proof -
  let ?ty = "\<lparr>is_signed = False, bits = 32\<rparr>"
  define n where "n = unat x"
  have n: "n < 256" "int n = uint x" using unat_u8_less by (simp_all add: n_def)
  have ok: "int_type_ok ?ty 0 (uint maxv)" using uint_lt2p [of maxv] by (simp add: int_type_ok_def)
  have stop: "\<not> is_digit_of r (PEEK rest 0)" for r using rest by (auto simp: is_digit_of_def digit_value_def)
  define r where "r = (if n = 0 then 8 else 10 :: nat)"
  have ds: "\<forall>d \<in> set (dec_digits n). d < r" "dec_digits n \<noteq> []" "horner r 0 (dec_digits n) = n"
    using dec_digits_less [of n] dec_digits_horner [of n] by (auto simp: r_def dec_digits.simps [of 0])
  obtain d es where d: "dec_digits n = d # es" using ds(2) by (cases "dec_digits n") auto
  have d0: "d < 10" "d = 0 \<longleftrightarrow> n = 0" "n = 0 \<Longrightarrow> es = []" using dec_digits_head [OF d] n(1) by simp_all
  have c: "digit d \<noteq> 43" "digit d = 48 \<longleftrightarrow> d = 0" using digit_chars [OF d0(1)] by simp_all
  let ?s = "map digit (dec_digits n) @ rest"
  have sign: "parser_sign False ?s = (False, ?s)" using c(1) by (simp add: parser_sign_def d)
  have base: "parser_base 0 ?s = (int r, ?s)"
    using c(2) d0(2,3) rest by (auto simp: parser_base_def d r_def)
  have "digits_of (nat (int r)) ?s = dec_digits n" using digits_of_dec [OF ds(1) _ stop] by (simp add: r_def)
  then have "parser_strtoint ?ty 0 (uint maxv) False 0 ?s =
      \<lparr>have_number = True, have_overflow = False, number = int n, remaining = rest\<rparr>"
    using parser_strtoint_correct [OF ok sign base] ds(2,3) m n by (simp add: r_def clamp_def split: if_splits)
  then show ?thesis using n(2) by (simp add: fmt_PRIu8_def n_def)
qed

lemma aton_last:
  assumes "255 \<le> uint (maxv :: u32)"
  shows "inet_aton_loop shift maxv leading (fmt_PRIu8 x) = Some (leading OR ucast x)"
  using aton_number [of "[]" maxv x, OF _ assms] by (simp add: inet_aton_loop.simps)

lemma aton_more:
  assumes "255 \<le> uint (maxv :: u32)"
  shows "inet_aton_loop (Suc shift) maxv leading (fmt_PRIu8 x @ dot # cp) =
    inet_aton_loop shift (drop_bit 8 maxv) (leading OR push_bit (8 * Suc shift) (ucast x)) cp"
proof -
  have "(word_of_int (uint x) :: u32) \<le> 255" using unat_u8_less [of x] by (simp add: word_le_nat_alt unsigned_ucast_eq take_bit_nat_eq_self)
  then show ?thesis using aton_number [of "dot # cp" maxv x, OF _ assms] by (subst inet_aton_loop.simps) simp
qed

lemma bit_u8_high: "\<not> bit (x :: u8) (8 + n)" "\<not> bit x (16 + n)" "\<not> bit x (24 + n)"
  using bit_imp_le_length [of x] by fastforce+

lemma htonl_quad:
  "htonl_bytes (((push_bit 24 (ucast a) OR push_bit 16 (ucast b)) OR push_bit 8 (ucast c)) OR ucast (d :: u8)) = [a, b, c, d]"
  unfolding htonl_bytes_def by (auto intro!: bit_eqI simp: bit_simps bit_u8_high)

lemma aton_dotted_quad: "length a = 4 \<Longrightarrow> inet_aton (dotted_quad a) = Some a"
proof -
  assume "length a = 4"
  then obtain x y z w where a: "a = [x, y, z, w]" by (rule length_4_cases)
  have "inet_aton_loop 3 0xffffffff 0 (dotted_quad a) =
      Some (((push_bit 24 (ucast x) OR push_bit 16 (ucast y)) OR push_bit 8 (ucast z)) OR ucast w)"
    by (simp add: dotted_quad_def a numeral_3_eq_3 aton_more aton_last)
  then show ?thesis by (simp add: inet_aton_def htonl_quad a)
qed

section \<open>Properties\<close>


text \<open>
  C33: The two parsers of IPv4 addresses agree: a string that \<open>inet_pton()\<close> accepts is accepted by
  \<open>inet_aton()\<close>, which reads numbers with the parser of \<open>strtol()\<close> and with octal and hexadecimal
  prefixes, with the same address as result.
\<close>
theorem inet_aton_agrees:
  assumes "inet_pton AF_INET s = Inr (Some a)" "0 \<notin> set s"
  shows "inet_aton s = Some a"
proof -
  have "inet_pton4 s = Some a" using assms(1) by (simp add: inet_pton_def)
  then show ?thesis using assms(2) by (rule pton4_accepts) (simp add: aton_dotted_quad)
qed

theorem inet_aton_agrees_witness: "inet_aton [49, 57, 50, 46, 48, 46, 50, 46, 49] = Some [192, 0, 2, 1]"
proof -
  have "inet_pton AF_INET [49, 57, 50, 46, 48, 46, 50, 46, 49] = Inr (Some [192, 0, 2, 1])" by code_simp
  then show ?thesis by (rule inet_aton_agrees) simp
qed

end
