(* ===== verification/Lsearch.thy ===== *)
theory Lsearch
  imports Prelude
begin

text \<open>
  Linear search and queues: \<open>lfind()\<close>, \<open>lsearch()\<close>, \<open>insque()\<close> and \<open>remque()\<close> of \<^verbatim>\<open>include/search.h\<close>. An array is
  the list of its elements, and a position in it an index. The links of queue elements are in a heap, a
  function from addresses, where the address 0 is \<open>NULL\<close>.
\<close>

section \<open>Operations\<close>

fun lfind_loop :: "('a \<Rightarrow> 'a \<Rightarrow> int) \<Rightarrow> 'a \<Rightarrow> 'a list \<Rightarrow> nat \<Rightarrow> nat option" where
  "lfind_loop compar key [] base = None"
| "lfind_loop compar key (x # xs) base =
     (if compar key x = 0 then Some base else lfind_loop compar key xs (base + 1))"

definition lfind :: "'a \<Rightarrow> 'a list \<Rightarrow> ('a \<Rightarrow> 'a \<Rightarrow> int) \<Rightarrow> nat option" where
  "lfind key xs compar = lfind_loop compar key xs 0"

text \<open>The position of the element, and the array with its new number of elements.\<close>

definition lsearch :: "'a \<Rightarrow> 'a list \<Rightarrow> ('a \<Rightarrow> 'a \<Rightarrow> int) \<Rightarrow> nat \<times> 'a list" where
  "lsearch key xs compar =
     (case lfind_loop compar key xs 0 of Some i \<Rightarrow> (i, xs) | None \<Rightarrow> (length xs, xs @ [key]))"

record que =
  succ :: nat
  pred :: nat

type_synonym que_heap = "nat \<Rightarrow> que"

definition set_succ :: "que_heap \<Rightarrow> nat \<Rightarrow> nat \<Rightarrow> que_heap" where
  "set_succ h p q = h(p := (h p)\<lparr>succ := q\<rparr>)"

definition set_pred :: "que_heap \<Rightarrow> nat \<Rightarrow> nat \<Rightarrow> que_heap" where
  "set_pred h p q = h(p := (h p)\<lparr>pred := q\<rparr>)"

definition insque :: "nat \<Rightarrow> nat \<Rightarrow> que_heap \<Rightarrow> que_heap" where
  "insque element qpred h =
     (if qpred = 0 then set_pred (set_succ h element 0) element 0
      else
        (let qsucc = succ (h qpred);
             h = set_succ h element qsucc;
             h = set_pred h element qpred;
             h = set_succ h qpred element
         in if qsucc \<noteq> 0 then set_pred h qsucc element else h))"

definition remque :: "nat \<Rightarrow> que_heap \<Rightarrow> que_heap" where
  "remque element h =
     (let qsucc = succ (h element);
          qpred = pred (h element);
          h = (if qsucc \<noteq> 0 then set_pred h qsucc qpred else h)
      in if qpred \<noteq> 0 then set_succ h qpred qsucc else h)"

section \<open>Linear search\<close>

lemma lfind_loop_correct:
  "case lfind_loop compar key xs base of
     None \<Rightarrow> \<forall>x \<in> set xs. compar key x \<noteq> 0
   | Some i \<Rightarrow> base \<le> i \<and> i - base < length xs \<and> compar key (xs ! (i - base)) = 0
       \<and> (\<forall>j < i - base. compar key (xs ! j) \<noteq> 0)"
proof (induction compar key xs base rule: lfind_loop.induct)
  case (2 compar key x xs base)
  show ?case
  proof (cases "compar key x = 0")
    case False
    show ?thesis
    proof (cases "lfind_loop compar key xs (base + 1)")
      case (Some i)
      with 2 False have i: "base + 1 \<le> i" "i - (base + 1) < length xs" "compar key (xs ! (i - (base + 1))) = 0"
        "\<forall>j < i - (base + 1). compar key (xs ! j) \<noteq> 0" by auto
      have "i - base = Suc (i - (base + 1))" using i(1) by simp
      then show ?thesis using i False Some by (auto simp: less_Suc_eq_0_disj)
    qed (use 2 False in auto)
  qed simp
qed simp

definition array_invar :: "('a \<Rightarrow> 'a \<Rightarrow> int) \<Rightarrow> 'a list \<Rightarrow> bool" where
  "array_invar compar xs \<longleftrightarrow> sorted_wrt (\<lambda>a b. compar a b \<noteq> 0) xs"

definition array_lookup :: "('a \<Rightarrow> 'a \<Rightarrow> int) \<Rightarrow> 'a \<Rightarrow> 'a list \<Rightarrow> 'a option" where
  "array_lookup compar key xs = map_option ((!) xs) (lfind key xs compar)"

definition array_enter :: "('a \<Rightarrow> 'a \<Rightarrow> int) \<Rightarrow> 'a \<Rightarrow> 'a list \<Rightarrow> 'a list" where
  "array_enter compar key xs = snd (lsearch key xs compar)"

lemma array_lookup_cases:
  "case array_lookup compar key xs of
     None \<Rightarrow> (\<forall>x \<in> set xs. compar key x \<noteq> 0) \<and> array_enter compar key xs = xs @ [key]
   | Some x \<Rightarrow> x \<in> set xs \<and> compar key x = 0 \<and> array_enter compar key xs = xs"
  using lfind_loop_correct [where compar = compar and key = key and xs = xs and base = 0]
  by (auto simp: array_lookup_def array_enter_def lfind_def lsearch_def split: option.splits)

sublocale comparator \<subseteq> linear: search_table compar "array_invar compar" "\<lambda>xs. True" set
  "array_lookup compar" "array_enter compar"
proof
  fix t :: "'a list" and q x y k
  assume t: "array_invar compar t"
  show "x \<in> set t \<and> compar q x = 0" if "array_lookup compar q t = Some x"
    using array_lookup_cases [where compar = compar and key = q and xs = t] that by simp
  show "compar q x \<noteq> 0" if "array_lookup compar q t = None" "x \<in> set t"
    using array_lookup_cases [where compar = compar and key = q and xs = t] that by simp
  show "x = y" if "x \<in> set t" "y \<in> set t" "compar x y = 0"
  proof -
    note xy = that
    obtain i j where ij: "i < length t" "t ! i = x" "j < length t" "t ! j = y"
      using xy(1,2) by (auto simp: in_set_conv_nth)
    have "\<not> i < j" "\<not> j < i"
      using sorted_wrt_nth_less [OF t [unfolded array_invar_def]] ij xy(3) compar_zero_sym [of x y] by metis+
    then show ?thesis using ij by (metis linorder_neqE_nat)
  qed
  show "set (array_enter compar k t) = (if array_lookup compar k t = None then insert k (set t) else set t)"
    using array_lookup_cases [where compar = compar and key = k and xs = t] by (auto split: option.splits)
  show "array_invar compar (array_enter compar k t)"
    using array_lookup_cases [where compar = compar and key = k and xs = t] t compar_zero_sym
    by (auto simp: array_invar_def sorted_wrt_append split: option.splits)
qed

section \<open>Queues\<close>

text \<open>The elements at \<open>xs\<close> are linked in this order, between \<open>p\<close> and \<open>n\<close>.\<close>

fun linked :: "que_heap \<Rightarrow> nat \<Rightarrow> nat list \<Rightarrow> nat \<Rightarrow> bool" where
  "linked h p [] n \<longleftrightarrow> True"
| "linked h p (x # xs) n \<longleftrightarrow> pred (h x) = p \<and> succ (h x) = hd (xs @ [n]) \<and> linked h x xs n"

definition queue :: "que_heap \<Rightarrow> nat list \<Rightarrow> bool" where
  "queue h xs \<longleftrightarrow> distinct xs \<and> 0 \<notin> set xs \<and> linked h 0 xs 0"

lemma linked_append: "linked h p (xs @ ys) n \<longleftrightarrow> linked h p xs (hd (ys @ [n])) \<and> linked h (last (p # xs)) ys n"
  by (induction xs arbitrary: p) (auto simp: hd_append)

lemma linked_frame: "(\<And>x. x \<in> set xs \<Longrightarrow> h' x = h x) \<Longrightarrow> linked h' p xs n = linked h p xs n"
  by (induction xs arbitrary: p) auto

lemma insque_queue:
  assumes q: "queue h (xs @ p # ys)" and e: "e \<noteq> 0" "e \<notin> set (xs @ p # ys)"
  shows "queue (insque e p h) (xs @ p # e # ys)"
proof -
  have d: "distinct (xs @ p # ys)" "0 \<notin> set (xs @ p # ys)" "linked h 0 xs p" "pred (h p) = last (0 # xs)"
    "succ (h p) = hd (ys @ [0])" "linked h p ys 0"
    using q by (auto simp: queue_def linked_append)
  define h' where "h' = insque e p h"
  have p: "p \<noteq> 0" "p \<noteq> e" using d(2) e by auto
  have xs: "linked h' 0 xs p"
  proof -
    have "linked h' 0 xs p = linked h 0 xs p"
      using d(1,2,5) e p by (intro linked_frame) (cases ys; auto simp: h'_def insque_def set_succ_def set_pred_def Let_def)
    then show ?thesis using d(3) by simp
  qed
  have hp: "pred (h' p) = last (0 # xs)" "succ (h' p) = e" "pred (h' e) = p" "succ (h' e) = hd (ys @ [0])"
    using d(1,2,4,5) e p by (cases ys; auto simp: h'_def insque_def set_succ_def set_pred_def Let_def)+
  have "linked h' e ys 0"
  proof (cases ys)
    case (Cons y zs)
    then have "linked h' y zs 0 = linked h y zs 0"
      using d(1,2) e d(5) p by (intro linked_frame) (auto simp: h'_def insque_def set_succ_def set_pred_def Let_def)
    then show ?thesis using Cons d e p by (auto simp: h'_def insque_def set_succ_def set_pred_def Let_def)
  qed simp
  then show ?thesis using xs hp d(1,2) e unfolding queue_def h'_def [symmetric] by (auto simp: linked_append)
qed

lemma insque_first: "e \<noteq> 0 \<Longrightarrow> queue (insque e 0 h) [e]"
  by (simp add: queue_def insque_def set_succ_def set_pred_def)

lemma remque_queue:
  assumes q: "queue h (xs @ e # ys)"
  shows "queue (remque e h) (xs @ ys)"
proof -
  have d: "distinct (xs @ e # ys)" "0 \<notin> set (xs @ e # ys)" "linked h 0 xs e" "pred (h e) = last (0 # xs)"
    "succ (h e) = hd (ys @ [0])" "linked h e ys 0"
    using q by (auto simp: queue_def linked_append)
  define h' where "h' = remque e h"
  have ys: "linked h' (last (0 # xs)) ys 0"
  proof (cases ys)
    case (Cons y zs)
    have f: "linked h' y zs 0 = linked h y zs 0"
      using d Cons by (intro linked_frame) (cases xs rule: rev_cases; auto simp: h'_def remque_def set_succ_def set_pred_def Let_def)
    show ?thesis using d Cons f
      by (cases xs rule: rev_cases) (auto simp: h'_def remque_def set_succ_def set_pred_def Let_def)
  qed simp
  have "linked h' 0 xs (hd (ys @ [0]))"
  proof (cases xs rule: rev_cases)
    case (snoc us u)
    have f: "linked h' 0 us u = linked h 0 us u"
      using d snoc by (intro linked_frame) (cases ys; auto simp: h'_def remque_def set_succ_def set_pred_def Let_def)
    show ?thesis using d snoc f
      by (cases ys) (auto simp: linked_append h'_def remque_def set_succ_def set_pred_def Let_def)
  qed simp
  then show ?thesis using ys d(1,2) unfolding queue_def h'_def [symmetric] by (auto simp: linked_append)
qed

section \<open>Properties\<close>

text \<open>
  C35: \<open>insque()\<close> and \<open>remque()\<close> keep the two links of all elements of a linear queue consistent:
  insertion puts the new element right after its predecessor, at any place of the queue, and removal takes
  out exactly the element, the first, a middle or the last one, so that an insertion and the
  removal of the element give the queue back.
\<close>
theorem insque_remque_correct:
  assumes "queue h (xs @ p # ys)" "e \<noteq> 0" "e \<notin> set (xs @ p # ys)"
  shows "queue (insque e p h) (xs @ p # e # ys) \<and> queue (remque p h) (xs @ ys)
    \<and> queue (remque e (insque e p h)) (xs @ p # ys)"
  using insque_queue [OF assms] remque_queue [OF assms(1)]
    remque_queue [of "insque e p h" "xs @ [p]" e ys] by simp

theorem insque_remque_correct_witness:
  "\<exists>h. queue h [1, 2] \<and> queue (insque 3 1 h) [1, 3, 2] \<and> queue (remque 1 h) [2]"
proof -
  let ?h = "(\<lambda>a. \<lparr>succ = 0, pred = 0\<rparr>)(1 := \<lparr>succ = 2, pred = 0\<rparr>, 2 := \<lparr>succ = 0, pred = 1\<rparr>)"
  have q: "queue ?h [1, 2]" by (simp add: queue_def)
  show ?thesis using insque_remque_correct [of ?h "[]" 1 "[2]" 3] q by (intro exI [of _ ?h]) simp
qed

end
