(* ===== verification/Radix64.thy ===== *)
theory Radix64
  imports Prelude
begin

unbundle bit_operations_syntax

text \<open>
  The radix-64 notation of \<^verbatim>\<open>libc/stdlib/a64l.c\<close> and \<^verbatim>\<open>l64a_r.c\<close>. A string is the list of its bytes; the
  buffer is the list of the bytes that are stored in it. The 32-bit arithmetic of \<open>a64l()\<close> wraps around.
\<close>

section \<open>Operations\<close>

definition l64a_chars :: "u8 list" where
  "l64a_chars = map word_of_nat ([46, 47] @ [48..<58] @ [65..<91] @ [97..<123])"

fun l64a_r_loop :: "nat \<Rightarrow> u32 \<Rightarrow> int \<times> u8 list" where
  "l64a_r_loop 0 v = (-1, [])"
| "l64a_r_loop (Suc buflen) v =
     (if v = 0 then (0, [0])
      else
        (let (r, buffer) = l64a_r_loop buflen (drop_bit 6 v)
         in (r, l64a_chars ! unat (v AND 0x3f) # buffer)))"

definition l64a_r :: "int \<Rightarrow> int \<Rightarrow> int \<times> u8 list" where
  "l64a_r val buflen = l64a_r_loop (nat buflen) (word_of_int val)"

text \<open>The table of \<open>a64l()\<close>: a character minus \<open>'.'\<close> to its digit plus one, and 0 in the gaps.\<close>

definition a64l_chars :: "nat list" where
  "a64l_chars = [1..<13] @ replicate 7 0 @ [13..<39] @ replicate 6 0 @ [39..<65]"

text \<open>The first argument is the number of iterations that are left of the six.\<close>

fun a64l_loop :: "nat \<Rightarrow> nat \<Rightarrow> u8 list \<Rightarrow> u32 \<Rightarrow> u32" where
  "a64l_loop 0 i s val = val"
| "a64l_loop (Suc n) i s val =
     (let c = unat ((case s of [] \<Rightarrow> 0 | b # _ \<Rightarrow> b) - 46 :: u8)
      in if c \<ge> length a64l_chars \<or> a64l_chars ! c = 0 then val
         else a64l_loop n (i + 1) (tl s) (val OR push_bit (i * 6) (word_of_nat (a64l_chars ! c - 1))))"

definition a64l :: "u8 list \<Rightarrow> int" where
  "a64l s = sint (a64l_loop 6 0 s 0)"

section \<open>Digits\<close>

lemma a64l_chars_inverse:
  assumes "d < 64"
  shows "unat (l64a_chars ! d - 46) < length a64l_chars \<and> a64l_chars ! unat (l64a_chars ! d - 46) = d + 1"
proof -
  have "list_all (\<lambda>d. unat (l64a_chars ! d - 46) < length a64l_chars
      \<and> a64l_chars ! unat (l64a_chars ! d - 46) = d + 1) [0..<64]" by code_simp
  then show ?thesis using assms by (simp add: list_all_iff)
qed

lemma digit_take_bit: "w AND 0x3f = take_bit 6 (w :: u32)"
  by (simp add: take_bit_eq_mask mask_eq_exp_minus_1)

lemma digit_less: "unat (w AND 0x3f :: u32) < 64"
proof -
  have "unat (w AND 0x3f) = take_bit 6 (unat w)" by (simp only: digit_take_bit unsigned_take_bit_eq)
  then show ?thesis by (simp only: take_bit_eq_mod) simp
qed

lemma radix64_digit_join:
  "(val OR push_bit m (w AND 0x3f)) OR push_bit (m + 6) (drop_bit 6 w) = val OR push_bit m (w :: u32)"
proof -
  have "bit (push_bit m (take_bit 6 w) OR push_bit (m + 6) (drop_bit 6 w)) n = bit (push_bit m w) n" for n
  proof (cases "m + 6 \<le> n")
    case True
    then have "6 + (n - (m + 6)) = n - m" by simp
    then show ?thesis using True by (auto simp: bit_simps)
  qed (auto simp: bit_simps)
  then have "push_bit m (w AND 0x3f) OR push_bit (m + 6) (drop_bit 6 w) = push_bit m w"
    unfolding digit_take_bit by (intro bit_eqI) simp
  then show ?thesis by (simp add: or.assoc)
qed

lemma a64l_null: "a64l_loop n i [0] val = val"
  by (cases n) (simp_all add: a64l_chars_def)

text \<open>The rest of a number, after \<open>i\<close> of its digits.\<close>

lemma a64l_rest:
  "i + n = 6 \<Longrightarrow> n < m \<Longrightarrow> unat w < 2 ^ (6 * n - 4) \<Longrightarrow> (n = 0 \<Longrightarrow> w = 0) \<Longrightarrow>
   fst (l64a_r_loop m w) = 0 \<and> a64l_loop n i (snd (l64a_r_loop m w)) val = val OR push_bit (i * 6) w"
proof (induction n arbitrary: i m w val)
  case 0
  then obtain m' where "m = Suc m'" by (cases m) auto
  then show ?case using 0 by simp
next
  case (Suc n)
  then obtain m' where m: "m = Suc m'" "n < m'" by (cases m) auto
  show ?case
  proof (cases "w = 0")
    case True
    then show ?thesis using m a64l_null [of "Suc n"] by (simp del: a64l_loop.simps)
  next
    case False
    have u: "unat (drop_bit 6 w) = unat w div 64" unfolding unat_drop_bit_eq by (simp add: drop_bit_eq_div)
    have small: "unat (drop_bit 6 w) < 2 ^ (6 * n - 4)" "n = 0 \<Longrightarrow> drop_bit 6 w = 0"
    proof -
      have "n = 0 \<Longrightarrow> unat w < 4" using Suc.prems(3) by simp
      then have "n = 0 \<Longrightarrow> unat (drop_bit 6 w) = 0" unfolding u by simp
      then show z: "n = 0 \<Longrightarrow> drop_bit 6 w = 0" by (metis unat_eq_zero)
      show "unat (drop_bit 6 w) < 2 ^ (6 * n - 4)"
      proof (cases n)
        case 0
        then show ?thesis using z by simp
      next
        case (Suc k)
        then have "unat w < 2 ^ (6 * n - 4) * 64" using Suc.prems(3) by (simp add: power_add)
        then show ?thesis unfolding u by (simp add: less_mult_imp_div_less)
      qed
    qed
    have IH: "fst (l64a_r_loop m' (drop_bit 6 w)) = 0"
      "a64l_loop n (i + 1) (snd (l64a_r_loop m' (drop_bit 6 w))) v = v OR push_bit ((i + 1) * 6) (drop_bit 6 w)" for v
      using Suc.IH [of "i + 1" m' "drop_bit 6 w"] Suc.prems(1) m(2) small by simp_all
    define d where "d = unat (w AND 0x3f)"
    have d: "d < 64" "word_of_nat d = w AND 0x3f" using digit_less by (simp_all add: d_def)
    have step: "l64a_r_loop m w = (0, l64a_chars ! d # snd (l64a_r_loop m' (drop_bit 6 w)))"
      using False IH(1) by (simp add: m d_def case_prod_beta)
    show ?thesis using a64l_chars_inverse [OF d(1)] d(2) IH(2) radix64_digit_join [of val "i * 6" w]
      unfolding step by (simp add: add.commute)
  qed
qed

section \<open>Properties\<close>

text \<open>
  C36: \<open>a64l()\<close> inverts \<open>l64a_r()\<close>: with a buffer of at least seven bytes every number is printed, and
  the text reads back as the low 32 bits of the number, with their sign.
\<close>
theorem a64l_roundtrip:
  assumes "7 \<le> buflen"
  shows "fst (l64a_r val buflen) = 0 \<and> a64l (snd (l64a_r val buflen)) = signed_take_bit 31 val"
proof -
  have "6 < nat buflen" using assms by simp
  moreover have "unat (word_of_int val :: u32) < 2 ^ (6 * 6 - 4)" using unsigned_less [of "word_of_int val :: u32"] by simp
  ultimately show ?thesis
    using a64l_rest [of 0 6 "nat buflen" "word_of_int val" 0] by (simp add: l64a_r_def a64l_def signed_of_int)
qed

theorem a64l_roundtrip_witness: "a64l (snd (l64a_r (-1) 7)) = -1"
  using a64l_roundtrip [of 7 "-1"] by simp

end
