(* ===== verification/Spec2Isabelle.thy ===== *)
theory Spec2Isabelle
  imports Prelude TreeSearch TreeDelete Memory Strings StringCorrect Mqueue Semaphore Surrogate ArgdataIter ArgdataUtf8 Hsearch Calendar Verscmp Rwlock Strtoint Lsearch Radix64
begin

text \<open>
  Verification of cloudlibc, the C library of CloudABI, for the LP64 targets.

  The parts of the program and the theories that model them:

  \<^item> Prelude: machine types, \<open>errno\<close> values, C's truncating division, the contract of
    comparison callbacks (locale \<open>comparator\<close>) and of keyed tables (locales \<open>search_table\<close> and
    \<open>deletable_table\<close>).
  \<^item> TreeSearch and TreeDelete: the AVL trees of \<^verbatim>\<open>src/src/libc/search\<close> (\<open>tsearch\<close>,
    \<open>tfind\<close>, \<open>tdelete\<close>, \<open>twalk\<close>, \<open>tdestroy\<close>) with the bit-packed path of
    \<^verbatim>\<open>search_impl.h\<close>. Trees are values; a \<open>posix_tnode **\<close> is a position in the tree. The
    lemmas show the refinement of the path by a list of directions, that insertion and the
    one-pass deletion keep the AVL and search-tree invariants for every tree that fits in the
    address space, and that the operations implement the table contract.
  \<^item> Memory, Strings and StringCorrect: \<^verbatim>\<open>src/src/libc/string\<close> and
    \<^verbatim>\<open>src/src/common/byteset.h\<close> over a byte-addressed memory. The word-at-a-time loops, the
    alignment loops in front of them and \<open>contains_nullbyte()\<close> are modelled as written and
    shown equal to bytewise references, for every alignment and every overlap. \<open>strcmp_spec\<close>,
    the order that \<open>strcmp()\<close> computes, interprets the locale \<open>comparator\<close>; the byte sets
    interpret the locale \<open>byte_set\<close>, on which the scanning routines rest.
  \<^item> Mqueue: \<^verbatim>\<open>src/src/libc/mqueue\<close>. The receive list and the skip list of a queue are two
    linked lists over an explicit store. The lemmas show that sending and receiving implement a
    priority queue that is first-in first-out within a priority, and that every history of
    calls keeps the structure and the bounds of the queue.
  \<^item> Semaphore: \<^verbatim>\<open>src/src/libc/semaphore\<close>. The value of a semaphore is a 32-bit word; the
    lemmas show that it counts posts and waits exactly and that a wait takes a unit that is there.
  \<^item> Utf8, Codec, CodecCorrect, CodePages and Surrogate: the character encodings of
    \<^verbatim>\<open>src/src/libc/locale/ctype\<close> and the conversions of \<^verbatim>\<open>src/src/libc/uchar\<close> and
    \<^verbatim>\<open>src/src/libc/wchar\<close> that use them. The locale \<open>ctype_codec\<close> is the contract of a codec
    (decoding inverts encoding); UTF-8, US-ASCII, ISO-8859-1, IBM037 and the sixteen code pages
    of \<^verbatim>\<open>asciiplus.h\<close> meet it, and the string conversions that are generated from a codec
    invert each other by the contract alone. The decoder of ISO-8859-15 reads outside of its
    table, which \<open>iso_8859_15_out_of_range\<close> states.

  \<^item> Argdata, ArgdataValues, ArgdataCorrect, ArgdataFds, ArgdataNumbers, ArgdataIter and ArgdataUtf8: the typed
    values of \<^verbatim>\<open>src/contrib/argdata-0.5/src\<close> and their binary form. \<open>argdata_wf\<close> is the invariant of
    a value, which the creating functions establish. The lemmas show that the length prefix and
    its parser invert each other, that serialization writes exactly the announced number of bytes
    and keeps every file descriptor, that numbers and timestamps read back as themselves, and what
    the iterators visit. ArgdataUtf8 shows that the validation of strings accepts what the UTF-8
    codec of the C library decodes. Sizes wrap around at \<open>2 ^ 64\<close> in the creating functions; the invariant
    asks that they do not. The descriptor table is assumed to have fewer than \<open>2 ^ 32\<close> entries,
    as indices are stored in 32 bits.
  \<^item> Hsearch: the hash tables of \<^verbatim>\<open>src/src/libc/search/hsearch_r.c\<close>. \<open>hs_ok\<close> is the invariant of a
    table: its size is a power of two, it is at most half full, and every entry is reached by the
    probing that starts at its hash. The lemmas show that quadratic probing visits every position,
    so that the loops end, and that the table meets the contract \<open>search_table\<close>, also when it
    grows. \<open>hs_room\<close> asks for fewer than \<open>2 ^ 62\<close> positions, more than memory holds.
  \<^item> Calendar: \<^verbatim>\<open>src/src/libc/time/localtime_utc.c\<close>, \<^verbatim>\<open>mktime_utc.c\<close> and the year tables of
    \<^verbatim>\<open>src/src/common/time.h\<close>. \<open>year_start\<close> is the closed formula for the first day of a year; the
    lemmas show that it counts the days of the years, that the leap-day arithmetic of
    \<open>__localtime_utc()\<close> splits a day number into the year and the day of the year, and that the
    two conversions invert each other.
  \<^item> Qsort: \<open>qsort()\<close>, \<open>qsort_r()\<close> and \<open>bsearch()\<close> of \<^verbatim>\<open>src/src/include/stdlib.h\<close>. \<open>split_at\<close> is the
    invariant of the three-way partitioning; on it rests, for every callback that meets the locale
    \<open>comparator\<close>, that the sort returns with the same elements in order.
  \<^item> Inet and InetCorrect: \<^verbatim>\<open>src/src/libc/arpa/inet/inet_ntop.c\<close> and \<^verbatim>\<open>inet_pton.c\<close>. The lemmas follow the
    parser through the text that the printer writes, group by group (\<open>parse_before\<close> and \<open>parse_after\<close> the
    \<open>::\<close>), and show that parsing inverts printing for all addresses of both families.
  \<^item> Rwlock: the read-write locks of \<^verbatim>\<open>src/src/libc/pthread\<close>, which are also its mutexes. Threads
    interleave at their atomic operations (\<open>lock_step\<close>); the system calls are a parameter with
    the contract \<open>kernel_contract\<close>. \<open>lock_inv\<close> relates the lock word to what the threads have; on it
    rest mutual exclusion and that no assertion of \<open>pthread_rwlock_unlock()\<close> fails for a thread that
    has the lock. The threads take fewer than \<open>2 ^ 30\<close> read locks, as the count shares its word
    with the bit of the write lock.
  \<^item> Strtoint: the parser of integers of \<^verbatim>\<open>src/src/common/parser_strtoint.h\<close>, the \<open>strtol()\<close> family that
    \<^verbatim>\<open>src/src/common/strtoint.h\<close> generates from it, and \<open>inet_aton()\<close>. \<open>horner\<close> is the unbounded value of
    a sequence of digits; the lemmas show that the test before each digit is exact, that the words
    never wrap around, and that \<open>inet_aton()\<close> agrees with \<open>inet_pton()\<close>.
  \<^item> Verscmp: the version order of \<^verbatim>\<open>src/src/common/strverscmp.h\<close>. \<open>before\<close> orders strings that differ in
    their first character, state by state; on it rests that the comparison is a total order, so that
    it meets the locale \<open>comparator\<close> and sorts with \<open>qsort()\<close>.
  \<^item> Lsearch: \<open>lfind()\<close>, \<open>lsearch()\<close>, \<open>insque()\<close> and \<open>remque()\<close> of \<^verbatim>\<open>src/src/include/search.h\<close>. An array that
    is searched linearly meets the locale \<open>search_table\<close>; \<open>queue\<close> says that the links in the heap form a
    linear list, which insertion and removal keep.
  \<^item> Radix64: \<^verbatim>\<open>src/src/libc/stdlib/a64l.c\<close> and \<^verbatim>\<open>l64a_r.c\<close>, which invert each other on 32 bits.


  Partiality and bounds: a loop that only its data ends is a \<open>partial_function\<close> into
  \<open>option\<close>, and the theorems state that it returns. No fuel is used. Addresses and sizes are
  natural numbers where the code has no arithmetic that could wrap: objects do not span the end
  of the address space. Trees are bounded by the 128 steps that a path records, which every AVL
  tree that fits in 64-bit memory satisfies (\<open>fits\<close>).

  Outside of Rwlock, which models the locks themselves, locking is modelled by atomicity: what a
  function does between locking and unlocking is one transition. \<open>pthread_cond_wait()\<close> appears as
  the list of states in which waits return.

  Not modelled: the vendored memory allocator, mathematical functions and floating-point
  conversion (\<^verbatim>\<open>contrib/jemalloc\<close>, \<^verbatim>\<open>contrib/musl\<close>, \<^verbatim>\<open>contrib/double-conversion\<close>), which need a
  model of floating-point numbers and of raw memory; the tables of GB 2312, locales and networks,
  which are data; formatted input and output, the textual form of times and time zones, which are
  driven by these tables; the two-way substring search of \<^verbatim>\<open>common/twoway.h\<close>; thread creation,
  condition variables, timed locks and the wrappers of system calls, whose effects are in the
  kernel. Memory allocation is a parameter of the operations that allocate.
\<close>

end
